(* ===== verification/Prelude.thy ===== *)
theory Prelude
  imports Main "HOL-Library.Word"
begin

text \<open>
  Shared vocabulary of the development.

  \<^item> \<open>outcome\<close> and \<open>kop\<close>: a kernel routine is a function from the kernel state to an outcome.
    \<open>Ok x s\<close> is a normal return, \<open>Fail\<close> is a \<^verbatim>\<open>panic()\<close>, an access the C standard leaves
    undefined, or a loop that never ends, and \<open>Suspend s\<close> is the calling process leaving the
    CPU inside \<^verbatim>\<open>sched()\<close> with the kernel in state \<open>s\<close>.
  \<^item> \<open>kret\<close>, \<open>kdo\<close>, \<open>kget\<close>, \<open>kmod\<close>, \<open>kpanic\<close>, \<open>kwhen\<close>, \<open>kfor\<close>: sequencing of such routines.
  \<^item> \<open>runs f s Q\<close>: the routine \<open>f\<close>, started in \<open>s\<close>, returns normally and its result and final
    state satisfy \<open>Q\<close> (total correctness). The collection \<open>run_simps\<close> computes it.
  \<^item> little-endian encodings of C integers in byte buffers, and \<open>blit\<close>, which is what
    \<^verbatim>\<open>memmove\<close> into a buffer does to the buffer's contents.
  \<^item> 32-bit counters kept as \<open>nat\<close> with the wrap-around written out (\<open>inc32\<close>, \<open>dec32\<close>).
\<close>

unbundle bit_operations_syntax

named_theorems run_simps \<open>rules that compute \<open>runs\<close>\<close>
named_theorems const_defs \<open>the numeric parameters of the kernel, for unfolding\<close>

type_synonym u8 = "8 word"
type_synonym u16 = "16 word"
type_synonym u32 = "32 word"

section \<open>Outcomes of kernel routines\<close>

datatype fault = KPanic string | Undef string | Diverge

datatype ('a, 's) outcome = Ok 'a 's | Fail fault | Suspend 's

type_synonym ('s, 'a) kop = "'s \<Rightarrow> ('a, 's) outcome"

definition kret :: "'a \<Rightarrow> ('s, 'a) kop" where
  "kret x = (\<lambda>s. Ok x s)"

definition kdo :: "('s, 'a) kop \<Rightarrow> ('a \<Rightarrow> ('s, 'b) kop) \<Rightarrow> ('s, 'b) kop" where
  "kdo f g = (\<lambda>s. case f s of Ok x s' \<Rightarrow> g x s' | Fail e \<Rightarrow> Fail e | Suspend s' \<Rightarrow> Suspend s')"

definition kget :: "('s \<Rightarrow> 'a) \<Rightarrow> ('s, 'a) kop" where
  "kget f = (\<lambda>s. Ok (f s) s)"

definition kmod :: "('s \<Rightarrow> 's) \<Rightarrow> ('s, unit) kop" where
  "kmod f = (\<lambda>s. Ok () (f s))"

definition kfail :: "fault \<Rightarrow> ('s, 'a) kop" where
  "kfail e = (\<lambda>s. Fail e)"

definition kpanic :: "string \<Rightarrow> ('s, 'a) kop" where
  "kpanic m = kfail (KPanic m)"

definition ksuspend :: "('s, 'a) kop" where
  "ksuspend = (\<lambda>s. Suspend s)"

definition kwhen :: "bool \<Rightarrow> ('s, unit) kop \<Rightarrow> ('s, unit) kop" where
  "kwhen b f = (if b then f else kret ())"

text \<open>A counted \<^verbatim>\<open>for\<close> loop over a known list of indices.\<close>

primrec kfor :: "('x \<Rightarrow> ('s, unit) kop) \<Rightarrow> 'x list \<Rightarrow> ('s, unit) kop" where
  "kfor f [] = kret ()"
| "kfor f (x # xs) = kdo (f x) (\<lambda>_. kfor f xs)"

definition runs :: "('s, 'a) kop \<Rightarrow> 's \<Rightarrow> ('a \<Rightarrow> 's \<Rightarrow> bool) \<Rightarrow> bool" where
  "runs f s Q = (case f s of Ok x s' \<Rightarrow> Q x s' | _ \<Rightarrow> False)"

lemma runs_kret [simp, run_simps]: "runs (kret x) s Q = Q x s"
  by (simp add: runs_def kret_def)

lemma runs_kdo [simp, run_simps]: "runs (kdo f g) s Q = runs f s (\<lambda>x s'. runs (g x) s' Q)"
  by (simp add: runs_def kdo_def split: outcome.splits)

lemma runs_kget [simp, run_simps]: "runs (kget f) s Q = Q (f s) s"
  by (simp add: runs_def kget_def)

lemma runs_kmod [simp, run_simps]: "runs (kmod f) s Q = Q () (f s)"
  by (simp add: runs_def kmod_def)

lemma runs_kfail [simp, run_simps]: "runs (kfail e) s Q = False"
  by (simp add: runs_def kfail_def)

lemma runs_kpanic [simp, run_simps]: "runs (kpanic m) s Q = False"
  by (simp add: kpanic_def)

lemma runs_ksuspend [simp, run_simps]: "runs ksuspend s Q = False"
  by (simp add: runs_def ksuspend_def)

lemma runs_kwhen [simp, run_simps]: "runs (kwhen b f) s Q = (if b then runs f s Q else Q () s)"
  by (simp add: kwhen_def)

lemma runs_if [run_simps]: "runs (if b then f else g) s Q = (if b then runs f s Q else runs g s Q)"
  by simp

lemma runs_iff: "runs f s Q \<longleftrightarrow> (\<exists>x s'. f s = Ok x s' \<and> Q x s')"
  by (auto simp: runs_def split: outcome.splits)

lemma runs_weaken: "runs f s P \<Longrightarrow> (\<And>x s'. P x s' \<Longrightarrow> Q x s') \<Longrightarrow> runs f s Q"
  by (auto simp: runs_iff)

lemma runs_conj: "runs f s P \<Longrightarrow> runs f s Q \<Longrightarrow> runs f s (\<lambda>x s'. P x s' \<and> Q x s')"
  by (auto simp: runs_iff)

lemma runs_OkD: "runs f s Q \<Longrightarrow> f s = Ok x s' \<Longrightarrow> Q x s'"
  by (auto simp: runs_iff)

lemma runs_OkI: "f s = Ok x s' \<Longrightarrow> Q x s' \<Longrightarrow> runs f s Q"
  by (auto simp: runs_iff)

lemma kdo_Ok [simp]: "f s = Ok x s' \<Longrightarrow> kdo f g s = g x s'"
  by (simp add: kdo_def)

lemma kdo_eq_Ok:
  "kdo f g s = Ok y t \<longleftrightarrow> (\<exists>x s'. f s = Ok x s' \<and> g x s' = Ok y t)"
  by (auto simp: kdo_def split: outcome.splits)

lemma kdo_Fail [simp]: "f s = Fail e \<Longrightarrow> kdo f g s = Fail e"
  by (simp add: kdo_def)

lemma kdo_Suspend [simp]: "f s = Suspend s' \<Longrightarrow> kdo f g s = Suspend s'"
  by (simp add: kdo_def)

lemmas kop_defs = kret_def kget_def kmod_def kfail_def kpanic_def ksuspend_def kwhen_def

text \<open>The invariant rule for \<open>kfor\<close>: \<open>I\<close> is indexed by the part of the list already done.\<close>

lemma runs_kfor:
  assumes "I [] s"
    and "\<And>ys x zs t. xs = ys @ x # zs \<Longrightarrow> I ys t \<Longrightarrow> runs (f x) t (\<lambda>_. I (ys @ [x]))"
    and "\<And>t. I xs t \<Longrightarrow> Q () t"
  shows "runs (kfor f xs) s Q"
proof -
  have "runs (kfor f zs) t Q" if "xs = ys @ zs" "I ys t" for ys zs t
    using that
  proof (induction zs arbitrary: ys t)
    case Nil
    then show ?case using assms(3) by simp
  next
    case (Cons z zs)
    from Cons.prems assms(2) have "runs (f z) t (\<lambda>_. I (ys @ [z]))"
      by blast
    then show ?case
      by (auto elim!: runs_weaken intro: Cons.IH simp: Cons.prems)
  qed
  with assms(1) show ?thesis by simp
qed

lemma runs_kfor_upt:
  assumes "m \<le> n" "I m s"
    and "\<And>i t. m \<le> i \<Longrightarrow> i < n \<Longrightarrow> I i t \<Longrightarrow> runs (f i) t (\<lambda>_. I (Suc i))"
    and "\<And>t. I n t \<Longrightarrow> Q () t"
  shows "runs (kfor f [m..<n]) s Q"
  using assms(1,2,3)
proof (induction "n - m" arbitrary: m s)
  case 0
  then show ?case using assms(4) by simp
next
  case (Suc k)
  then have "m < n" by simp
  then have u: "[m..<n] = m # [Suc m..<n]" by (rule upt_conv_Cons)
  have "runs (f m) s (\<lambda>_. I (Suc m))" using Suc.prems \<open>m < n\<close> by simp
  then show ?case unfolding u
    by (auto elim!: runs_weaken intro!: Suc.hyps(1) Suc.prems(3) simp: Suc.hyps(2) [symmetric] \<open>m < n\<close> Suc_leI)
      (use Suc.hyps(2) in simp)
qed

lemma kfor_append: "kfor f (xs @ ys) s = kdo (kfor f xs) (\<lambda>_. kfor f ys) s"
  by (induction xs arbitrary: s) (auto simp: kdo_def kret_def split: outcome.splits)

text \<open>The first index in a range with a property, which is what the table scans look for.\<close>

lemma find_upt_Some:
  "List.find P [m..<n] = Some j \<longleftrightarrow> m \<le> j \<and> j < n \<and> P j \<and> (\<forall>l. m \<le> l \<and> l < j \<longrightarrow> \<not> P l)"
proof -
  have "List.find P [m..<n] = Some j \<longleftrightarrow>
      (\<exists>i < n - m. P (m + i) \<and> j = m + i \<and> (\<forall>k < i. \<not> P (m + k)))"
    by (auto simp: find_Some_iff)
  also have "\<dots> \<longleftrightarrow> m \<le> j \<and> j < n \<and> P j \<and> (\<forall>l. m \<le> l \<and> l < j \<longrightarrow> \<not> P l)"
  proof (intro iffI; elim conjE exE)
    fix i assume i: "i < n - m" "P (m + i)" "j = m + i" "\<forall>k < i. \<not> P (m + k)"
    have "\<not> P l" if "m \<le> l" "l < j" for l using i(3,4) that by (metis le_add_diff_inverse nat_add_left_cancel_less)
    with i show "m \<le> j \<and> j < n \<and> P j \<and> (\<forall>l. m \<le> l \<and> l < j \<longrightarrow> \<not> P l)" by auto
  next
    assume "m \<le> j" "j < n" "P j" "\<forall>l. m \<le> l \<and> l < j \<longrightarrow> \<not> P l"
    then show "\<exists>i < n - m. P (m + i) \<and> j = m + i \<and> (\<forall>k < i. \<not> P (m + k))"
      by (intro exI [of _ "j - m"]) auto
  qed
  finally show ?thesis .
qed

lemma find_upt_None: "List.find P [m..<n] = None \<longleftrightarrow> (\<forall>j. m \<le> j \<and> j < n \<longrightarrow> \<not> P j)"
  by (auto simp: find_None_iff)

lemma find_SomeD: "List.find P xs = Some x \<Longrightarrow> P x \<and> x \<in> set xs"
  by (induction xs) (auto split: if_splits)

lemma find_ex: "P x \<Longrightarrow> x \<in> set xs \<Longrightarrow> \<exists>y. List.find P xs = Some y"
  by (induction xs) auto

lemma option_eqI: "(\<And>y. a = Some y \<longleftrightarrow> b = Some y) \<Longrightarrow> a = b"
  by (cases a; cases b) auto

lemma nth_list_upd: "xs[i := x] ! j = (if i = j \<and> j < length xs then x else xs ! j)"
  by (cases "i < length xs") (auto simp: nth_list_update list_update_beyond)

section \<open>Counters of type \<open>uint\<close> kept as natural numbers\<close>

definition inc32 :: "nat \<Rightarrow> nat" where
  "inc32 n = (n + 1) mod 2 ^ 32"

definition dec32 :: "nat \<Rightarrow> nat" where
  "dec32 n = (n + (2 ^ 32 - 1)) mod 2 ^ 32"

lemma inc32_small [simp]: "n + 1 < 2 ^ 32 \<Longrightarrow> inc32 n = n + 1"
  by (simp add: inc32_def)

lemma dec32_pos [simp]: "0 < n \<Longrightarrow> n < 2 ^ 32 \<Longrightarrow> dec32 n = n - 1"
  by (simp add: dec32_def mod_if)

section \<open>Byte buffers\<close>

text \<open>\<open>to_le k n\<close> are the low \<open>k\<close> bytes of \<open>n\<close>, least significant first.\<close>

primrec to_le :: "nat \<Rightarrow> nat \<Rightarrow> u8 list" where
  "to_le 0 n = []"
| "to_le (Suc k) n = word_of_nat (n mod 256) # to_le k (n div 256)"

primrec of_le :: "u8 list \<Rightarrow> nat" where
  "of_le [] = 0"
| "of_le (b # bs) = unat b + 256 * of_le bs"

lemma length_to_le [simp]: "length (to_le k n) = k"
  by (induction k arbitrary: n) auto

lemma of_le_to_le: "of_le (to_le k n) = n mod 256 ^ k"
proof (induction k arbitrary: n)
  case (Suc k)
  have "unat (word_of_nat (n mod 256) :: u8) = n mod 256"
    by (simp add: unat_of_nat)
  moreover have "n mod 256 + 256 * (n div 256 mod 256 ^ k) = n mod 256 ^ Suc k"
    by (metis mod_mult2_eq power_Suc add.commute)
  ultimately show ?case by (simp add: Suc)
qed simp

lemma of_le_to_le4 [simp]: "n < 2 ^ 32 \<Longrightarrow> of_le (to_le 4 n) = n"
  by (simp add: of_le_to_le)

lemma of_le_to_le2 [simp]: "n < 65536 \<Longrightarrow> of_le (to_le 2 n) = n"
  by (simp add: of_le_to_le)

lemma of_le_bound: "of_le bs < 256 ^ length bs"
proof (induction bs)
  case (Cons b bs)
  have "unat b < 256" using unsigned_less [of b, where ?'a = nat] by simp
  with Cons show ?case by auto
qed simp

lemma to_le_of_le: "to_le (length bs) (of_le bs) = bs"
proof (induction bs)
  case (Cons b bs)
  have "unat b < 256" using unsigned_less [of b, where ?'a = nat] by simp
  with Cons show ?case by simp
qed simp

text \<open>\<open>blit off bs d\<close>: the buffer \<open>d\<close> with the bytes \<open>bs\<close> stored from offset \<open>off\<close> on.\<close>

definition blit :: "nat \<Rightarrow> 'a list \<Rightarrow> 'a list \<Rightarrow> 'a list" where
  "blit off bs d = take off d @ bs @ drop (off + length bs) d"

definition bytes_at :: "nat \<Rightarrow> nat \<Rightarrow> 'a list \<Rightarrow> 'a list" where
  "bytes_at off n d = take n (drop off d)"

lemma length_blit [simp]: "off + length bs \<le> length d \<Longrightarrow> length (blit off bs d) = length d"
  by (simp add: blit_def)

lemma length_bytes_at [simp]: "off + n \<le> length d \<Longrightarrow> length (bytes_at off n d) = n"
  by (simp add: bytes_at_def)

lemma nth_blit:
  assumes "off + length bs \<le> length d" "i < length d"
  shows "blit off bs d ! i = (if off \<le> i \<and> i < off + length bs then bs ! (i - off) else d ! i)"
  using assms by (auto simp: blit_def nth_append min_def)

lemma nth_bytes_at: "i < n \<Longrightarrow> off + n \<le> length d \<Longrightarrow> bytes_at off n d ! i = d ! (off + i)"
  by (simp add: bytes_at_def)

lemma bytes_at_blit_same [simp]:
  "off + length bs \<le> length d \<Longrightarrow> bytes_at off (length bs) (blit off bs d) = bs"
  by (simp add: bytes_at_def blit_def)

lemma bytes_at_blit_other:
  assumes "off + length bs \<le> length d" "o2 + n \<le> length d" "o2 + n \<le> off \<or> off + length bs \<le> o2"
  shows "bytes_at o2 n (blit off bs d) = bytes_at o2 n d"
proof (rule nth_equalityI)
  show "length (bytes_at o2 n (blit off bs d)) = length (bytes_at o2 n d)"
    using assms by (simp add: bytes_at_def)
next
  fix i assume "i < length (bytes_at o2 n (blit off bs d))"
  with assms have "i < n" by (simp add: bytes_at_def)
  with assms show "bytes_at o2 n (blit off bs d) ! i = bytes_at o2 n d ! i"
    by (auto simp: nth_bytes_at nth_blit)
qed

definition get32 :: "u8 list \<Rightarrow> nat \<Rightarrow> nat" where
  "get32 d off = of_le (bytes_at off 4 d)"

definition put32 :: "u8 list \<Rightarrow> nat \<Rightarrow> nat \<Rightarrow> u8 list" where
  "put32 d off v = blit off (to_le 4 v) d"

lemma length_put32 [simp]: "off + 4 \<le> length d \<Longrightarrow> length (put32 d off v) = length d"
  by (simp add: put32_def)

lemma get32_put32_same [simp]:
  "off + 4 \<le> length d \<Longrightarrow> v < 2 ^ 32 \<Longrightarrow> get32 (put32 d off v) off = v"
  using bytes_at_blit_same [of off "to_le 4 v" d] by (simp add: get32_def put32_def)

lemma get32_put32_other [simp]:
  "off + 4 \<le> length d \<Longrightarrow> o2 + 4 \<le> length d \<Longrightarrow> o2 + 4 \<le> off \<or> off + 4 \<le> o2 \<Longrightarrow>
   get32 (put32 d off v) o2 = get32 d o2"
  by (simp add: get32_def put32_def bytes_at_blit_other)

lemma get32_bound: "get32 d off < 2 ^ 32"
proof -
  have "of_le (bytes_at off 4 d) < 256 ^ length (bytes_at off 4 d)" by (rule of_le_bound)
  also have "\<dots> \<le> 256 ^ 4" by (rule power_increasing) (auto simp: bytes_at_def)
  finally show ?thesis by (simp add: get32_def)
qed

end
