(* ===== verification/Spinlock.thy ===== *)
theory Spinlock
  imports Prelude
begin

text \<open>
  Mutual exclusion: \<^verbatim>\<open>src/kern/locking/spinlock.c\<close>, \<^verbatim>\<open>src/include/xv6/spinlock.h\<close>, the per-CPU
  part of \<^verbatim>\<open>src/include/xv6/proc.h\<close> and \<^verbatim>\<open>mycpu\<close>/\<^verbatim>\<open>cpuid\<close> of \<^verbatim>\<open>src/kern/sched/proc.cc\<close>.

  The state \<open>smp\<close> is the part of the machine spinlocks touch: the \<open>cpus\<close> array, the interrupt
  flag and the APIC id of each hardware CPU, and the locks. An operation takes the number of
  the CPU that executes it. \<open>acquire\<close> is split at its atomic instructions
  (\<open>acquire_enter\<close>, \<open>acquire_xchg\<close>, \<open>acquire_record\<close>; \<open>release_enter\<close>, \<open>release_clear\<close>), which the
  step relation \<open>lock_step\<close> interleaves over all CPUs; \<open>acquire\<close> and \<open>release\<close> are the
  compositions one CPU runs when no other CPU interferes.

  \<open>klock\<close> is the view the rest of the kernel model has of this layer: the list of spinlocks the
  running kernel thread holds. The locale \<open>lock_discipline\<close> states what both promise; it is
  interpreted on the detailed operations and on the view.
\<close>

section \<open>Locks, CPUs and the machine\<close>

text \<open>The spinlocks of the kernel, named by the object they sit in.\<close>

datatype slockid = SBuf nat | SInode nat

datatype lockid = L_ptable | L_ftable | L_icache | L_bcache | L_log | L_ide | L_cons
  | L_buddy | L_pipe nat | L_sleep slockid

definition NCPU :: nat where [const_defs]: "NCPU = 8"
definition KERNBASE :: u32 where [const_defs]: "KERNBASE = 0x80000000"

record spin_t =
  lk_locked :: u32
  lk_name :: string
  lk_cpu :: "nat option"
  lk_pcs :: "u32 list"

record cpu_t =
  apicid :: u8
  ncli :: int
  intena :: bool

record smp =
  cpus :: "cpu_t list"
  eIF :: "nat \<Rightarrow> bool"
  lapicid :: "nat \<Rightarrow> u8"
  spin :: "lockid \<Rightarrow> spin_t"
  rdmem :: "u32 \<Rightarrow> u32"
  frame :: "nat \<Rightarrow> u32"

section \<open>The operations\<close>

text \<open>\<^verbatim>\<open>mycpu()\<close>: the entry of \<open>cpus\<close> whose APIC id is that of the executing CPU.\<close>

fun find_cpu :: "u8 \<Rightarrow> nat \<Rightarrow> cpu_t list \<Rightarrow> nat option" where
  "find_cpu a i [] = None"
| "find_cpu a i (p # ps) = (if apicid p = a then Some i else find_cpu a (Suc i) ps)"

definition mycpu :: "nat \<Rightarrow> (smp, nat) kop" where
  "mycpu c = (\<lambda>s. if eIF s c then Fail (KPanic ''mycpu called with interrupts enabled'')
     else case find_cpu (lapicid s c) 0 (cpus s) of
       None \<Rightarrow> Fail (KPanic ''unknown apicid'') | Some i \<Rightarrow> Ok i s)"

definition cpuid :: "nat \<Rightarrow> (smp, nat) kop" where
  "cpuid c = mycpu c"

definition cli :: "nat \<Rightarrow> (smp, unit) kop" where
  "cli c = kmod (\<lambda>s. s\<lparr>eIF := (eIF s)(c := False)\<rparr>)"

definition sti :: "nat \<Rightarrow> (smp, unit) kop" where
  "sti c = kmod (\<lambda>s. s\<lparr>eIF := (eIF s)(c := True)\<rparr>)"

definition upd_cpu :: "nat \<Rightarrow> (cpu_t \<Rightarrow> cpu_t) \<Rightarrow> smp \<Rightarrow> smp" where
  "upd_cpu i f s = s\<lparr>cpus := (cpus s)[i := f (cpus s ! i)]\<rparr>"

definition upd_spin :: "lockid \<Rightarrow> (spin_t \<Rightarrow> spin_t) \<Rightarrow> smp \<Rightarrow> smp" where
  "upd_spin lk f s = s\<lparr>spin := (spin s)(lk := f (spin s lk))\<rparr>"

definition pushcli :: "nat \<Rightarrow> (smp, unit) kop" where
  "pushcli c =
     kdo (kget (\<lambda>s. eIF s c)) (\<lambda>eflags.
     kdo (cli c) (\<lambda>_.
     kdo (mycpu c) (\<lambda>i.
     kdo (kget (\<lambda>s. ncli (cpus s ! i))) (\<lambda>n.
     kdo (kwhen (n = 0) (kmod (upd_cpu i (\<lambda>p. p\<lparr>intena := eflags\<rparr>)))) (\<lambda>_.
     kmod (upd_cpu i (\<lambda>p. p\<lparr>ncli := ncli p + 1\<rparr>)))))))"

definition popcli :: "nat \<Rightarrow> (smp, unit) kop" where
  "popcli c =
     kdo (kget (\<lambda>s. eIF s c)) (\<lambda>eflags.
     if eflags then kpanic ''popcli - interruptible''
     else
       kdo (mycpu c) (\<lambda>i.
       kdo (kmod (upd_cpu i (\<lambda>p. p\<lparr>ncli := ncli p - 1\<rparr>))) (\<lambda>_.
       kdo (kget (\<lambda>s. cpus s ! i)) (\<lambda>p.
       if ncli p < 0 then kpanic ''popcli''
       else kwhen (ncli p = 0 \<and> intena p) (sti c)))))"

definition holding :: "nat \<Rightarrow> lockid \<Rightarrow> (smp, bool) kop" where
  "holding c lk =
     kdo (pushcli c) (\<lambda>_.
     kdo (kget (\<lambda>s. lk_locked (spin s lk))) (\<lambda>l.
     kdo (mycpu c) (\<lambda>i.
     kdo (kget (\<lambda>s. l \<noteq> 0 \<and> lk_cpu (spin s lk) = Some i)) (\<lambda>r.
     kdo (popcli c) (\<lambda>_. kret r)))))"

definition initlock :: "lockid \<Rightarrow> string \<Rightarrow> (smp, unit) kop" where
  "initlock lk name =
     kmod (upd_spin lk (\<lambda>l. l\<lparr>lk_name := name, lk_locked := 0, lk_cpu := None\<rparr>))"

text \<open>\<^verbatim>\<open>getcallerpcs\<close> walks the saved frame pointers: at most ten return addresses, zero-filled.\<close>

primrec callerpcs :: "(u32 \<Rightarrow> u32) \<Rightarrow> nat \<Rightarrow> u32 \<Rightarrow> u32 list" where
  "callerpcs rd 0 ebp = []"
| "callerpcs rd (Suc n) ebp =
     (if ebp = 0 \<or> ebp < KERNBASE \<or> ebp = 0xffffffff then replicate (Suc n) 0
      else rd (ebp + 4) # callerpcs rd n (rd ebp))"

definition getcallerpcs :: "(u32 \<Rightarrow> u32) \<Rightarrow> u32 \<Rightarrow> u32 list" where
  "getcallerpcs rd v = callerpcs rd 10 (v - 8)"

text \<open>\<^verbatim>\<open>acquire\<close>, cut at the atomic exchange it spins on.\<close>

definition acquire_enter :: "nat \<Rightarrow> lockid \<Rightarrow> (smp, unit) kop" where
  "acquire_enter c lk =
     kdo (pushcli c) (\<lambda>_.
     kdo (holding c lk) (\<lambda>h.
     if h then kpanic ''acquire'' else kret ()))"

definition acquire_xchg :: "lockid \<Rightarrow> (smp, u32) kop" where
  "acquire_xchg lk =
     kdo (kget (\<lambda>s. lk_locked (spin s lk))) (\<lambda>old.
     kdo (kmod (upd_spin lk (\<lambda>l. l\<lparr>lk_locked := 1\<rparr>))) (\<lambda>_. kret old))"

definition acquire_record :: "nat \<Rightarrow> lockid \<Rightarrow> (smp, unit) kop" where
  "acquire_record c lk =
     kdo (mycpu c) (\<lambda>i.
     kdo (kmod (upd_spin lk (\<lambda>l. l\<lparr>lk_cpu := Some i\<rparr>))) (\<lambda>_.
     kmod (\<lambda>s. upd_spin lk (\<lambda>l. l\<lparr>lk_pcs := getcallerpcs (rdmem s) (frame s c)\<rparr>) s)))"

text \<open>With every other CPU standing still, an exchange that finds the lock taken finds it taken
  for ever.\<close>

definition acquire :: "nat \<Rightarrow> lockid \<Rightarrow> (smp, unit) kop" where
  "acquire c lk =
     kdo (acquire_enter c lk) (\<lambda>_.
     kdo (acquire_xchg lk) (\<lambda>old.
     if old \<noteq> 0 then kfail Diverge else acquire_record c lk))"

definition release_enter :: "nat \<Rightarrow> lockid \<Rightarrow> (smp, unit) kop" where
  "release_enter c lk =
     kdo (holding c lk) (\<lambda>h.
     if \<not> h then kpanic ''release''
     else kmod (upd_spin lk (\<lambda>l. l\<lparr>lk_pcs := (lk_pcs l)[0 := 0], lk_cpu := None\<rparr>)))"

definition release_clear :: "nat \<Rightarrow> lockid \<Rightarrow> (smp, unit) kop" where
  "release_clear c lk =
     kdo (kmod (upd_spin lk (\<lambda>l. l\<lparr>lk_locked := 0\<rparr>))) (\<lambda>_. popcli c)"

definition release :: "nat \<Rightarrow> lockid \<Rightarrow> (smp, unit) kop" where
  "release c lk = kdo (release_enter c lk) (\<lambda>_. release_clear c lk)"

section \<open>Executing on a well-formed machine\<close>

definition smp_wf :: "smp \<Rightarrow> bool" where
  "smp_wf s \<longleftrightarrow> distinct (map apicid (cpus s)) \<and>
     (\<forall>c < length (cpus s). lapicid s c = apicid (cpus s ! c))"

lemma find_cpu_nth:
  assumes "distinct (map apicid ps)" "j < length ps"
  shows "find_cpu (apicid (ps ! j)) i ps = Some (i + j)"
  using assms
proof (induction ps arbitrary: i j)
  case (Cons p ps)
  show ?case
  proof (cases j)
    case (Suc k)
    with Cons.prems have "apicid (ps ! k) \<in> apicid ` set ps" by simp
    with Cons.prems Suc have "apicid p \<noteq> apicid (ps ! k)" by auto
    with Cons Suc show ?thesis by simp
  qed simp
qed simp

lemma mycpu_wf [simp]:
  "smp_wf s \<Longrightarrow> c < length (cpus s) \<Longrightarrow> \<not> eIF s c \<Longrightarrow> mycpu c s = Ok c s"
  using find_cpu_nth [of "cpus s" c 0] by (auto simp: mycpu_def smp_wf_def)

lemma smp_wf_upd_cpu [simp]:
  assumes "\<And>p. apicid (f p) = apicid p" "i < length (cpus s)"
  shows "smp_wf (upd_cpu i f s) = smp_wf s"
proof -
  have "map apicid ((cpus s)[i := f (cpus s ! i)]) = map apicid (cpus s)"
    using assms by (auto simp: map_update list_update_same_conv)
  moreover have "\<forall>c < length (cpus s). apicid ((cpus s)[i := f (cpus s ! i)] ! c) = apicid (cpus s ! c)"
    using assms by (auto simp: nth_list_update)
  ultimately show ?thesis by (auto simp: smp_wf_def upd_cpu_def)
qed

lemma smp_wf_upd_spin [simp]: "smp_wf (upd_spin lk f s) = smp_wf s"
  by (simp add: smp_wf_def upd_spin_def)

lemma smp_wf_eIF [simp]: "smp_wf (s\<lparr>eIF := e\<rparr>) = smp_wf s"
  by (simp add: smp_wf_def)

text \<open>The state after \<^verbatim>\<open>pushcli()\<close> and after \<^verbatim>\<open>popcli()\<close> on CPU \<open>c\<close>.\<close>

definition pushed :: "nat \<Rightarrow> smp \<Rightarrow> smp" where
  "pushed c s = upd_cpu c (\<lambda>p. p\<lparr>intena := (if ncli p = 0 then eIF s c else intena p),
     ncli := ncli p + 1\<rparr>) (s\<lparr>eIF := (eIF s)(c := False)\<rparr>)"

definition popped :: "nat \<Rightarrow> smp \<Rightarrow> smp" where
  "popped c s = upd_cpu c (\<lambda>p. p\<lparr>ncli := ncli p - 1\<rparr>)
     (s\<lparr>eIF := (eIF s)(c := ncli (cpus s ! c) = 1 \<and> intena (cpus s ! c))\<rparr>)"

lemma pushcli_wf:
  assumes "smp_wf s" "c < length (cpus s)"
  shows "pushcli c s = Ok () (pushed c s)"
  using assms
  by (auto simp: pushcli_def kdo_def kop_defs cli_def pushed_def upd_cpu_def intro!: arg_cong2 [where f = Ok])

lemma popcli_wf:
  assumes "smp_wf s" "c < length (cpus s)" "\<not> eIF s c" "0 < ncli (cpus s ! c)"
  shows "popcli c s = Ok () (popped c s)"
proof -
  have eq: "(eIF s)(c := False) = eIF s" using assms(3) by (simp add: fun_eq_iff)
  show ?thesis using assms
    by (auto simp: popcli_def kdo_def kop_defs sti_def popped_def upd_cpu_def eq)
qed

lemma popcli_unbalanced:
  assumes "smp_wf s" "c < length (cpus s)" "\<not> eIF s c" "ncli (cpus s ! c) \<le> 0"
  shows "popcli c s = Fail (KPanic ''popcli'')"
  using assms by (auto simp: popcli_def kdo_def kop_defs upd_cpu_def)

lemma upd_cpu_simps [simp]:
  "length (cpus (upd_cpu i f s)) = length (cpus s)"
  "eIF (upd_cpu i f s) = eIF s" "spin (upd_cpu i f s) = spin s"
  "i < length (cpus s) \<Longrightarrow> cpus (upd_cpu i f s) ! j = (if j = i then f (cpus s ! i) else cpus s ! j)"
  by (auto simp: upd_cpu_def nth_list_update)

lemma upd_spin_simps [simp]:
  "cpus (upd_spin lk f s) = cpus s" "eIF (upd_spin lk f s) = eIF s"
  "spin (upd_spin lk f s) = (spin s)(lk := f (spin s lk))"
  by (auto simp: upd_spin_def)

lemma pushed_simps [simp]:
  "length (cpus (pushed c s)) = length (cpus s)"
  "eIF (pushed c s) = (eIF s)(c := False)" "spin (pushed c s) = spin s"
  "c < length (cpus s) \<Longrightarrow> smp_wf (pushed c s) = smp_wf s"
  "c < length (cpus s) \<Longrightarrow> ncli (cpus (pushed c s) ! d) = ncli (cpus s ! d) + (if d = c then 1 else 0)"
  by (auto simp: pushed_def)

lemma popped_simps [simp]:
  "length (cpus (popped c s)) = length (cpus s)"
  "eIF (popped c s) = (eIF s)(c := ncli (cpus s ! c) = 1 \<and> intena (cpus s ! c))"
  "spin (popped c s) = spin s"
  "c < length (cpus s) \<Longrightarrow> smp_wf (popped c s) = smp_wf s"
  "c < length (cpus s) \<Longrightarrow> ncli (cpus (popped c s) ! d) = ncli (cpus s ! d) - (if d = c then 1 else 0)"
  by (auto simp: popped_def)

text \<open>\<open>cpu_ok\<close>: interrupts are on only where no \<^verbatim>\<open>pushcli\<close> is pending.\<close>

definition cpu_ok :: "nat \<Rightarrow> smp \<Rightarrow> bool" where
  "cpu_ok c s \<longleftrightarrow> smp_wf s \<and> c < length (cpus s) \<and> 0 \<le> ncli (cpus s ! c) \<and>
     (ncli (cpus s ! c) = 0 \<or> \<not> eIF s c)"

text \<open>A matched pair leaves the CPU and the locks as they were.\<close>

lemma push_pop:
  assumes "cpu_ok c s"
  defines "t \<equiv> popped c (pushed c s)"
  shows "eIF t = eIF s" "spin t = spin s" "length (cpus t) = length (cpus s)" "smp_wf t"
    "ncli (cpus t ! d) = ncli (cpus s ! d)" "cpu_ok c t"
    "ncli (cpus s ! d) \<noteq> 0 \<Longrightarrow> intena (cpus t ! d) = intena (cpus s ! d)"
proof -
  have "intena (cpus (pushed c s) ! c) = (if ncli (cpus s ! c) = 0 then eIF s c else intena (cpus s ! c))"
    using assms by (simp add: pushed_def cpu_ok_def)
  with assms show *: "eIF t = eIF s" by (auto simp: t_def cpu_ok_def fun_eq_iff)
  show "spin t = spin s" "length (cpus t) = length (cpus s)" "smp_wf t"
    "ncli (cpus t ! d) = ncli (cpus s ! d)"
    using assms by (auto simp: t_def cpu_ok_def)
  with * assms show "cpu_ok c t" by (auto simp: t_def cpu_ok_def)
  show "intena (cpus t ! d) = intena (cpus s ! d)" if "ncli (cpus s ! d) \<noteq> 0"
    using assms that by (auto simp: t_def popped_def pushed_def cpu_ok_def)
qed

section \<open>What each operation does on such a CPU\<close>

text \<open>The locks CPU \<open>c\<close> is recorded as holding, which is what \<^verbatim>\<open>holding()\<close> tests.\<close>

definition lks :: "nat \<Rightarrow> smp \<Rightarrow> lockid set" where
  "lks c s = {lk. lk_locked (spin s lk) \<noteq> 0 \<and> lk_cpu (spin s lk) = Some c}"

text \<open>\<open>same_smp s t\<close>: the parts the locking protocol reads are the same in both states.\<close>

definition same_smp :: "smp \<Rightarrow> smp \<Rightarrow> bool" where
  "same_smp s t \<longleftrightarrow> eIF t = eIF s \<and> spin t = spin s \<and> length (cpus t) = length (cpus s) \<and>
     smp_wf t = smp_wf s \<and> (\<forall>d. ncli (cpus t ! d) = ncli (cpus s ! d)) \<and>
     (\<forall>d. ncli (cpus s ! d) \<noteq> 0 \<longrightarrow> intena (cpus t ! d) = intena (cpus s ! d))"

lemma holding_runs:
  assumes "cpu_ok c s"
  shows "runs (holding c lk) s (\<lambda>r t. r = (lk \<in> lks c s) \<and> same_smp s t)"
proof -
  from assms have "smp_wf s" "c < length (cpus s)" by (auto simp: cpu_ok_def)
  moreover have "popcli c (pushed c s) = Ok () (popped c (pushed c s))"
    using assms by (intro popcli_wf) (auto simp: cpu_ok_def)
  ultimately have "holding c lk s = Ok (lk \<in> lks c s) (popped c (pushed c s))"
    by (simp add: holding_def kop_defs kdo_def pushcli_wf lks_def)
  with push_pop [OF assms] assms show ?thesis
    by (auto simp: runs_iff same_smp_def cpu_ok_def)
qed

lemma acquire_enter_runs:
  assumes "cpu_ok c s" "lk \<notin> lks c s"
  shows "runs (acquire_enter c lk) s (\<lambda>_ t. same_smp (pushed c s) t)"
proof -
  from assms have wf: "smp_wf s" "c < length (cpus s)" by (auto simp: cpu_ok_def)
  have ok: "cpu_ok c (pushed c s)" using assms by (auto simp: cpu_ok_def)
  have "lks c (pushed c s) = lks c s" by (simp add: lks_def)
  with holding_runs [OF ok, of lk] assms(2) have
    "runs (holding c lk) (pushed c s) (\<lambda>r t. \<not> r \<and> same_smp (pushed c s) t)" by simp
  then show ?thesis
    by (auto simp: acquire_enter_def runs_iff kdo_def kret_def pushcli_wf [OF wf])
qed

lemma acquire_enter_held:
  assumes "cpu_ok c s" "lk \<in> lks c s"
  shows "acquire_enter c lk s = Fail (KPanic ''acquire'')"
proof -
  from assms have wf: "smp_wf s" "c < length (cpus s)" by (auto simp: cpu_ok_def)
  have ok: "cpu_ok c (pushed c s)" using assms by (auto simp: cpu_ok_def)
  have "lks c (pushed c s) = lks c s" by (simp add: lks_def)
  with holding_runs [OF ok, of lk] assms(2) show ?thesis
    by (auto simp: acquire_enter_def runs_iff kdo_def kop_defs pushcli_wf [OF wf])
qed

lemma release_enter_runs:
  assumes "cpu_ok c s" "lk \<in> lks c s"
  shows "runs (release_enter c lk) s (\<lambda>_ t. \<exists>s'. same_smp s s' \<and>
    t = upd_spin lk (\<lambda>l. l\<lparr>lk_pcs := (lk_pcs l)[0 := 0], lk_cpu := None\<rparr>) s')"
  using holding_runs [OF assms(1), of lk] assms(2)
  by (auto simp: release_enter_def runs_iff kdo_def kop_defs)

lemma release_enter_not_held:
  assumes "cpu_ok c s" "lk \<notin> lks c s"
  shows "release_enter c lk s = Fail (KPanic ''release'')"
  using holding_runs [OF assms(1), of lk] assms(2)
  by (auto simp: release_enter_def runs_iff kdo_def kop_defs)

lemma release_clear_runs:
  assumes "cpu_ok c s" "0 < ncli (cpus s ! c)"
  shows "release_clear c lk s = Ok () (popped c (upd_spin lk (\<lambda>l. l\<lparr>lk_locked := 0\<rparr>) s))"
  using assms popcli_wf [of "upd_spin lk (\<lambda>l. l\<lparr>lk_locked := 0\<rparr>) s" c]
  by (simp add: release_clear_def kdo_def kop_defs cpu_ok_def)

lemma acquire_record_runs:
  assumes "cpu_ok c s" "0 < ncli (cpus s ! c)"
  shows "runs (acquire_record c lk) s (\<lambda>_ t. \<exists>ps.
    t = upd_spin lk (\<lambda>l. l\<lparr>lk_cpu := Some c, lk_pcs := ps\<rparr>) s)"
  using assms
  by (auto simp: acquire_record_def runs_iff kdo_def kop_defs cpu_ok_def upd_spin_def)

section \<open>The locking discipline as an interface\<close>

text \<open>
  What a client may rely on: \<open>hs s\<close> is the set of locks it holds. Acquiring a free lock adds it,
  acquiring a held one panics, releasing removes a held lock and panics otherwise.
\<close>

locale lock_discipline =
  fixes acq :: "lockid \<Rightarrow> ('s, unit) kop"
    and rel :: "lockid \<Rightarrow> ('s, unit) kop"
    and hs :: "'s \<Rightarrow> lockid set"
    and inv :: "'s \<Rightarrow> bool"
    and free :: "lockid \<Rightarrow> 's \<Rightarrow> bool"
  assumes acq_free: "inv s \<Longrightarrow> lk \<notin> hs s \<Longrightarrow> free lk s \<Longrightarrow>
      runs (acq lk) s (\<lambda>_ t. inv t \<and> hs t = insert lk (hs s))"
    and acq_held: "inv s \<Longrightarrow> lk \<in> hs s \<Longrightarrow> acq lk s = Fail (KPanic ''acquire'')"
    and rel_held: "inv s \<Longrightarrow> lk \<in> hs s \<Longrightarrow> runs (rel lk) s (\<lambda>_ t. inv t \<and> hs t = hs s - {lk})"
    and rel_not_held: "inv s \<Longrightarrow> lk \<notin> hs s \<Longrightarrow> rel lk s = Fail (KPanic ''release'')"
begin

text \<open>A critical section whose body leaves the locks alone leaves the locks alone.\<close>

lemma critical_section:
  assumes "inv s" "lk \<notin> hs s" "free lk s"
    and body: "\<And>t. inv t \<Longrightarrow> hs t = insert lk (hs s) \<Longrightarrow> runs f t (\<lambda>x u. inv u \<and> hs u = hs t)"
  shows "runs (kdo (acq lk) (\<lambda>_. kdo f (\<lambda>x. kdo (rel lk) (\<lambda>_. kret x)))) s
    (\<lambda>_ u. inv u \<and> hs u = hs s)"
proof -
  have "runs (kdo f (\<lambda>x. kdo (rel lk) (\<lambda>_. kret x))) t (\<lambda>_ u. inv u \<and> hs u = hs s)"
    if "inv t" "hs t = insert lk (hs s)" for t
  proof -
    have "runs (rel lk) u (\<lambda>_ v. inv v \<and> hs v = hs s)" if "inv u" "hs u = insert lk (hs s)" for u
      using rel_held [of u lk] that assms(2) by (auto elim!: runs_weaken)
    with body [OF that] that show ?thesis by (auto elim!: runs_weaken)
  qed
  with acq_free [OF assms(1,2,3)] show ?thesis by (auto elim!: runs_weaken)
qed

lemma self_deadlock:
  assumes "inv s" "lk \<notin> hs s" "free lk s"
  shows "kdo (acq lk) (\<lambda>_. acq lk) s = Fail (KPanic ''acquire'')"
  using acq_free [OF assms] acq_held by (auto simp: runs_iff kdo_def)

end

text \<open>First instance: the operations of \<^verbatim>\<open>spinlock.c\<close> on one CPU.\<close>

definition lk_inv :: "nat \<Rightarrow> smp \<Rightarrow> bool" where
  "lk_inv c s \<longleftrightarrow> cpu_ok c s \<and> finite (lks c s) \<and> ncli (cpus s ! c) = int (card (lks c s))"

definition lk_free :: "lockid \<Rightarrow> smp \<Rightarrow> bool" where
  "lk_free lk s \<longleftrightarrow> lk_locked (spin s lk) = 0"

lemma acquire_runs:
  assumes "lk_inv c s" "lk \<notin> lks c s" "lk_free lk s"
  shows "runs (acquire c lk) s (\<lambda>_ t. lk_inv c t \<and> lks c t = insert lk (lks c s))"
proof -
  have ok: "cpu_ok c s" using assms(1) by (simp add: lk_inv_def)
  from acquire_enter_runs [OF ok assms(2)] obtain s1
    where s1: "acquire_enter c lk s = Ok () s1" "same_smp (pushed c s) s1" by (auto simp: runs_iff)
  define s2 where "s2 = upd_spin lk (\<lambda>l. l\<lparr>lk_locked := 1\<rparr>) s1"
  have "acquire_xchg lk s1 = Ok 0 s2" using s1(2) assms(3)
    by (simp add: acquire_xchg_def kdo_def kop_defs same_smp_def lk_free_def s2_def)
  moreover have ok2: "cpu_ok c s2" "0 < ncli (cpus s2 ! c)"
    using ok s1(2) by (auto simp: cpu_ok_def same_smp_def s2_def)
  moreover obtain ps where "acquire_record c lk s2 =
      Ok () (upd_spin lk (\<lambda>l. l\<lparr>lk_cpu := Some c, lk_pcs := ps\<rparr>) s2)"
    using acquire_record_runs [OF ok2, of lk] by (auto simp: runs_iff)
  ultimately have "acquire c lk s = Ok () (upd_spin lk (\<lambda>l. l\<lparr>lk_cpu := Some c, lk_pcs := ps\<rparr>) s2)"
    using s1(1) by (simp add: acquire_def kdo_def)
  moreover have "lks c (upd_spin lk (\<lambda>l. l\<lparr>lk_cpu := Some c, lk_pcs := ps\<rparr>) s2) = insert lk (lks c s)"
    using s1(2) by (auto simp: lks_def s2_def same_smp_def)
  ultimately show ?thesis using assms(1,2) ok2 ok s1(2)
    by (auto simp: runs_iff lk_inv_def cpu_ok_def s2_def same_smp_def)
qed

lemma acquire_held: "lk_inv c s \<Longrightarrow> lk \<in> lks c s \<Longrightarrow> acquire c lk s = Fail (KPanic ''acquire'')"
  by (simp add: acquire_def acquire_enter_held lk_inv_def)

lemma release_runs:
  assumes "lk_inv c s" "lk \<in> lks c s"
  shows "runs (release c lk) s (\<lambda>_ t. lk_inv c t \<and> lks c t = lks c s - {lk})"
proof -
  have ok: "cpu_ok c s" using assms(1) by (simp add: lk_inv_def)
  from release_enter_runs [OF ok assms(2)] obtain s' where s': "same_smp s s'"
    "release_enter c lk s =
      Ok () (upd_spin lk (\<lambda>l. l\<lparr>lk_pcs := (lk_pcs l)[0 := 0], lk_cpu := None\<rparr>) s')" (is "_ = Ok () ?u")
    by (auto simp: runs_iff)
  have "0 < card (lks c s)" using assms by (auto simp: card_gt_0_iff lk_inv_def)
  with assms s'(1) have ok2: "cpu_ok c ?u" "0 < ncli (cpus ?u ! c)"
    by (auto simp: cpu_ok_def same_smp_def lk_inv_def)
  from release_clear_runs [OF this, of lk] s'(2)
  have "release c lk s = Ok () (popped c (upd_spin lk (\<lambda>l. l\<lparr>lk_locked := 0\<rparr>) ?u))" (is "_ = Ok () ?t")
    by (simp add: release_def kdo_def)
  moreover have "lks c ?t = lks c s - {lk}" using s'(1) by (auto simp: lks_def same_smp_def)
  moreover have "ncli (cpus ?t ! c) = int (card (lks c s)) - 1"
    using assms s'(1) ok by (simp add: same_smp_def lk_inv_def cpu_ok_def)
  moreover have "cpu_ok c ?t" using ok2 \<open>0 < card (lks c s)\<close> s'(1) assms
    by (auto simp: cpu_ok_def same_smp_def lk_inv_def)
  ultimately show ?thesis using assms \<open>0 < card (lks c s)\<close>
    by (auto simp: runs_iff lk_inv_def)
qed

lemma release_not_held: "lk_inv c s \<Longrightarrow> lk \<notin> lks c s \<Longrightarrow> release c lk s = Fail (KPanic ''release'')"
  by (simp add: release_def release_enter_not_held lk_inv_def)

interpretation cpu_locks: lock_discipline "acquire c" "release c" "lks c" "lk_inv c" lk_free for c
  by unfold_locales (simp_all add: acquire_runs acquire_held release_runs release_not_held)

text \<open>
  Second instance: the view of the rest of the kernel. \<open>held\<close> are the spinlocks the running
  kernel thread holds, the most recently acquired first. A lock another CPU holds only delays
  the thread, so it does not show here.
\<close>

record klock =
  held :: "lockid list"

lemma held_update_id [simp]: "held s = hs \<Longrightarrow> s\<lparr>held := hs\<rparr> = s"
  by simp

definition acquire_lk :: "lockid \<Rightarrow> ('x klock_scheme, unit) kop" where
  "acquire_lk lk = (\<lambda>s. if lk \<in> set (held s) then Fail (KPanic ''acquire'')
     else Ok () (s\<lparr>held := lk # held s\<rparr>))"

definition release_lk :: "lockid \<Rightarrow> ('x klock_scheme, unit) kop" where
  "release_lk lk = (\<lambda>s. if lk \<notin> set (held s) then Fail (KPanic ''release'')
     else Ok () (s\<lparr>held := remove1 lk (held s)\<rparr>))"

lemma runs_acquire_lk [simp, run_simps]:
  "runs (acquire_lk lk) s Q \<longleftrightarrow> lk \<notin> set (held s) \<and> Q () (s\<lparr>held := lk # held s\<rparr>)"
  by (simp add: runs_def acquire_lk_def)

lemma runs_release_lk [simp, run_simps]:
  "runs (release_lk lk) s Q \<longleftrightarrow> lk \<in> set (held s) \<and> Q () (s\<lparr>held := remove1 lk (held s)\<rparr>)"
  by (simp add: runs_def release_lk_def)

interpretation thread_locks: lock_discipline acquire_lk release_lk "\<lambda>s. set (held s)"
    "\<lambda>s. distinct (held s)" "\<lambda>_ _. True"
  by unfold_locales (auto simp: acquire_lk_def release_lk_def runs_def)

section \<open>All CPUs at once\<close>

text \<open>
  \<open>pos c\<close> is where CPU \<open>c\<close> is: outside the locking code, spinning, between the exchange and
  the store to \<^verbatim>\<open>lk->cpu\<close>, or between clearing \<^verbatim>\<open>lk->cpu\<close> and clearing \<^verbatim>\<open>lk->locked\<close>.
  \<open>crit c\<close> are the locks whose critical sections it is in. A step is one CPU executing one of
  the pieces above; the other memory accesses of a piece concern only its own \<open>cpu_t\<close>, or are
  reads whose outcome no other CPU can change. While it holds nothing, a CPU may also turn
  interrupts on or off.
\<close>

datatype lpos = Out | Spinning lockid | Got lockid | Leaving lockid

record mx =
  mach :: smp
  pos :: "nat \<Rightarrow> lpos"
  crit :: "nat \<Rightarrow> lockid set"

inductive lock_step :: "mx \<Rightarrow> mx \<Rightarrow> bool" where
  enter: "c < length (cpus (mach m)) \<Longrightarrow> pos m c = Out \<Longrightarrow>
    acquire_enter c lk (mach m) = Ok () t \<Longrightarrow>
    lock_step m (m\<lparr>mach := t, pos := (pos m)(c := Spinning lk)\<rparr>)"
| spin: "pos m c = Spinning lk \<Longrightarrow> acquire_xchg lk (mach m) = Ok old t \<Longrightarrow> old \<noteq> 0 \<Longrightarrow>
    lock_step m (m\<lparr>mach := t\<rparr>)"
| grab: "pos m c = Spinning lk \<Longrightarrow> acquire_xchg lk (mach m) = Ok 0 t \<Longrightarrow>
    lock_step m (m\<lparr>mach := t, pos := (pos m)(c := Got lk)\<rparr>)"
| own: "pos m c = Got lk \<Longrightarrow> acquire_record c lk (mach m) = Ok () t \<Longrightarrow>
    lock_step m (m\<lparr>mach := t, pos := (pos m)(c := Out), crit := (crit m)(c := insert lk (crit m c))\<rparr>)"
| leave: "c < length (cpus (mach m)) \<Longrightarrow> pos m c = Out \<Longrightarrow>
    release_enter c lk (mach m) = Ok () t \<Longrightarrow>
    lock_step m (m\<lparr>mach := t, pos := (pos m)(c := Leaving lk), crit := (crit m)(c := crit m c - {lk})\<rparr>)"
| clear: "pos m c = Leaving lk \<Longrightarrow> release_clear c lk (mach m) = Ok () t \<Longrightarrow>
    lock_step m (m\<lparr>mach := t, pos := (pos m)(c := Out)\<rparr>)"
| irq: "c < length (cpus (mach m)) \<Longrightarrow> pos m c = Out \<Longrightarrow> ncli (cpus (mach m) ! c) = 0 \<Longrightarrow>
    lock_step m (m\<lparr>mach := (mach m)\<lparr>eIF := (eIF (mach m))(c := b)\<rparr>\<rparr>)"

text \<open>Boot: every lock free, no CPU in the locking code.\<close>

definition mx_init :: "mx \<Rightarrow> bool" where
  "mx_init m \<longleftrightarrow> smp_wf (mach m) \<and> (\<forall>c. pos m c = Out \<and> crit m c = {}) \<and>
     (\<forall>lk. lk_locked (spin (mach m) lk) = 0 \<and> lk_cpu (spin (mach m) lk) = None) \<and>
     (\<forall>c < length (cpus (mach m)). ncli (cpus (mach m) ! c) = 0)"

inductive mx_reach :: "mx \<Rightarrow> bool" where
  boot: "mx_init m \<Longrightarrow> mx_reach m"
| step: "mx_reach m \<Longrightarrow> lock_step m m' \<Longrightarrow> mx_reach m'"

definition owns :: "mx \<Rightarrow> nat \<Rightarrow> lockid \<Rightarrow> bool" where
  "owns m c lk \<longleftrightarrow> lk \<in> crit m c \<or> pos m c = Got lk \<or> pos m c = Leaving lk"

definition depth :: "mx \<Rightarrow> nat \<Rightarrow> int" where
  "depth m c = int (card (crit m c)) + (if pos m c = Out then 0 else 1)"

definition mx_cpu :: "mx \<Rightarrow> nat \<Rightarrow> bool" where
  "mx_cpu m c \<longleftrightarrow> finite (crit m c) \<and> ncli (cpus (mach m) ! c) = depth m c \<and>
     (depth m c = 0 \<or> \<not> eIF (mach m) c)"

definition mx_inv :: "mx \<Rightarrow> bool" where
  "mx_inv m \<longleftrightarrow> smp_wf (mach m) \<and>
     (\<forall>c d lk. owns m c lk \<longrightarrow> owns m d lk \<longrightarrow> c = d) \<and>
     (\<forall>c lk. lk \<in> crit m c \<longrightarrow> pos m c \<noteq> Got lk \<and> pos m c \<noteq> Leaving lk) \<and>
     (\<forall>lk. lk_locked (spin (mach m) lk) \<noteq> 0 \<longleftrightarrow> (\<exists>c. owns m c lk)) \<and>
     (\<forall>c lk. lk_cpu (spin (mach m) lk) = Some c \<longleftrightarrow> lk \<in> crit m c) \<and>
     (\<forall>c < length (cpus (mach m)). mx_cpu m c) \<and>
     (\<forall>c. length (cpus (mach m)) \<le> c \<longrightarrow> pos m c = Out \<and> crit m c = {})"

lemma mx_inv_cpu_ok:
  assumes "mx_inv m" "c < length (cpus (mach m))"
  shows "cpu_ok c (mach m)" "lks c (mach m) = crit m c"
proof -
  show "cpu_ok c (mach m)" using assms by (auto simp: mx_inv_def mx_cpu_def cpu_ok_def depth_def)
  show "lks c (mach m) = crit m c" using assms(1) unfolding mx_inv_def lks_def owns_def by blast
qed

lemma mx_inv_busy: "mx_inv m \<Longrightarrow> pos m c \<noteq> Out \<Longrightarrow> c < length (cpus (mach m))"
  unfolding mx_inv_def by (meson not_le)

lemma mx_invI:
  assumes "smp_wf (mach m)"
    and "\<And>c d lk. owns m c lk \<Longrightarrow> owns m d lk \<Longrightarrow> c = d"
    and "\<And>c lk. lk \<in> crit m c \<Longrightarrow> pos m c \<noteq> Got lk \<and> pos m c \<noteq> Leaving lk"
    and "\<And>lk. lk_locked (spin (mach m) lk) \<noteq> 0 \<longleftrightarrow> (\<exists>c. owns m c lk)"
    and "\<And>c lk. lk_cpu (spin (mach m) lk) = Some c \<longleftrightarrow> lk \<in> crit m c"
    and "\<And>c. c < length (cpus (mach m)) \<Longrightarrow> mx_cpu m c"
    and "\<And>c. length (cpus (mach m)) \<le> c \<Longrightarrow> pos m c = Out \<and> crit m c = {}"
  shows "mx_inv m"
  unfolding mx_inv_def using assms by blast

lemma mx_invD:
  assumes "mx_inv m"
  shows mx_wf: "smp_wf (mach m)"
    and mx_uniq: "\<And>c d lk. owns m c lk \<Longrightarrow> owns m d lk \<Longrightarrow> c = d"
    and mx_excl: "\<And>c lk. lk \<in> crit m c \<Longrightarrow> pos m c \<noteq> Got lk \<and> pos m c \<noteq> Leaving lk"
    and mx_locked: "\<And>lk. lk_locked (spin (mach m) lk) \<noteq> 0 \<longleftrightarrow> (\<exists>c. owns m c lk)"
    and mx_rec: "\<And>c lk. lk_cpu (spin (mach m) lk) = Some c \<longleftrightarrow> lk \<in> crit m c"
    and mx_each: "\<And>c. c < length (cpus (mach m)) \<Longrightarrow> mx_cpu m c"
    and mx_idle: "\<And>c. length (cpus (mach m)) \<le> c \<Longrightarrow> pos m c = Out \<and> crit m c = {}"
  using assms unfolding mx_inv_def by blast+

text \<open>One lemma per kind of step.\<close>

lemma enter_inv:
  assumes inv: "mx_inv m" and c: "c < length (cpus (mach m))" and out: "pos m c = Out"
    and ex: "acquire_enter c lk (mach m) = Ok () t"
  shows "mx_inv (m\<lparr>mach := t, pos := (pos m)(c := Spinning lk)\<rparr>)" (is "mx_inv ?m")
proof -
  note ok = mx_inv_cpu_ok [OF inv c]
  have "lk \<notin> lks c (mach m)" using acquire_enter_held [OF ok(1), of lk] ex by auto
  from acquire_enter_runs [OF ok(1) this] ex have t: "same_smp (pushed c (mach m)) t"
    by (auto simp: runs_iff)
  have own: "owns ?m = owns m" using out by (auto simp: owns_def fun_eq_iff)
  show ?thesis
  proof (rule mx_invI, unfold own)
    show "mx_cpu ?m d" if "d < length (cpus (mach ?m))" for d
      using mx_each [OF inv, of d] that t c out by (auto simp: mx_cpu_def depth_def same_smp_def)
  qed (use mx_invD [OF inv] t c out in \<open>auto simp: same_smp_def\<close>)
qed

lemma xchg_inv:
  assumes inv: "mx_inv m" and p: "pos m c = Spinning lk"
    and ex: "acquire_xchg lk (mach m) = Ok old t"
  shows "old \<noteq> 0 \<Longrightarrow> mx_inv (m\<lparr>mach := t\<rparr>)"
    and "old = 0 \<Longrightarrow> mx_inv (m\<lparr>mach := t, pos := (pos m)(c := Got lk)\<rparr>)" (is "_ \<Longrightarrow> mx_inv ?m")
proof -
  have t: "t = upd_spin lk (\<lambda>l. l\<lparr>lk_locked := 1\<rparr>) (mach m)" and old: "old = lk_locked (spin (mach m) lk)"
    using ex by (auto simp: acquire_xchg_def kdo_def kop_defs)
  have c: "c < length (cpus (mach m))" using mx_inv_busy [OF inv] p by simp
  show "mx_inv (m\<lparr>mach := t\<rparr>)" if "old \<noteq> 0"
    using inv that old unfolding t mx_inv_def owns_def mx_cpu_def depth_def by simp
  show "mx_inv ?m" if "old = 0"
  proof -
    have none: "\<not> owns m d lk" for d using mx_locked [OF inv, of lk] that old by auto
    have own: "owns ?m d l = (owns m d l \<or> d = c \<and> l = lk)" for d l
      using p none by (auto simp: owns_def)
    have nc: "lk \<notin> crit m d" for d using none [of d] by (auto simp: owns_def)
    show ?thesis
    proof (rule mx_invI, unfold own)
      show "d = e" if "owns m d l \<or> d = c \<and> l = lk" "owns m e l \<or> e = c \<and> l = lk" for d e l
        using that none mx_uniq [OF inv] by blast
      show "mx_cpu ?m d" if "d < length (cpus (mach ?m))" for d
        using mx_each [OF inv, of d] that p by (cases "d = c") (auto simp: mx_cpu_def depth_def t)
      show "lk_locked (spin (mach ?m) l) \<noteq> 0 \<longleftrightarrow> (\<exists>d. owns m d l \<or> d = c \<and> l = lk)" for l
        using mx_locked [OF inv, of l] by (cases "l = lk") (auto simp: t)
      show "pos ?m d \<noteq> Got l \<and> pos ?m d \<noteq> Leaving l" if "l \<in> crit ?m d" for d l
        using that nc [of d] mx_excl [OF inv, of l d] by auto
    qed (use mx_wf [OF inv] mx_rec [OF inv] mx_idle [OF inv] c in \<open>auto simp: t\<close>)
  qed
qed

lemma own_inv:
  assumes inv: "mx_inv m" and p: "pos m c = Got lk" and ex: "acquire_record c lk (mach m) = Ok () t"
  shows "mx_inv (m\<lparr>mach := t, pos := (pos m)(c := Out), crit := (crit m)(c := insert lk (crit m c))\<rparr>)"
    (is "mx_inv ?m")
proof -
  have c: "c < length (cpus (mach m))" using mx_inv_busy [OF inv] p by simp
  have n: "0 < ncli (cpus (mach m) ! c)" using mx_each [OF inv c] p by (auto simp: mx_cpu_def depth_def)
  from acquire_record_runs [OF mx_inv_cpu_ok(1) [OF inv c] n, of lk] ex obtain ps
    where t: "t = upd_spin lk (\<lambda>l. l\<lparr>lk_cpu := Some c, lk_pcs := ps\<rparr>) (mach m)"
    by (auto simp: runs_iff)
  have own: "owns ?m = owns m" using p by (auto simp: owns_def fun_eq_iff)
  have nc: "lk \<notin> crit m d" for d
    using mx_excl [OF inv, of lk c] mx_uniq [OF inv, of d lk c] p by (auto simp: owns_def)
  show ?thesis
  proof (rule mx_invI, unfold own)
    show "mx_cpu ?m d" if "d < length (cpus (mach ?m))" for d
      using mx_each [OF inv, of d] that p nc [of c] by (auto simp: mx_cpu_def depth_def t)
    show "lk_cpu (spin (mach ?m) l) = Some d \<longleftrightarrow> l \<in> crit ?m d" for d l
      using mx_rec [OF inv, of l d] nc [of d] by (auto simp: t)
    show "lk_locked (spin (mach ?m) l) \<noteq> 0 \<longleftrightarrow> (\<exists>d. owns m d l)" for l
      using mx_locked [OF inv, of l] by (cases "l = lk") (auto simp: t)
    show "pos ?m d \<noteq> Got l \<and> pos ?m d \<noteq> Leaving l" if "l \<in> crit ?m d" for d l
      using that mx_excl [OF inv, of l d] by (auto split: if_splits)
    show "d = e" if "owns m d l" "owns m e l" for d e l using that mx_uniq [OF inv] by blast
  qed (use mx_wf [OF inv] mx_idle [OF inv] c in \<open>auto simp: t\<close>)
qed

lemma leave_inv:
  assumes inv: "mx_inv m" and c: "c < length (cpus (mach m))" and out: "pos m c = Out"
    and ex: "release_enter c lk (mach m) = Ok () t"
  shows "mx_inv (m\<lparr>mach := t, pos := (pos m)(c := Leaving lk),
    crit := (crit m)(c := crit m c - {lk})\<rparr>)" (is "mx_inv ?m")
proof -
  note ok = mx_inv_cpu_ok [OF inv c]
  have held: "lk \<in> lks c (mach m)" using release_enter_not_held [OF ok(1), of lk] ex by auto
  then have lk: "lk \<in> crit m c" using ok(2) by simp
  from release_enter_runs [OF ok(1) held] ex obtain s' where s': "same_smp (mach m) s'"
    "t = upd_spin lk (\<lambda>l. l\<lparr>lk_pcs := (lk_pcs l)[0 := 0], lk_cpu := None\<rparr>) s'"
    by (auto simp: runs_iff)
  have own: "owns ?m = owns m" using out lk by (auto simp: owns_def fun_eq_iff)
  have only: "lk \<in> crit m d \<Longrightarrow> d = c" for d
    using mx_uniq [OF inv, of d lk c] lk by (simp add: owns_def)
  have fin: "finite (crit m c)" using mx_each [OF inv c] by (simp add: mx_cpu_def)
  have card: "card (crit m c) = Suc (card (crit m c - {lk}))" by (rule card.remove [OF fin lk])
  show ?thesis
  proof (rule mx_invI, unfold own)
    show "mx_cpu ?m d" if "d < length (cpus (mach ?m))" for d
      using mx_each [OF inv, of d] that out s' card by (auto simp: mx_cpu_def depth_def same_smp_def)
    show "lk_cpu (spin (mach ?m) l) = Some d \<longleftrightarrow> l \<in> crit ?m d" for d l
      using mx_rec [OF inv, of l d] s' only [of d] by (auto simp: same_smp_def)
    show "lk_locked (spin (mach ?m) l) \<noteq> 0 \<longleftrightarrow> (\<exists>d. owns m d l)" for l
      using mx_locked [OF inv, of l] s' by (cases "l = lk") (auto simp: same_smp_def)
    show "pos ?m d \<noteq> Got l \<and> pos ?m d \<noteq> Leaving l" if "l \<in> crit ?m d" for d l
      using that mx_excl [OF inv, of l d] by (auto split: if_splits)
    show "d = e" if "owns m d l" "owns m e l" for d e l using that mx_uniq [OF inv] by blast
  qed (use mx_wf [OF inv] mx_idle [OF inv] c s' in \<open>auto simp: same_smp_def\<close>)
qed

lemma clear_inv:
  assumes inv: "mx_inv m" and p: "pos m c = Leaving lk" and ex: "release_clear c lk (mach m) = Ok () t"
  shows "mx_inv (m\<lparr>mach := t, pos := (pos m)(c := Out)\<rparr>)" (is "mx_inv ?m")
proof -
  have c: "c < length (cpus (mach m))" using mx_inv_busy [OF inv] p by simp
  note ok = mx_inv_cpu_ok [OF inv c]
  have n: "0 < ncli (cpus (mach m) ! c)" using mx_each [OF inv c] p by (auto simp: mx_cpu_def depth_def)
  have t: "t = popped c (upd_spin lk (\<lambda>l. l\<lparr>lk_locked := 0\<rparr>) (mach m))"
    using release_clear_runs [OF ok(1) n, of lk] ex by simp
  have lkc: "owns m c lk" using p by (simp add: owns_def)
  have nc: "lk \<notin> crit m d" for d
    using mx_excl [OF inv, of lk c] mx_uniq [OF inv, of d lk c] p by (auto simp: owns_def)
  have own: "owns ?m d l = (owns m d l \<and> l \<noteq> lk)" for d l
  proof (cases "d = c")
    case True
    with p nc [of c] show ?thesis by (auto simp: owns_def)
  next
    case False
    then have "owns ?m d l = owns m d l" by (simp add: owns_def)
    with False mx_uniq [OF inv _ lkc, of d] show ?thesis by auto
  qed
  show ?thesis
  proof (rule mx_invI, unfold own)
    show "mx_cpu ?m d" if "d < length (cpus (mach ?m))" for d
      using mx_each [OF inv, of d] that p c by (auto simp: mx_cpu_def depth_def t)
    show "lk_cpu (spin (mach ?m) l) = Some d \<longleftrightarrow> l \<in> crit ?m d" for d l
      using mx_rec [OF inv, of l d] by (cases "l = lk") (auto simp: t)
    show "lk_locked (spin (mach ?m) l) \<noteq> 0 \<longleftrightarrow> (\<exists>d. owns m d l \<and> l \<noteq> lk)" for l
      using mx_locked [OF inv, of l] by (cases "l = lk") (auto simp: t)
    show "pos ?m d \<noteq> Got l \<and> pos ?m d \<noteq> Leaving l" if "l \<in> crit ?m d" for d l
      using that mx_excl [OF inv, of l d] by auto
    show "d = e" if "owns m d l \<and> l \<noteq> lk" "owns m e l \<and> l \<noteq> lk" for d e l
      using that mx_uniq [OF inv] by blast
  qed (use mx_wf [OF inv] mx_idle [OF inv] c in \<open>auto simp: t\<close>)
qed

lemma irq_inv:
  assumes inv: "mx_inv m" and c: "c < length (cpus (mach m))" and out: "pos m c = Out"
    and n: "ncli (cpus (mach m) ! c) = 0"
  shows "mx_inv (m\<lparr>mach := (mach m)\<lparr>eIF := (eIF (mach m))(c := b)\<rparr>\<rparr>)" (is "mx_inv ?m")
proof -
  have own: "owns ?m = owns m" by (auto simp: owns_def fun_eq_iff)
  show ?thesis
  proof (rule mx_invI, unfold own)
    show "mx_cpu ?m d" if "d < length (cpus (mach ?m))" for d
      using mx_each [OF inv, of d] that out n by (auto simp: mx_cpu_def depth_def)
  qed (use mx_invD [OF inv] in auto)
qed

lemma lock_step_inv: "lock_step m m' \<Longrightarrow> mx_inv m \<Longrightarrow> mx_inv m'"
  by (induction rule: lock_step.induct)
    (blast intro: enter_inv xchg_inv own_inv leave_inv clear_inv irq_inv)+

lemma mx_reach_inv: "mx_reach m \<Longrightarrow> mx_inv m"
proof (induction rule: mx_reach.induct)
  case (boot m)
  then show ?case by (auto simp: mx_init_def mx_inv_def owns_def mx_cpu_def depth_def)
next
  case (step m m')
  then show ?case by (blast intro: lock_step_inv)
qed

text \<open>A CPU that asks for a free lock, undisturbed, gets into the critical section.\<close>

lemma acquire_progress:
  assumes "mx_reach m" "c < length (cpus (mach m))" "pos m c = Out"
    and "lk_locked (spin (mach m) lk) = 0"
  shows "\<exists>m'. mx_reach m' \<and> lk \<in> crit m' c"
proof -
  note inv = mx_reach_inv [OF assms(1)]
  note ok = mx_inv_cpu_ok [OF inv assms(2)]
  have "lk \<notin> lks c (mach m)" using assms(4) by (simp add: lks_def)
  then obtain t1 where t1: "acquire_enter c lk (mach m) = Ok () t1" "same_smp (pushed c (mach m)) t1"
    using acquire_enter_runs [OF ok(1)] by (auto simp: runs_iff)
  define m1 where "m1 = m\<lparr>mach := t1, pos := (pos m)(c := Spinning lk)\<rparr>"
  have r1: "mx_reach m1" unfolding m1_def
    by (rule mx_reach.step [OF assms(1) lock_step.enter [OF assms(2,3) t1(1)]])
  define t2 where "t2 = upd_spin lk (\<lambda>l. l\<lparr>lk_locked := 1\<rparr>) t1"
  have x: "acquire_xchg lk (mach m1) = Ok 0 t2" using t1(2) assms(4)
    by (simp add: acquire_xchg_def kdo_def kop_defs same_smp_def t2_def m1_def)
  define m2 where "m2 = m1\<lparr>mach := t2, pos := (pos m1)(c := Got lk)\<rparr>"
  have r2: "mx_reach m2" unfolding m2_def
    by (rule mx_reach.step [OF r1 lock_step.grab [OF _ x]]) (simp add: m1_def)
  note inv2 = mx_reach_inv [OF r2]
  have p2: "pos m2 c = Got lk" by (simp add: m2_def)
  have c2: "c < length (cpus (mach m2))" using mx_inv_busy [OF inv2] p2 by simp
  have n2: "0 < ncli (cpus (mach m2) ! c)" using inv2 c2 p2 by (auto simp: mx_inv_def mx_cpu_def depth_def)
  from acquire_record_runs [OF mx_inv_cpu_ok(1) [OF inv2 c2] n2, of lk]
  obtain t3 where "acquire_record c lk (mach m2) = Ok () t3" by (auto simp: runs_iff)
  from mx_reach.step [OF r2 lock_step.own [OF p2 this]] show ?thesis by auto
qed

section \<open>Properties\<close>

text \<open>
  C5. Mutual exclusion. However the CPUs interleave their acquires and releases, a lock's
  critical section never holds two CPUs, and a CPU inside one runs with interrupts off.
\<close>

theorem spinlock_mutual_exclusion:
  assumes "mx_reach m" "lk \<in> crit m c" "lk \<in> crit m d"
  shows "c = d \<and> \<not> eIF (mach m) c"
proof -
  note inv = mx_reach_inv [OF assms(1)]
  have "c = d" using inv assms(2,3) unfolding mx_inv_def owns_def by blast
  moreover have "c < length (cpus (mach m))"
    using inv assms(2) unfolding mx_inv_def by (metis empty_iff not_le)
  then have "mx_cpu m c" using inv by (simp add: mx_inv_def)
  then have "\<not> eIF (mach m) c" using assms(2) by (auto simp: mx_cpu_def depth_def split: if_splits)
  ultimately show ?thesis by simp
qed

definition demo_smp :: smp where
  "demo_smp = \<lparr>cpus = [\<lparr>apicid = 0, ncli = 0, intena = False\<rparr>, \<lparr>apicid = 4, ncli = 0, intena = False\<rparr>],
     eIF = (\<lambda>_. True), lapicid = (\<lambda>c. if c = 0 then 0 else 4),
     spin = (\<lambda>_. \<lparr>lk_locked = 0, lk_name = ''demo'', lk_cpu = None, lk_pcs = []\<rparr>),
     rdmem = (\<lambda>_. 0), frame = (\<lambda>_. 0)\<rparr>"

lemma demo_smp_wf: "smp_wf demo_smp"
  by (auto simp: smp_wf_def demo_smp_def less_Suc_eq)

lemma demo_boot: "mx_reach \<lparr>mach = demo_smp, pos = (\<lambda>_. Out), crit = (\<lambda>_. {})\<rparr>"
  by (rule mx_reach.boot) (auto simp: mx_init_def demo_smp_wf, auto simp: demo_smp_def less_Suc_eq)

theorem spinlock_mutual_exclusion_witness:
  "\<exists>m. mx_reach m \<and> L_log \<in> crit m 1 \<and> L_log \<notin> crit m 0 \<and> \<not> eIF (mach m) 1"
proof -
  obtain m where m: "mx_reach m" "L_log \<in> crit m 1"
    using acquire_progress [OF demo_boot, of 1 L_log] by (auto simp: demo_smp_def)
  from spinlock_mutual_exclusion [OF m m(2)] spinlock_mutual_exclusion [OF m, of 0] m show ?thesis by auto
qed

definition pushes :: "nat \<Rightarrow> nat \<Rightarrow> (smp, unit) kop" where
  "pushes c n = kfor (\<lambda>_. pushcli c) (replicate n ())"

definition pops :: "nat \<Rightarrow> nat \<Rightarrow> (smp, unit) kop" where
  "pops c n = kfor (\<lambda>_. popcli c) (replicate n ())"

lemma pops_Suc: "runs (pops c (Suc n)) s Q = runs (pops c n) s (\<lambda>_ t. runs (popcli c) t Q)"
proof -
  have "pops c (Suc n) s = kdo (pops c n) (\<lambda>_. popcli c) s"
    unfolding pops_def replicate_Suc replicate_append_same [symmetric] kfor_append
    by (simp add: kdo_def kret_def split: outcome.splits)
  then show ?thesis by (simp add: runs_def kdo_def split: outcome.splits)
qed

lemma same_smp_popcli:
  assumes "cpu_ok c s" "same_smp (pushed c s) t"
  shows "runs (popcli c) t (\<lambda>_ u. same_smp s u)"
proof -
  have "popcli c t = Ok () (popped c t)"
    using assms by (intro popcli_wf) (auto simp: cpu_ok_def same_smp_def)
  moreover have "intena (cpus t ! c) = (if ncli (cpus s ! c) = 0 then eIF s c else intena (cpus s ! c))"
    using assms by (auto simp: same_smp_def cpu_ok_def pushed_def)
  then have "same_smp s (popped c t)"
    using assms by (auto simp: same_smp_def cpu_ok_def popped_def fun_eq_iff pushed_def)
  ultimately show ?thesis by (simp add: runs_iff)
qed



definition view_rel :: "nat \<Rightarrow> smp \<Rightarrow> 'x klock_scheme \<Rightarrow> bool" where
  "view_rel c s v \<longleftrightarrow> lk_inv c s \<and> distinct (held v) \<and> set (held v) = lks c s"

fun refines :: "('s \<Rightarrow> 'v \<Rightarrow> bool) \<Rightarrow> (unit, 's) outcome \<Rightarrow> (unit, 'v) outcome \<Rightarrow> bool" where
  "refines R (Ok _ s) (Ok _ v) = R s v"
| "refines R (Fail e) (Fail e') = (e = e')"
| "refines R _ _ = False"

text \<open>
  C6. Refinement: the detailed \<open>acquire\<close> and \<open>release\<close> of one CPU implement the view \<open>held\<close> the
  rest of the kernel is modelled over. Where the view returns, so does the code, with the same
  locks held; where the view panics, the code panics with the same message.
\<close>

theorem spinlock_refines_view:
  assumes "view_rel c s v" "lk_free lk s \<or> lk \<in> lks c s"
  shows "refines (view_rel c) (acquire c lk s) (acquire_lk lk v) \<and>
    refines (view_rel c) (release c lk s) (release_lk lk v)"
proof (rule conjI)
  have inv: "lk_inv c s" and eq: "set (held v) = lks c s" and d: "distinct (held v)"
    using assms(1) by (auto simp: view_rel_def)
  show "refines (view_rel c) (acquire c lk s) (acquire_lk lk v)"
  proof (cases "lk \<in> lks c s")
    case True
    with cpu_locks.acq_held [OF inv] eq show ?thesis by (simp add: acquire_lk_def)
  next
    case False
    with cpu_locks.acq_free [OF inv False] assms(2) eq d show ?thesis
      by (auto simp: acquire_lk_def runs_iff view_rel_def)
  qed
  show "refines (view_rel c) (release c lk s) (release_lk lk v)"
  proof (cases "lk \<in> lks c s")
    case True
    with cpu_locks.rel_held [OF inv True] eq d show ?thesis
      by (auto simp: release_lk_def runs_iff view_rel_def)
  next
    case False
    with cpu_locks.rel_not_held [OF inv] eq show ?thesis by (simp add: release_lk_def)
  qed
qed

theorem spinlock_refines_view_witness:
  "refines (view_rel 1) (acquire 1 L_bcache demo_smp) (acquire_lk L_bcache \<lparr>held = []\<rparr>)"
proof -
  have "view_rel 1 demo_smp \<lparr>held = []\<rparr>"
    using demo_smp_wf by (auto simp: view_rel_def lk_inv_def cpu_ok_def lks_def) (auto simp: demo_smp_def)
  moreover have "lk_free L_bcache demo_smp" by (simp add: lk_free_def demo_smp_def)
  ultimately show ?thesis using spinlock_refines_view by blast
qed

end
