(* ===== verification/Memory.thy ===== *)
theory Memory
  imports Spinlock
begin

text \<open>
  The kernel's memory and the state of its allocators, as a record extension of \<open>klock\<close>:
  byte-addressed memory with little-endian 32-bit accesses, the head of the free list of
  \<^verbatim>\<open>src/kern/mm/freelist.c\<close>, the \<^verbatim>\<open>kmem\<close> structure of \<^verbatim>\<open>src/kern/mm/buddy.c\<close> (its array of
  marks at \<^verbatim>\<open>kmem.start\<close> as a function from mark numbers) and \<^verbatim>\<open>current_allocator\<close> of
  \<^verbatim>\<open>src/kern/mm/kalloc.c\<close>. Address macros come from \<^verbatim>\<open>src/include/xv6/mmu.h\<close> and
  \<^verbatim>\<open>src/include/xv6/memlayout.h\<close>.
\<close>

type_synonym memory = "u32 \<Rightarrow> u8"

definition PGSIZE :: u32 where [const_defs]: "PGSIZE = 4096"
definition PHYSTOP :: u32 where [const_defs]: "PHYSTOP = 0xE000000"
definition EXTMEM :: u32 where [const_defs]: "EXTMEM = 0x100000"
definition DEVSPACE :: u32 where [const_defs]: "DEVSPACE = 0xFE000000"
definition KERNLINK :: u32 where [const_defs]: "KERNLINK = KERNBASE + EXTMEM"

definition V2P :: "u32 \<Rightarrow> u32" where "V2P a = a - KERNBASE"
definition P2V :: "u32 \<Rightarrow> u32" where "P2V a = a + KERNBASE"
definition PGROUNDUP :: "u32 \<Rightarrow> u32" where "PGROUNDUP sz = (sz + PGSIZE - 1) AND NOT (PGSIZE - 1)"
definition PGROUNDDOWN :: "u32 \<Rightarrow> u32" where "PGROUNDDOWN a = a AND NOT (PGSIZE - 1)"

lemma V2P_P2V [simp]: "V2P (P2V a) = a" "P2V (V2P a) = a"
  by (simp_all add: V2P_def P2V_def)

datatype allocator_id = FREELIST | BUDDY

record mark_t =
  lnks :: u32
  bitmap :: u32

record order_t =
  o_head :: u32
  o_offset :: u32

record buddy_t =
  b_start :: u32
  b_start_heap :: u32
  b_end :: u32
  b_initialized :: bool
  b_orders :: "order_t list"
  b_marks :: "nat \<Rightarrow> mark_t"

record kmem = klock +
  mem :: memory
  freelist :: u32
  buddy :: buddy_t
  current_allocator :: allocator_id
  kend :: u32
  kdata :: u32

section \<open>Accesses\<close>

definition load32 :: "memory \<Rightarrow> u32 \<Rightarrow> u32" where
  "load32 m a = word_of_nat (of_le [m a, m (a + 1), m (a + 2), m (a + 3)])"

definition store32 :: "memory \<Rightarrow> u32 \<Rightarrow> u32 \<Rightarrow> memory" where
  "store32 m a v = (\<lambda>x. if x - a < 4 then to_le 4 (unat v) ! unat (x - a) else m x)"

text \<open>\<^verbatim>\<open>memset(a, c, n)\<close> and \<^verbatim>\<open>memmove(d, s, n)\<close> as functions on memory; \<open>x - a < n\<close> says that
  \<open>x\<close> is one of the \<open>n\<close> addresses from \<open>a\<close> on.\<close>

definition mem_set :: "memory \<Rightarrow> u32 \<Rightarrow> u8 \<Rightarrow> u32 \<Rightarrow> memory" where
  "mem_set m a c n = (\<lambda>x. if x - a < n then c else m x)"

definition mem_move :: "memory \<Rightarrow> u32 \<Rightarrow> u32 \<Rightarrow> u32 \<Rightarrow> memory" where
  "mem_move m d src n = (\<lambda>x. if x - d < n then m (src + (x - d)) else m x)"

lemma list4_nths: "length xs = 4 \<Longrightarrow> [xs ! 0, xs ! 1, xs ! 2, xs ! 3] = xs"
  by (cases xs; cases "tl xs"; cases "tl (tl xs)"; cases "tl (tl (tl xs))") auto

lemma load32_store32_same [simp]: "load32 (store32 m a v) a = v"
proof -
  let ?t = "to_le 4 (unat v)"
  have l: "[?t ! 0, ?t ! 1, ?t ! 2, ?t ! 3] = ?t" by (rule list4_nths) simp
  have "unat v < 2 ^ 32" using unsigned_less [of v, where ?'a = nat] by simp
  then have t: "of_le ?t = unat v" by simp
  have e: "store32 m a v a = ?t ! 0" "store32 m a v (a + 1) = ?t ! 1"
    "store32 m a v (a + 2) = ?t ! 2" "store32 m a v (a + 3) = ?t ! 3"
    by (simp_all add: store32_def)
  have "load32 (store32 m a v) a = word_of_nat (of_le [?t ! 0, ?t ! 1, ?t ! 2, ?t ! 3])"
    by (simp only: load32_def e)
  also have "\<dots> = word_of_nat (unat v)" by (simp only: l t)
  finally show ?thesis by simp
qed

definition disjoint4 :: "u32 \<Rightarrow> u32 \<Rightarrow> bool" where
  "disjoint4 a b \<longleftrightarrow> (\<forall>i < 4. \<not> (b + i - a < 4))"

lemma load32_store32_other: "disjoint4 a b \<Longrightarrow> load32 (store32 m a v) b = load32 m b"
proof -
  assume d: "disjoint4 a b"
  have e: "store32 m a v (b + i) = m (b + i)" if "i < 4" for i
    using d that by (simp add: disjoint4_def store32_def)
  show ?thesis using e [of 0] e [of 1] e [of 2] e [of 3] by (simp add: load32_def)
qed

section \<open>Rounding to pages\<close>

lemma and_not_mask: "w AND NOT (mask n) = push_bit n (drop_bit n w)" for w :: u32
  by (rule bit_word_eqI) (auto simp: bit_simps)

lemma unat_align_down: "unat (w AND NOT 0xFFF) = unat w div 4096 * 4096" for w :: u32
proof -
  have "w AND NOT 0xFFF = push_bit 12 (drop_bit 12 w)"
    using and_not_mask [of w 12] by (simp add: mask_eq_exp_minus_1)
  also have "unat \<dots> = take_bit 32 (push_bit 12 (drop_bit 12 (unat w)))"
    by (simp only: unsigned_push_bit_eq unat_drop_bit_eq) simp
  also have "\<dots> = push_bit 12 (drop_bit 12 (unat w))"
  proof (rule take_bit_nat_eq_self)
    have "unat w div 4096 * 4096 \<le> unat w" by simp
    also have "unat w < 2 ^ 32" using unsigned_less [of w, where ?'a = nat] by simp
    finally show "push_bit 12 (drop_bit 12 (unat w)) < 2 ^ 32" by (simp add: push_bit_nat_def drop_bit_nat_def)
  qed
  finally show ?thesis by (simp add: push_bit_nat_def drop_bit_nat_def)
qed

lemma unat_align_down_num: "unat (w AND - 4096) = unat w div 4096 * 4096" for w :: u32
  using unat_align_down [of w] by simp

lemma unat_PGROUNDDOWN: "unat (PGROUNDDOWN a) = unat a div 4096 * 4096"
  by (simp add: PGROUNDDOWN_def PGSIZE_def unat_align_down_num)

lemma unat_PGROUNDUP: "unat a + 4095 < 2 ^ 32 \<Longrightarrow> unat (PGROUNDUP a) = (unat a + 4095) div 4096 * 4096"
  by (simp add: PGROUNDUP_def PGSIZE_def unat_align_down_num unat_word_ariths)

end
