(* ===== verification/Proc.thy ===== *)
theory Proc
  imports Memory
begin

text \<open>
  The process table of \<^verbatim>\<open>src/kern/sched/proc.cc\<close>: \<^verbatim>\<open>struct proc\<close>, process identifiers,
  \<^verbatim>\<open>sched\<close>, \<^verbatim>\<open>yield\<close>, \<^verbatim>\<open>sleep\<close>, \<^verbatim>\<open>wakeup\<close>, \<^verbatim>\<open>kill\<close> and the scheduler. Routines that also need
  memory, files or inodes (\<^verbatim>\<open>allocproc\<close>, \<^verbatim>\<open>fork\<close>, \<^verbatim>\<open>exit\<close>, \<^verbatim>\<open>wait\<close>) come later.

  A pointer to a \<^verbatim>\<open>struct proc\<close> is its index in \<^verbatim>\<open>ptable.proc\<close>. A routine that calls \<^verbatim>\<open>swtch\<close>
  is cut there: its first half ends in \<open>Suspend\<close>, and \<open>sleep_resume\<close>, \<open>yield_resume\<close> are the
  halves that run when the scheduler switches back.
\<close>

definition NPROC :: nat where [const_defs]: "NPROC = 64"
definition NOFILE :: nat where [const_defs]: "NOFILE = 16"
definition KSTACKSIZE :: u32 where [const_defs]: "KSTACKSIZE = 4096"

text \<open>Sleep channels are addresses of kernel objects; each constructor names the object.\<close>

datatype chan = CProc nat | CSleep slockid | CLog | CPipeR nat | CPipeW nat | CBuf nat
  | CInput | CTicks

datatype procstate = UNUSED | EMBRYO | SLEEPING | RUNNABLE | RUNNING | ZOMBIE

record proc =
  p_sz :: u32
  p_pgdir :: u32
  p_kstack :: u32
  p_state :: procstate
  p_pid :: int
  p_parent :: "nat option"
  p_tf :: u32
  p_context :: u32
  p_chan :: "chan option"
  p_killed :: bool
  p_ofile :: "nat option list"
  p_cwd :: "nat option"
  p_name :: "u8 list"
  p_cxa_eh_global :: "u8 list"

record kproc = kmem +
  procs :: "proc list"
  cpu_proc :: "nat option"
  initproc :: "nat option"
  nextpid :: int
  ts_esp0 :: u32
  cr3 :: u32
  kpgdir :: u32

text \<open>Updates of the state are kept in one order, that of the fields.\<close>

lemma kproc_update_order [simp]:
  "s\<lparr>mem := m, held := hs\<rparr> = s\<lparr>held := hs, mem := m\<rparr>"
  "s\<lparr>procs := ps, held := hs\<rparr> = s\<lparr>held := hs, procs := ps\<rparr>"
  "s\<lparr>procs := ps, mem := m\<rparr> = s\<lparr>mem := m, procs := ps\<rparr>"
  "s\<lparr>cpu_proc := c, held := hs\<rparr> = s\<lparr>held := hs, cpu_proc := c\<rparr>"
  "s\<lparr>cpu_proc := c, procs := ps\<rparr> = s\<lparr>procs := ps, cpu_proc := c\<rparr>"
  by simp_all

definition upd_proc :: "nat \<Rightarrow> (proc \<Rightarrow> proc) \<Rightarrow> 'x kproc_scheme \<Rightarrow> 'x kproc_scheme" where
  "upd_proc i f s = s\<lparr>procs := (procs s)[i := f (procs s ! i)]\<rparr>"

text \<open>\<^verbatim>\<open>nextpid\<close> is an \<^verbatim>\<open>int\<close>: incrementing the largest one is undefined.\<close>

definition alloc_pid :: "('x kproc_scheme, int) kop" where
  "alloc_pid =
     kdo (kget nextpid) (\<lambda>n.
     if n \<ge> 2 ^ 31 - 1 then kfail (Undef ''signed overflow'')
     else kdo (kmod (\<lambda>s. s\<lparr>nextpid := n + 1\<rparr>)) (\<lambda>_. kret n))"

definition free_pid :: "int \<Rightarrow> ('x kproc_scheme, unit) kop" where
  "free_pid pid = kret ()"

definition myproc :: "('x kproc_scheme, nat option) kop" where
  "myproc = kget cpu_proc"

text \<open>\<^verbatim>\<open>myproc()\<close> where the caller dereferences the result.\<close>

definition curproc :: "('x kproc_scheme, nat) kop" where
  "curproc = kdo myproc (\<lambda>p. case p of None \<Rightarrow> kfail (Undef ''null process'') | Some i \<Rightarrow> kret i)"

definition switchuvm :: "nat \<Rightarrow> ('x kproc_scheme, unit) kop" where
  "switchuvm i =
     kdo (kget (\<lambda>s. procs s ! i)) (\<lambda>p.
     if p_kstack p = 0 then kpanic ''switchuvm: no kstack''
     else if p_pgdir p = 0 then kpanic ''switchuvm: no pgdir''
     else kmod (\<lambda>s. s\<lparr>ts_esp0 := p_kstack p + KSTACKSIZE, cr3 := V2P (p_pgdir p)\<rparr>))"

definition switchkvm :: "('x kproc_scheme, unit) kop" where
  "switchkvm = kmod (\<lambda>s. s\<lparr>cr3 := V2P (kpgdir s)\<rparr>)"

text \<open>\<^verbatim>\<open>mycpu()->ncli\<close> is the number of spinlocks held.\<close>

definition sched :: "('x kproc_scheme, unit) kop" where
  "sched =
     kdo curproc (\<lambda>i.
     kdo (kget held) (\<lambda>hs.
     kdo (kget (\<lambda>s. p_state (procs s ! i))) (\<lambda>st.
     if L_ptable \<notin> set hs then kpanic ''sched ptable.lock''
     else if length hs \<noteq> 1 then kpanic ''sched locks''
     else if st = RUNNING then kpanic ''sched running''
     else ksuspend)))"

definition yield :: "('x kproc_scheme, unit) kop" where
  "yield =
     kdo (acquire_lk L_ptable) (\<lambda>_.
     kdo curproc (\<lambda>i.
     kdo (kmod (upd_proc i (\<lambda>p. p\<lparr>p_state := RUNNABLE\<rparr>))) (\<lambda>_.
     sched)))"

definition yield_resume :: "('x kproc_scheme, unit) kop" where
  "yield_resume = release_lk L_ptable"

definition sleep :: "chan \<Rightarrow> lockid option \<Rightarrow> ('x kproc_scheme, unit) kop" where
  "sleep ch lk =
     kdo myproc (\<lambda>mp. case mp of None \<Rightarrow> kpanic ''sleep'' | Some i \<Rightarrow>
     kdo (kwhen (lk \<noteq> Some L_ptable)
           (kdo (acquire_lk L_ptable) (\<lambda>_.
            case lk of None \<Rightarrow> kret () | Some l \<Rightarrow> release_lk l))) (\<lambda>_.
     kdo (kmod (upd_proc i (\<lambda>p. p\<lparr>p_chan := Some ch, p_state := SLEEPING\<rparr>))) (\<lambda>_.
     sched)))"

definition sleep_resume :: "lockid option \<Rightarrow> ('x kproc_scheme, unit) kop" where
  "sleep_resume lk =
     kdo curproc (\<lambda>i.
     kdo (kmod (upd_proc i (\<lambda>p. p\<lparr>p_chan := None\<rparr>))) (\<lambda>_.
     kwhen (lk \<noteq> Some L_ptable)
       (kdo (release_lk L_ptable) (\<lambda>_.
        case lk of None \<Rightarrow> kret () | Some l \<Rightarrow> acquire_lk l))))"

definition wakeup1 :: "chan option \<Rightarrow> ('x kproc_scheme, unit) kop" where
  "wakeup1 ch = kfor (\<lambda>i.
     kdo (kget (\<lambda>s. procs s ! i)) (\<lambda>p.
     kwhen (p_state p = SLEEPING \<and> p_chan p = ch)
       (kmod (upd_proc i (\<lambda>p. p\<lparr>p_state := RUNNABLE\<rparr>))))) [0..<NPROC]"

definition wakeup :: "chan \<Rightarrow> ('x kproc_scheme, unit) kop" where
  "wakeup ch =
     kdo (acquire_lk L_ptable) (\<lambda>_.
     kdo (wakeup1 (Some ch)) (\<lambda>_.
     release_lk L_ptable))"

definition find_pid :: "int \<Rightarrow> proc list \<Rightarrow> nat option" where
  "find_pid pid ps = List.find (\<lambda>i. p_pid (ps ! i) = pid) [0..<length ps]"

definition kill :: "int \<Rightarrow> ('x kproc_scheme, int) kop" where
  "kill pid =
     kdo (acquire_lk L_ptable) (\<lambda>_.
     kdo (kget (\<lambda>s. find_pid pid (procs s))) (\<lambda>r.
     case r of
       Some i \<Rightarrow>
         kdo (kmod (upd_proc i (\<lambda>p. p\<lparr>p_killed := True\<rparr>))) (\<lambda>_.
         kdo (kget (\<lambda>s. p_state (procs s ! i))) (\<lambda>st.
         kdo (kwhen (st = SLEEPING) (kmod (upd_proc i (\<lambda>p. p\<lparr>p_state := RUNNABLE\<rparr>)))) (\<lambda>_.
         kdo (release_lk L_ptable) (\<lambda>_. kret 0))))
     | None \<Rightarrow> kdo (release_lk L_ptable) (\<lambda>_. kret (- 1))))"

text \<open>
  \<^verbatim>\<open>scheduler\<close>, with \<^verbatim>\<open>ptable.lock\<close> held: \<open>scheduler_scan i\<close> is the inner loop from slot \<open>i\<close> up to
  the next \<^verbatim>\<open>swtch\<close>, giving the slot it switches to, or \<open>None\<close> when the pass is over, and
  \<open>scheduler_back\<close> is what it does when that process switches back.
\<close>

definition scan_runnable :: "nat \<Rightarrow> proc list \<Rightarrow> nat option" where
  "scan_runnable i ps = List.find (\<lambda>j. p_state (ps ! j) = RUNNABLE) [i..<length ps]"

definition scheduler_scan :: "nat \<Rightarrow> ('x kproc_scheme, nat option) kop" where
  "scheduler_scan i =
     kdo (kget (\<lambda>s. scan_runnable i (procs s))) (\<lambda>r.
     case r of None \<Rightarrow> kret None
     | Some j \<Rightarrow>
       kdo (kmod (\<lambda>s. s\<lparr>cpu_proc := Some j\<rparr>)) (\<lambda>_.
       kdo (switchuvm j) (\<lambda>_.
       kdo (kmod (upd_proc j (\<lambda>p. p\<lparr>p_state := RUNNING\<rparr>))) (\<lambda>_.
       kret (Some j)))))"

definition scheduler_back :: "('x kproc_scheme, unit) kop" where
  "scheduler_back = kdo switchkvm (\<lambda>_. kmod (\<lambda>s. s\<lparr>cpu_proc := None\<rparr>))"

section \<open>What the routines do\<close>

definition woken :: "chan option \<Rightarrow> proc list \<Rightarrow> proc list" where
  "woken ch = map (\<lambda>p. if p_state p = SLEEPING \<and> p_chan p = ch then p\<lparr>p_state := RUNNABLE\<rparr> else p)"

lemma length_woken [simp]: "length (woken ch ps) = length ps"
  by (simp add: woken_def)

lemma nth_woken:
  "i < length ps \<Longrightarrow> woken ch ps ! i =
     (if p_state (ps ! i) = SLEEPING \<and> p_chan (ps ! i) = ch then (ps ! i)\<lparr>p_state := RUNNABLE\<rparr> else ps ! i)"
  by (simp add: woken_def)

lemma woken_woken [simp]: "woken ch (woken ch ps) = woken ch ps"
  by (simp add: woken_def)

text \<open>A process table without the scheduling states.\<close>

definition pstatic :: "proc list \<Rightarrow> proc list" where
  "pstatic = map (\<lambda>p. p\<lparr>p_state := UNUSED\<rparr>)"

lemma pstatic_woken [simp]: "pstatic (woken ch ps) = pstatic ps"
  by (simp add: pstatic_def woken_def)

lemma pstatic_length: "pstatic ps = pstatic ps' \<Longrightarrow> length ps = length ps'"
  by (metis length_map pstatic_def)

lemma pstatic_pid:
  assumes "pstatic ps = pstatic ps'" "i < length ps"
  shows "p_pid (ps ! i) = p_pid (ps' ! i)"
proof -
  have "(ps ! i)\<lparr>p_state := UNUSED\<rparr> = (ps' ! i)\<lparr>p_state := UNUSED\<rparr>"
    using assms pstatic_length [OF assms(1)] unfolding pstatic_def by (metis nth_map)
  then show ?thesis by (cases "ps ! i"; cases "ps' ! i") simp
qed

lemma procs_upd_proc [simp]: "procs (upd_proc i f s) = (procs s)[i := f (procs s ! i)]"
  by (simp add: upd_proc_def)

lemma upd_proc_other [simp]:
  "held (upd_proc i f s) = held s" "cpu_proc (upd_proc i f s) = cpu_proc s"
  "initproc (upd_proc i f s) = initproc s" "nextpid (upd_proc i f s) = nextpid s"
  "mem (upd_proc i f s) = mem s"
  by (simp_all add: upd_proc_def)

lemma woken_prefix_step:
  assumes "i < length ps"
  shows "(take i (woken ch ps) @ drop i ps)[i := woken ch ps ! i] = take (Suc i) (woken ch ps) @ drop (Suc i) ps"
  using assms by (simp add: list_update_append Cons_nth_drop_Suc [symmetric] take_Suc_conv_app_nth)

lemma wakeup1_eq:
  assumes "length (procs s) = NPROC"
  shows "wakeup1 ch s = Ok () (s\<lparr>procs := woken ch (procs s)\<rparr>)"
proof -
  let ?ps = "procs s"
  let ?st = "\<lambda>i. s\<lparr>procs := take i (woken ch ?ps) @ drop i ?ps\<rparr>"
  have "runs (wakeup1 ch) s (\<lambda>_ t. t = ?st NPROC)"
    unfolding wakeup1_def
  proof (rule runs_kfor_upt [where I = "\<lambda>i t. t = ?st i"])
    fix i t
    assume x: "i < NPROC" and t: "t = ?st i"
    have w: "woken ch ?ps ! i = (if p_state (?ps ! i) = SLEEPING \<and> p_chan (?ps ! i) = ch
         then (?ps ! i)\<lparr>p_state := RUNNABLE\<rparr> else ?ps ! i)"
      by (rule nth_woken) (use x assms in simp)
    have n: "(take i (woken ch ?ps) @ drop i ?ps) ! i = ?ps ! i"
      using x assms by (simp add: nth_append)
    have u: "(take i (woken ch ?ps) @ drop i ?ps)[i := woken ch ?ps ! i]
        = take (Suc i) (woken ch ?ps) @ drop (Suc i) ?ps"
      by (rule woken_prefix_step) (use x assms in simp)
    show "runs (kdo (kget (\<lambda>s. procs s ! i)) (\<lambda>p.
        kwhen (p_state p = SLEEPING \<and> p_chan p = ch)
          (kmod (upd_proc i (\<lambda>p. p\<lparr>p_state := RUNNABLE\<rparr>))))) t (\<lambda>_ t. t = ?st (Suc i))"
    proof (cases "p_state (?ps ! i) = SLEEPING \<and> p_chan (?ps ! i) = ch")
      case True
      then show ?thesis using w u n t by (simp add: upd_proc_def)
    next
      case False
      have e: "take i (woken ch ?ps) @ drop i ?ps = take (Suc i) (woken ch ?ps) @ drop (Suc i) ?ps"
        using u n w False list_update_id [of "take i (woken ch ?ps) @ drop i ?ps" i] by simp
      have "procs t ! i = ?ps ! i" using t n by simp
      then show ?thesis using False t e by auto
    qed
  qed (use assms in simp_all)
  then show ?thesis using assms by (auto simp: runs_iff)
qed

lemma runs_wakeup1 [run_simps]:
  "length (procs s) = NPROC \<Longrightarrow>
   runs (wakeup1 ch) s Q = Q () (s\<lparr>procs := woken ch (procs s)\<rparr>)"
  by (simp add: runs_def wakeup1_eq)

lemma wakeup_eq:
  assumes "length (procs s) = NPROC" "L_ptable \<notin> set (held s)"
  shows "wakeup ch s = Ok () (s\<lparr>procs := woken (Some ch) (procs s)\<rparr>)"
  using assms by (simp add: wakeup_def acquire_lk_def wakeup1_eq release_lk_def kdo_def)

lemma runs_wakeup [run_simps]:
  "length (procs s) = NPROC \<Longrightarrow> L_ptable \<notin> set (held s) \<Longrightarrow>
   runs (wakeup ch) s Q = Q () (s\<lparr>procs := woken (Some ch) (procs s)\<rparr>)"
  by (simp add: runs_def wakeup_eq)

lemma runs_curproc [run_simps]:
  "runs curproc s Q = (case cpu_proc s of None \<Rightarrow> False | Some i \<Rightarrow> Q i s)"
  by (simp add: curproc_def myproc_def split: option.splits)

lemma curproc_Some: "cpu_proc s = Some i \<Longrightarrow> curproc s = Ok i s"
  by (simp add: curproc_def myproc_def kget_def kdo_def kret_def)

text \<open>The process left by \<open>sleep\<close>: exactly the caller sleeps, and only \<^verbatim>\<open>ptable.lock\<close> is held.\<close>

lemma sleep_suspends:
  assumes "cpu_proc s = Some i" "i < length (procs s)" "held s = [lk]" "lk \<noteq> L_ptable"
  shows "sleep ch (Some lk) s = Suspend ((upd_proc i (\<lambda>p. p\<lparr>p_chan := Some ch, p_state := SLEEPING\<rparr>) s)
           \<lparr>held := [L_ptable]\<rparr>)"
  using assms by (simp add: sleep_def myproc_def kdo_def kop_defs acquire_lk_def release_lk_def sched_def
      curproc_def upd_proc_def)

lemma sleep_ptable_suspends:
  assumes "cpu_proc s = Some i" "i < length (procs s)" "held s = [L_ptable]"
  shows "sleep ch (Some L_ptable) s =
     Suspend (upd_proc i (\<lambda>p. p\<lparr>p_chan := Some ch, p_state := SLEEPING\<rparr>) s)"
  using assms by (simp add: sleep_def myproc_def kdo_def kop_defs sched_def curproc_def upd_proc_def)

text \<open>With another spinlock still held, \<open>sleep\<close> panics rather than switch away with it.\<close>

lemma sleep_panics_holding:
  assumes "cpu_proc s = Some i" "held s = lk # hs" "hs \<noteq> []" "L_ptable \<notin> set (held s)"
  shows "sleep ch (Some lk) s = Fail (KPanic ''sched locks'')"
  using assms by (simp add: sleep_def myproc_def kdo_def kop_defs acquire_lk_def release_lk_def sched_def
      curproc_def upd_proc_def)

lemma yield_suspends:
  assumes "cpu_proc s = Some i" "i < length (procs s)" "held s = []"
  shows "yield s = Suspend ((upd_proc i (\<lambda>p. p\<lparr>p_state := RUNNABLE\<rparr>) s)\<lparr>held := [L_ptable]\<rparr>)"
  using assms by (simp add: yield_def kdo_def kop_defs acquire_lk_def sched_def curproc_def myproc_def upd_proc_def)

lemma kill_eq:
  assumes "L_ptable \<notin> set (held s)"
  shows "kill pid s = (case find_pid pid (procs s) of
      None \<Rightarrow> Ok (- 1) s
    | Some i \<Rightarrow> Ok 0 (upd_proc i (\<lambda>p. p\<lparr>p_killed := True,
        p_state := (if p_state p = SLEEPING then RUNNABLE else p_state p)\<rparr>) s))"
proof (cases "find_pid pid (procs s)")
  case (Some i)
  then have "i < length (procs s)" by (simp add: find_pid_def find_upt_Some)
  with Some assms show ?thesis
    by (auto simp: kill_def kdo_def kop_defs acquire_lk_def release_lk_def upd_proc_def)
qed (use assms in \<open>simp add: kill_def kdo_def kop_defs acquire_lk_def release_lk_def\<close>)

end
