(* ===== verification/Sleeplock.thy ===== *)
theory Sleeplock
  imports Proc
begin

text \<open>
  Sleep-locks, \<^verbatim>\<open>src/kern/locking/sleeplock.c\<close>: the locks of buffers and inodes, indexed by
  \<open>slockid\<close>. \<open>acquiresleep\<close> is the routine up to the point where it either owns the lock or has
  gone to sleep; \<open>acquiresleep_resume\<close> is the rest of the \<^verbatim>\<open>while\<close> loop after a wakeup.
\<close>

record sleeplock =
  sl_locked :: bool
  sl_pid :: int

record ksleep = kproc +
  slk :: "slockid \<Rightarrow> sleeplock"

lemma ksleep_update_order [simp]:
  "s\<lparr>slk := l, held := hs\<rparr> = s\<lparr>held := hs, slk := l\<rparr>"
  "s\<lparr>slk := l, procs := ps\<rparr> = s\<lparr>procs := ps, slk := l\<rparr>"
  by simp_all

definition upd_slk :: "slockid \<Rightarrow> sleeplock \<Rightarrow> 'x ksleep_scheme \<Rightarrow> 'x ksleep_scheme" where
  "upd_slk l v s = s\<lparr>slk := (slk s)(l := v)\<rparr>"

definition initsleeplock :: "slockid \<Rightarrow> ('x ksleep_scheme, unit) kop" where
  "initsleeplock l = kmod (upd_slk l \<lparr>sl_locked = False, sl_pid = 0\<rparr>)"

definition acquiresleep_loop :: "slockid \<Rightarrow> ('x ksleep_scheme, unit) kop" where
  "acquiresleep_loop l =
     kdo (kget (\<lambda>s. sl_locked (slk s l))) (\<lambda>locked.
     if locked then sleep (CSleep l) (Some (L_sleep l))
     else
       kdo curproc (\<lambda>i.
       kdo (kget (\<lambda>s. p_pid (procs s ! i))) (\<lambda>pid.
       kdo (kmod (upd_slk l \<lparr>sl_locked = True, sl_pid = pid\<rparr>)) (\<lambda>_.
       release_lk (L_sleep l)))))"

definition acquiresleep :: "slockid \<Rightarrow> ('x ksleep_scheme, unit) kop" where
  "acquiresleep l = kdo (acquire_lk (L_sleep l)) (\<lambda>_. acquiresleep_loop l)"

definition acquiresleep_resume :: "slockid \<Rightarrow> ('x ksleep_scheme, unit) kop" where
  "acquiresleep_resume l = kdo (sleep_resume (Some (L_sleep l))) (\<lambda>_. acquiresleep_loop l)"

definition releasesleep :: "slockid \<Rightarrow> ('x ksleep_scheme, unit) kop" where
  "releasesleep l =
     kdo (acquire_lk (L_sleep l)) (\<lambda>_.
     kdo (kmod (upd_slk l \<lparr>sl_locked = False, sl_pid = 0\<rparr>)) (\<lambda>_.
     kdo (wakeup (CSleep l)) (\<lambda>_.
     release_lk (L_sleep l))))"

definition holdingsleep :: "slockid \<Rightarrow> ('x ksleep_scheme, bool) kop" where
  "holdingsleep l =
     kdo (acquire_lk (L_sleep l)) (\<lambda>_.
     kdo curproc (\<lambda>i.
     kdo (kget (\<lambda>s. sl_locked (slk s l) \<and> sl_pid (slk s l) = p_pid (procs s ! i))) (\<lambda>r.
     kdo (release_lk (L_sleep l)) (\<lambda>_. kret r))))"

text \<open>The pid of the running process, and the locks it owns.\<close>

definition cur_pid :: "'x kproc_scheme \<Rightarrow> int" where
  "cur_pid s = p_pid (procs s ! the (cpu_proc s))"

definition holds :: "'x ksleep_scheme \<Rightarrow> slockid \<Rightarrow> bool" where
  "holds s l \<longleftrightarrow> sl_locked (slk s l) \<and> sl_pid (slk s l) = cur_pid s"

text \<open>What every kernel thread that is not inside a spinlock's critical section can rely on.\<close>

definition kthread :: "'x kproc_scheme \<Rightarrow> bool" where
  "kthread s \<longleftrightarrow> length (procs s) = NPROC \<and> held s = [] \<and>
     (\<exists>i. cpu_proc s = Some i \<and> i < NPROC)"

lemma kthreadD:
  assumes "kthread s"
  obtains i where "length (procs s) = NPROC" "held s = []" "cpu_proc s = Some i" "i < NPROC"
  using assms by (auto simp: kthread_def)

lemma upd_slk_sel [simp]:
  "slk (upd_slk l v s) = (slk s)(l := v)" "procs (upd_slk l v s) = procs s"
  "cpu_proc (upd_slk l v s) = cpu_proc s" "held (upd_slk l v s) = held s"
  by (simp_all add: upd_slk_def)

lemma runs_acquiresleep [run_simps]:
  assumes "kthread s"
  shows "runs (acquiresleep l) s Q \<longleftrightarrow> \<not> sl_locked (slk s l) \<and>
     Q () (upd_slk l \<lparr>sl_locked = True, sl_pid = cur_pid s\<rparr> s)"
proof -
  obtain i where i: "length (procs s) = NPROC" "held s = []" "cpu_proc s = Some i" "i < NPROC"
    using assms by (rule kthreadD)
  show ?thesis
  proof (cases "sl_locked (slk s l)")
    case True
    then show ?thesis using i
      by (simp add: acquiresleep_def acquiresleep_loop_def runs_def acquire_lk_def kdo_def kget_def
          sleep_suspends [where i = i])
  next
    case False
    then show ?thesis using i
      by (simp add: acquiresleep_def acquiresleep_loop_def runs_curproc cur_pid_def upd_slk_def)
  qed
qed

lemma runs_releasesleep [run_simps]:
  assumes "kthread s"
  shows "runs (releasesleep l) s Q \<longleftrightarrow>
     Q () (upd_slk l \<lparr>sl_locked = False, sl_pid = 0\<rparr> (s\<lparr>procs := woken (Some (CSleep l)) (procs s)\<rparr>))"
  using assms by (elim kthreadD) (simp add: releasesleep_def runs_wakeup upd_slk_def)

lemma runs_holdingsleep [run_simps]:
  assumes "kthread s"
  shows "runs (holdingsleep l) s Q \<longleftrightarrow> Q (holds s l) s"
  using assms by (elim kthreadD) (simp add: holdingsleep_def runs_curproc holds_def cur_pid_def)

end
