(* ===== verification/Disk.thy ===== *)
theory Disk
  imports Sleeplock
begin

text \<open>
  \<^verbatim>\<open>struct buf\<close> (\<^verbatim>\<open>src/include/xv6/buf.h\<close>) and the disk of \<^verbatim>\<open>src/drivers/ide/memide.c\<close>, which
  keeps the blocks of the file system image in memory and completes every request before
  \<^verbatim>\<open>iderw\<close> returns.

  The two bits of \<^verbatim>\<open>flags\<close> are the booleans \<open>b_valid\<close> and \<open>b_dirty\<close>. A pointer to a buffer is its
  index in \<open>bufs\<close>; index \<open>BHEAD\<close> is \<^verbatim>\<open>bcache.head\<close>. \<open>dwrites\<close> records the block writes in the
  order the disk performed them; it is read only by the statements about crashes.
\<close>

definition NBUF :: nat where [const_defs]: "NBUF = 30"
definition BSIZE :: nat where [const_defs]: "BSIZE = 512"
definition BHEAD :: nat where [const_defs]: "BHEAD = NBUF"

record buf =
  b_valid :: bool
  b_dirty :: bool
  b_dev :: nat
  b_blockno :: nat
  b_refcnt :: nat
  b_prev :: nat
  b_next :: nat
  b_data :: "u8 list"

record kdisk = ksleep +
  memdisk :: "nat \<Rightarrow> u8 list"
  disksize :: nat
  dwrites :: "(nat \<times> u8 list) list"

record kbio = kdisk +
  bufs :: "buf list"

lemma kbio_update_order [simp]:
  "s\<lparr>memdisk := d, held := hs\<rparr> = s\<lparr>held := hs, memdisk := d\<rparr>"
  "s\<lparr>memdisk := d, procs := ps\<rparr> = s\<lparr>procs := ps, memdisk := d\<rparr>"
  "s\<lparr>memdisk := d, slk := sl\<rparr> = s\<lparr>slk := sl, memdisk := d\<rparr>"
  "s\<lparr>dwrites := w, held := hs\<rparr> = s\<lparr>held := hs, dwrites := w\<rparr>"
  "s\<lparr>dwrites := w, procs := ps\<rparr> = s\<lparr>procs := ps, dwrites := w\<rparr>"
  "s\<lparr>dwrites := w, slk := sl\<rparr> = s\<lparr>slk := sl, dwrites := w\<rparr>"
  "s\<lparr>dwrites := w, memdisk := d\<rparr> = s\<lparr>memdisk := d, dwrites := w\<rparr>"
  "s\<lparr>bufs := bs, held := hs\<rparr> = s\<lparr>held := hs, bufs := bs\<rparr>"
  "s\<lparr>bufs := bs, procs := ps\<rparr> = s\<lparr>procs := ps, bufs := bs\<rparr>"
  "s\<lparr>bufs := bs, slk := sl\<rparr> = s\<lparr>slk := sl, bufs := bs\<rparr>"
  "s\<lparr>bufs := bs, memdisk := d\<rparr> = s\<lparr>memdisk := d, bufs := bs\<rparr>"
  "s\<lparr>bufs := bs, dwrites := w\<rparr> = s\<lparr>dwrites := w, bufs := bs\<rparr>"
  by simp_all

definition upd_buf :: "nat \<Rightarrow> (buf \<Rightarrow> buf) \<Rightarrow> 'x kbio_scheme \<Rightarrow> 'x kbio_scheme" where
  "upd_buf b f s = s\<lparr>bufs := (bufs s)[b := f (bufs s ! b)]\<rparr>"

definition disk_write :: "nat \<Rightarrow> u8 list \<Rightarrow> 'x kdisk_scheme \<Rightarrow> 'x kdisk_scheme" where
  "disk_write n d s = s\<lparr>memdisk := (memdisk s)(n := d), dwrites := dwrites s @ [(n, d)]\<rparr>"

text \<open>\<^verbatim>\<open>ideinit\<close>: the disk is the linked-in image \<open>fs_img\<close>, of which only whole blocks count.\<close>

definition ideinit :: "u8 list \<Rightarrow> ('x kdisk_scheme, unit) kop" where
  "ideinit fs_img = kmod (\<lambda>s. s\<lparr>memdisk := (\<lambda>n. bytes_at (n * BSIZE) BSIZE fs_img),
     disksize := length fs_img div BSIZE\<rparr>)"

definition iderw :: "nat \<Rightarrow> ('x kbio_scheme, unit) kop" where
  "iderw b =
     kdo (holdingsleep (SBuf b)) (\<lambda>h.
     if \<not> h then kpanic ''iderw: buf not locked'' else
     kdo (kget (\<lambda>s. bufs s ! b)) (\<lambda>x.
     if b_valid x \<and> \<not> b_dirty x then kpanic ''iderw: nothing to do''
     else if b_dev x \<noteq> 1 then kpanic ''iderw: request not for disk 1'' else
     kdo (kget disksize) (\<lambda>n.
     if b_blockno x \<ge> n then kpanic ''iderw: block out of range'' else
     kdo (if b_dirty x then
            kdo (kmod (upd_buf b (\<lambda>x. x\<lparr>b_dirty := False\<rparr>))) (\<lambda>_.
            kmod (disk_write (b_blockno x) (b_data x)))
          else
            kdo (kget (\<lambda>s. memdisk s (b_blockno x))) (\<lambda>d.
            kmod (upd_buf b (\<lambda>x. x\<lparr>b_data := d\<rparr>)))) (\<lambda>_.
     kmod (upd_buf b (\<lambda>x. x\<lparr>b_valid := True\<rparr>))))))"

lemma upd_buf_sel [simp]:
  "bufs (upd_buf b f s) = (bufs s)[b := f (bufs s ! b)]" "procs (upd_buf b f s) = procs s"
  "held (upd_buf b f s) = held s" "cpu_proc (upd_buf b f s) = cpu_proc s" "slk (upd_buf b f s) = slk s"
  "memdisk (upd_buf b f s) = memdisk s" "dwrites (upd_buf b f s) = dwrites s" "disksize (upd_buf b f s) = disksize s"
  by (simp_all add: upd_buf_def)

lemma disk_write_sel [simp]:
  "memdisk (disk_write n d s) = (memdisk s)(n := d)" "dwrites (disk_write n d s) = dwrites s @ [(n, d)]"
  "procs (disk_write n d s) = procs s" "held (disk_write n d s) = held s"
  "cpu_proc (disk_write n d s) = cpu_proc s" "slk (disk_write n d s) = slk s"
  "disksize (disk_write n d s) = disksize s"
  by (simp_all add: disk_write_def)

lemma bufs_disk_write [simp]: "bufs (disk_write n d s) = bufs s"
  by (simp add: disk_write_def)

text \<open>The disk contents after a sequence of block writes.\<close>

definition writes_on :: "(nat \<Rightarrow> u8 list) \<Rightarrow> (nat \<times> u8 list) list \<Rightarrow> nat \<Rightarrow> u8 list" where
  "writes_on d ws = fold (\<lambda>(n, x) d. d(n := x)) ws d"

lemma writes_on_simps [simp]:
  "writes_on d [] = d" "writes_on d (ws @ vs) = writes_on (writes_on d ws) vs"
  "writes_on d ((n, x) # ws) = writes_on (d(n := x)) ws"
  by (simp_all add: writes_on_def)

lemma writes_on_other: "n \<notin> fst ` set ws \<Longrightarrow> writes_on d ws n = d n"
  by (induction ws arbitrary: d) auto

lemma writes_on_nth:
  assumes "distinct (map fst ws)" "i < length ws"
  shows "writes_on d ws (fst (ws ! i)) = snd (ws ! i)"
  using assms
proof (induction ws arbitrary: d i)
  case (Cons w ws)
  obtain n x where w: "w = (n, x)" by (cases w)
  show ?case
  proof (cases i)
    case 0
    with Cons.prems show ?thesis by (simp add: w writes_on_other)
  next
    case (Suc k)
    with Cons show ?thesis by (simp add: w)
  qed
qed simp

end
