(* ===== verification/Bio.thy ===== *)
theory Bio
  imports Disk
begin

text \<open>
  The buffer cache of \<^verbatim>\<open>src/fs/sfs/bio.c\<close>.

  The LRU list is kept as in the code, by \<open>b_prev\<close> and \<open>b_next\<close> through the sentinel \<open>BHEAD\<close>; its
  traversals carry a bound of \<open>NBUF + 1\<close> steps and report \<open>Diverge\<close> beyond it, which the ring
  invariant \<open>lru_ring\<close> excludes.

  What the layers above see is abstract: \<open>blk s n\<close> is the contents of block \<open>n\<close> (in the cache or
  on disk), \<open>opens s n\<close> the buffer the running process has open for it, \<open>busy s\<close> the blocks whose
  buffers are referenced by some process, \<open>dset s\<close> the blocks pinned by \<^verbatim>\<open>B_DIRTY\<close>. The locale
  \<open>block_cache\<close> states the laws of the interface over these views.
\<close>

section \<open>The code\<close>

definition set_next :: "nat \<Rightarrow> nat \<Rightarrow> buf list \<Rightarrow> buf list" where
  "set_next i v bs = bs[i := (bs ! i)\<lparr>b_next := v\<rparr>]"

definition set_prev :: "nat \<Rightarrow> nat \<Rightarrow> buf list \<Rightarrow> buf list" where
  "set_prev i v bs = bs[i := (bs ! i)\<lparr>b_prev := v\<rparr>]"

definition binit_link :: "nat \<Rightarrow> ('x kbio_scheme, unit) kop" where
  "binit_link b =
     kdo (kmod (\<lambda>s. s\<lparr>bufs := set_next b (b_next (bufs s ! BHEAD)) (bufs s)\<rparr>)) (\<lambda>_.
     kdo (kmod (\<lambda>s. s\<lparr>bufs := set_prev b BHEAD (bufs s)\<rparr>)) (\<lambda>_.
     kdo (initsleeplock (SBuf b)) (\<lambda>_.
     kdo (kmod (\<lambda>s. s\<lparr>bufs := set_prev (b_next (bufs s ! BHEAD)) b (bufs s)\<rparr>)) (\<lambda>_.
     kmod (\<lambda>s. s\<lparr>bufs := set_next BHEAD b (bufs s)\<rparr>)))))"

definition binit :: "('x kbio_scheme, unit) kop" where
  "binit =
     kdo (kmod (\<lambda>s. s\<lparr>bufs := set_next BHEAD BHEAD (set_prev BHEAD BHEAD (bufs s))\<rparr>)) (\<lambda>_.
     kfor binit_link [0..<NBUF])"

primrec scan_next :: "nat \<Rightarrow> (buf \<Rightarrow> bool) \<Rightarrow> nat \<Rightarrow> ('x kbio_scheme, nat option) kop" where
  "scan_next 0 P b = kfail Diverge"
| "scan_next (Suc k) P b = (if b = BHEAD then kret None else
     kdo (kget (\<lambda>s. bufs s ! b)) (\<lambda>x. if P x then kret (Some b) else scan_next k P (b_next x)))"

primrec scan_prev :: "nat \<Rightarrow> (buf \<Rightarrow> bool) \<Rightarrow> nat \<Rightarrow> ('x kbio_scheme, nat option) kop" where
  "scan_prev 0 P b = kfail Diverge"
| "scan_prev (Suc k) P b = (if b = BHEAD then kret None else
     kdo (kget (\<lambda>s. bufs s ! b)) (\<lambda>x. if P x then kret (Some b) else scan_prev k P (b_prev x)))"

definition bget_recycle :: "nat \<Rightarrow> nat \<Rightarrow> ('x kbio_scheme, nat) kop" where
  "bget_recycle dev blockno =
     kdo (kget (\<lambda>s. b_prev (bufs s ! BHEAD))) (\<lambda>b0.
     kdo (scan_prev (NBUF + 1) (\<lambda>x. b_refcnt x = 0 \<and> \<not> b_dirty x) b0) (\<lambda>r.
     case r of
       None \<Rightarrow> kpanic ''bget: no buffers''
     | Some b \<Rightarrow>
         kdo (kmod (upd_buf b (\<lambda>x. x\<lparr>b_dev := dev, b_blockno := blockno, b_valid := False,
                b_dirty := False, b_refcnt := 1\<rparr>))) (\<lambda>_.
         kdo (release_lk L_bcache) (\<lambda>_.
         kdo (acquiresleep (SBuf b)) (\<lambda>_. kret b)))))"

definition bget :: "nat \<Rightarrow> nat \<Rightarrow> ('x kbio_scheme, nat) kop" where
  "bget dev blockno =
     kdo (acquire_lk L_bcache) (\<lambda>_.
     kdo (kget (\<lambda>s. b_next (bufs s ! BHEAD))) (\<lambda>b0.
     kdo (scan_next (NBUF + 1) (\<lambda>x. b_dev x = dev \<and> b_blockno x = blockno) b0) (\<lambda>r.
     case r of
       Some b \<Rightarrow>
         kdo (kmod (upd_buf b (\<lambda>x. x\<lparr>b_refcnt := inc32 (b_refcnt x)\<rparr>))) (\<lambda>_.
         kdo (release_lk L_bcache) (\<lambda>_.
         kdo (acquiresleep (SBuf b)) (\<lambda>_. kret b)))
     | None \<Rightarrow> bget_recycle dev blockno)))"

definition bread :: "nat \<Rightarrow> nat \<Rightarrow> ('x kbio_scheme, nat) kop" where
  "bread dev blockno =
     kdo (bget dev blockno) (\<lambda>b.
     kdo (kget (\<lambda>s. b_valid (bufs s ! b))) (\<lambda>v.
     kdo (kwhen (\<not> v) (iderw b)) (\<lambda>_. kret b)))"

definition bwrite :: "nat \<Rightarrow> ('x kbio_scheme, unit) kop" where
  "bwrite b =
     kdo (holdingsleep (SBuf b)) (\<lambda>h.
     if \<not> h then kpanic ''bwrite'' else
     kdo (kmod (upd_buf b (\<lambda>x. x\<lparr>b_dirty := True\<rparr>))) (\<lambda>_. iderw b))"

definition move_mru :: "nat \<Rightarrow> buf list \<Rightarrow> buf list" where
  "move_mru b bs0 =
    (let bs1 = set_prev (b_next (bs0 ! b)) (b_prev (bs0 ! b)) bs0;
         bs2 = set_next (b_prev (bs1 ! b)) (b_next (bs1 ! b)) bs1;
         bs3 = set_next b (b_next (bs2 ! BHEAD)) bs2;
         bs4 = set_prev b BHEAD bs3;
         bs5 = set_prev (b_next (bs4 ! BHEAD)) b bs4
     in set_next BHEAD b bs5)"

definition brelse :: "nat \<Rightarrow> ('x kbio_scheme, unit) kop" where
  "brelse b =
     kdo (holdingsleep (SBuf b)) (\<lambda>h.
     if \<not> h then kpanic ''brelse'' else
     kdo (releasesleep (SBuf b)) (\<lambda>_.
     kdo (acquire_lk L_bcache) (\<lambda>_.
     kdo (kmod (upd_buf b (\<lambda>x. x\<lparr>b_refcnt := dec32 (b_refcnt x)\<rparr>))) (\<lambda>_.
     kdo (kget (\<lambda>s. b_refcnt (bufs s ! b))) (\<lambda>r.
     kdo (kwhen (r = 0) (kmod (\<lambda>s. s\<lparr>bufs := move_mru b (bufs s)\<rparr>))) (\<lambda>_.
     release_lk L_bcache))))))"

section \<open>The ring\<close>

text \<open>\<open>chain nx pv a xs z\<close>: following \<open>nx\<close> from \<open>a\<close> passes through \<open>xs\<close> and arrives at \<open>z\<close>, and \<open>pv\<close>
  leads back.\<close>

primrec chain :: "(nat \<Rightarrow> nat) \<Rightarrow> (nat \<Rightarrow> nat) \<Rightarrow> nat \<Rightarrow> nat list \<Rightarrow> nat \<Rightarrow> bool" where
  "chain nx pv a [] z \<longleftrightarrow> nx a = z \<and> pv z = a"
| "chain nx pv a (x # xs) z \<longleftrightarrow> nx a = x \<and> pv x = a \<and> chain nx pv x xs z"

lemma chain_append [simp]:
  "chain nx pv a (us @ b # vs) z \<longleftrightarrow> chain nx pv a us b \<and> chain nx pv b vs z"
  by (induction us arbitrary: a) auto

lemma chain_cong:
  assumes "\<And>x. x \<in> set (a # xs) \<Longrightarrow> nx x = nx' x" "\<And>x. x \<in> set (z # xs) \<Longrightarrow> pv x = pv' x"
  shows "chain nx pv a xs z \<longleftrightarrow> chain nx' pv' a xs z"
  using assms by (induction xs arbitrary: a) auto

lemma chain_next: "chain nx pv a xs z \<Longrightarrow> nx a = hd (xs @ [z])"
  by (cases xs) auto

lemma chain_prev: "chain nx pv a xs z \<Longrightarrow> pv z = last (a # xs)"
  by (induction xs arbitrary: a) auto

text \<open>The segment before \<open>b\<close> with its last \<open>nx\<close> redirected, and the one after \<open>b\<close> with its first \<open>pv\<close>
  redirected, are joined.\<close>

lemma chain_join:
  assumes "chain nx pv a us b" "chain nx pv b vs z" "distinct (a # us)" "b \<notin> set (a # us)"
    "z \<notin> set vs" "b \<notin> set vs" "distinct vs" "set us \<inter> set vs = {}" "a \<notin> set vs" "z \<notin> set us" "b \<noteq> z"
  shows "chain (nx(pv b := nx b)) (pv(nx b := pv b)) a (us @ vs) z"
proof -
  have p: "pv b = last (a # us)" by (rule chain_prev [OF assms(1)])
  have pin: "pv b \<in> set (a # us)" using p last_in_set [of "a # us"] by simp
  have n: "nx b = hd (vs @ [z])" by (rule chain_next [OF assms(2)])
  show ?thesis
  proof (cases vs)
    case Nil
    then have nz: "nx b = z" using n by simp
    show ?thesis
    proof (cases us rule: rev_cases)
      case Nil
      then show ?thesis using \<open>vs = []\<close> nz p by simp
    next
      case (snoc us' u)
      have "chain nx pv a us' u" using assms(1) snoc by simp
      then have "chain (nx(pv b := nx b)) (pv(nx b := pv b)) a us' u"
        using assms snoc p nz by (subst chain_cong [where nx' = nx and pv' = pv]) auto
      then show ?thesis using snoc \<open>vs = []\<close> nz p by simp
    qed
  next
    case (Cons v vs')
    then have nv: "nx b = v" using n by simp
    have "chain nx pv v vs' z" using assms(2) Cons by simp
    moreover have "pv b \<notin> set (v # vs')" "v \<notin> set (z # vs')" using pin assms Cons by auto
    ultimately have c2: "chain (nx(pv b := nx b)) (pv(nx b := pv b)) v vs' z"
      using nv by (subst chain_cong [where nx' = nx and pv' = pv]) auto
    show ?thesis
    proof (cases us rule: rev_cases)
      case Nil
      then show ?thesis using Cons c2 nv p by simp
    next
      case (snoc us' u)
      have "chain nx pv a us' u" using assms(1) snoc by simp
      moreover have "pv b \<notin> set (a # us')" "nx b \<notin> set (u # us')" using assms snoc p nv Cons by auto
      ultimately have "chain (nx(pv b := nx b)) (pv(nx b := pv b)) a us' u"
        by (subst chain_cong [where nx' = nx and pv' = pv]) auto
      then show ?thesis using Cons c2 nv p snoc by simp
    qed
  qed
qed

lemma chain_push:
  assumes "chain nx pv h ws h" "b \<notin> set (h # ws)" "distinct ws" "h \<notin> set ws"
  shows "chain (nx(b := nx h, h := b)) (pv(b := h, nx h := b)) h (b # ws) h"
proof (cases ws)
  case Nil
  then show ?thesis using assms by simp
next
  case (Cons w ws')
  then have "nx h = w" and "chain nx pv w ws' h" using assms(1) by auto
  then have "chain (nx(b := nx h, h := b)) (pv(b := h, nx h := b)) w ws' h"
    using assms Cons by (subst chain_cong [where nx' = nx and pv' = pv]) auto
  then show ?thesis using Cons assms \<open>nx h = w\<close> by simp
qed

abbreviation nxt :: "buf list \<Rightarrow> nat \<Rightarrow> nat" where "nxt bs i \<equiv> b_next (bs ! i)"
abbreviation prv :: "buf list \<Rightarrow> nat \<Rightarrow> nat" where "prv bs i \<equiv> b_prev (bs ! i)"

definition lru_ring :: "buf list \<Rightarrow> nat list \<Rightarrow> bool" where
  "lru_ring bs xs \<longleftrightarrow> length bs = NBUF + 1 \<and> chain (nxt bs) (prv bs) BHEAD xs BHEAD \<and>
     distinct xs \<and> set xs = {..<NBUF}"

lemma length_set_links [simp]:
  "length (set_next i v bs) = length bs" "length (set_prev i v bs) = length bs"
  by (simp_all add: set_next_def set_prev_def)

lemma links_set_next: "i < length bs \<Longrightarrow> nxt (set_next i v bs) = (nxt bs)(i := v)" "prv (set_next i v bs) = prv bs"
  by (auto simp: set_next_def fun_eq_iff nth_list_upd)

lemma links_set_prev: "i < length bs \<Longrightarrow> prv (set_prev i v bs) = (prv bs)(i := v)" "nxt (set_prev i v bs) = nxt bs"
  by (auto simp: set_prev_def fun_eq_iff nth_list_upd)

text \<open>A buffer without its links.\<close>

definition unlinked :: "buf \<Rightarrow> buf" where
  "unlinked x = x\<lparr>b_prev := 0, b_next := 0\<rparr>"

lemma unlinked_upd [simp]:
  "unlinked (x\<lparr>b_next := v\<rparr>) = unlinked x" "unlinked (x\<lparr>b_prev := v\<rparr>) = unlinked x"
  by (simp_all add: unlinked_def)

lemma unlinked_links [simp]:
  "map unlinked (set_next i v bs) = map unlinked bs" "map unlinked (set_prev i v bs) = map unlinked bs"
  by (auto intro!: nth_equalityI simp: set_next_def set_prev_def nth_list_upd)

lemma unlinked_sel:
  assumes "unlinked x = unlinked y"
  shows "b_valid x = b_valid y" "b_dirty x = b_dirty y" "b_dev x = b_dev y" "b_blockno x = b_blockno y"
    "b_refcnt x = b_refcnt y" "b_data x = b_data y"
  using assms by (cases x; cases y; simp add: unlinked_def)+

lemma map_unlinked_sel:
  assumes "map unlinked bs = map unlinked bs'" "i < length bs"
  shows "b_valid (bs ! i) = b_valid (bs' ! i)" "b_dirty (bs ! i) = b_dirty (bs' ! i)"
    "b_dev (bs ! i) = b_dev (bs' ! i)" "b_blockno (bs ! i) = b_blockno (bs' ! i)"
    "b_refcnt (bs ! i) = b_refcnt (bs' ! i)" "b_data (bs ! i) = b_data (bs' ! i)"
proof -
  have "length bs = length bs'" using map_eq_imp_length_eq [OF assms(1)] .
  then have "unlinked (bs ! i) = unlinked (bs' ! i)"
    using assms by (metis nth_map)
  then show "b_valid (bs ! i) = b_valid (bs' ! i)" "b_dirty (bs ! i) = b_dirty (bs' ! i)"
    "b_dev (bs ! i) = b_dev (bs' ! i)" "b_blockno (bs ! i) = b_blockno (bs' ! i)"
    "b_refcnt (bs ! i) = b_refcnt (bs' ! i)" "b_data (bs ! i) = b_data (bs' ! i)"
    by (rule unlinked_sel)+
qed


lemma map_unlinked_move_mru [simp]: "map unlinked (move_mru b bs) = map unlinked bs"
  by (simp add: move_mru_def Let_def)

lemma length_move_mru [simp]: "length (move_mru b bs) = length bs"
  by (simp add: move_mru_def Let_def)

lemma move_mru_links:
  assumes l: "b < length bs" "BHEAD < length bs" "nxt bs b < length bs" "prv bs b < length bs"
    and ne: "nxt bs b \<noteq> b" "b \<noteq> BHEAD"
    and nx1: "nx1 = (nxt bs)(prv bs b := nxt bs b)" "nx1 BHEAD < length bs"
    and pv1: "pv1 = (prv bs)(nxt bs b := prv bs b)"
  shows "nxt (move_mru b bs) = nx1(b := nx1 BHEAD, BHEAD := b)"
    "prv (move_mru b bs) = pv1(b := BHEAD, nx1 BHEAD := b)"
proof -
  define bs1 where "bs1 = set_prev (nxt bs b) (prv bs b) bs"
  define bs2 where "bs2 = set_next (prv bs1 b) (nxt bs1 b) bs1"
  define bs3 where "bs3 = set_next b (nxt bs2 BHEAD) bs2"
  define bs4 where "bs4 = set_prev b BHEAD bs3"
  define bs5 where "bs5 = set_prev (nxt bs4 BHEAD) b bs4"
  have m: "move_mru b bs = set_next BHEAD b bs5"
    by (simp add: move_mru_def Let_def bs1_def bs2_def bs3_def bs4_def bs5_def)
  have len: "length bs1 = length bs" "length bs2 = length bs" "length bs3 = length bs"
    "length bs4 = length bs" "length bs5 = length bs"
    by (simp_all add: bs1_def bs2_def bs3_def bs4_def bs5_def)
  have p1: "prv bs1 = pv1" and n1: "nxt bs1 = nxt bs"
    using links_set_prev [where i = "nxt bs b" and bs = bs and v = "prv bs b"] l pv1 by (simp_all only: bs1_def)
  have pb: "prv bs1 b = prv bs b" using fun_cong [OF p1, of b] ne pv1 by simp
  have n2: "nxt bs2 = nx1" and p2: "prv bs2 = pv1"
    using links_set_next [where i = "prv bs b" and bs = bs1 and v = "nxt bs b"] l len n1 p1 pb nx1(1) fun_cong [OF n1, of b]
    by (simp_all only: bs2_def)
  have n3: "nxt bs3 = nx1(b := nx1 BHEAD)" and p3: "prv bs3 = pv1"
    using links_set_next [where i = b and bs = bs2 and v = "nx1 BHEAD"] l len n2 p2 fun_cong [OF n2, of BHEAD]
    by (simp_all only: bs3_def)
  have n4: "nxt bs4 = nx1(b := nx1 BHEAD)" and p4: "prv bs4 = pv1(b := BHEAD)"
    using links_set_prev [where i = b and bs = bs3 and v = BHEAD] l len n3 p3 by (simp_all only: bs4_def)
  have h4: "nxt bs4 BHEAD = nx1 BHEAD" using fun_cong [OF n4, of BHEAD] ne by simp
  have n5: "nxt bs5 = nx1(b := nx1 BHEAD)" and p5: "prv bs5 = pv1(b := BHEAD, nx1 BHEAD := b)"
    using links_set_prev [where i = "nx1 BHEAD" and bs = bs4 and v = b] nx1(2) len n4 p4 h4 by (simp_all only: bs5_def)
  show "nxt (move_mru b bs) = nx1(b := nx1 BHEAD, BHEAD := b)"
    "prv (move_mru b bs) = pv1(b := BHEAD, nx1 BHEAD := b)"
    using links_set_next [where i = BHEAD and bs = bs5 and v = b] l len n5 p5 by (simp_all only: m)
qed

lemma move_mru_ring:
  assumes r: "lru_ring bs xs" and b: "b < NBUF"
  shows "lru_ring (move_mru b bs) (b # remove1 b xs)"
proof -
  let ?nx = "nxt bs" and ?pv = "prv bs"
  have l: "length bs = NBUF + 1" and c: "chain ?nx ?pv BHEAD xs BHEAD" and d: "distinct xs"
    and st: "set xs = {..<NBUF}" using r by (auto simp: lru_ring_def)
  obtain us vs where xs: "xs = us @ b # vs" and bu: "b \<notin> set us"
    using b st by (metis lessThan_iff split_list_first)
  have hd: "BHEAD \<notin> set xs" using st by (simp add: BHEAD_def)
  have lt: "x < length bs" if "x \<in> set (BHEAD # xs)" for x
  proof -
    have "x = NBUF \<or> x \<in> {..<NBUF}" using that unfolding st [symmetric] BHEAD_def by simp
    then show ?thesis unfolding l by auto
  qed
  have c1: "chain ?nx ?pv BHEAD us b" and c2: "chain ?nx ?pv b vs BHEAD"
    using c unfolding xs by simp_all
  have pin: "?pv b \<in> set (BHEAD # us)" unfolding chain_prev [OF c1] by (rule last_in_set) simp
  have nin: "?nx b \<in> set (vs @ [BHEAD])" unfolding chain_next [OF c2] by (rule hd_in_set) simp
  have pl: "?pv b < length bs" and nl: "?nx b < length bs" and bl: "b < length bs" and hl: "BHEAD < length bs"
    using pin nin xs by (auto intro!: lt)
  have ne: "?nx b \<noteq> b" "?pv b \<noteq> b" using pin nin d hd xs by auto
  define nx1 where "nx1 = ?nx(?pv b := ?nx b)"
  define pv1 where "pv1 = ?pv(?nx b := ?pv b)"
  have j: "chain nx1 pv1 BHEAD (us @ vs) BHEAD" unfolding nx1_def pv1_def
    by (rule chain_join [OF c1 c2]) (use d hd xs b in \<open>auto simp: BHEAD_def\<close>)
  have p: "chain (nx1(b := nx1 BHEAD, BHEAD := b)) (pv1(b := BHEAD, nx1 BHEAD := b)) BHEAD (b # us @ vs) BHEAD"
    by (rule chain_push [OF j]) (use d hd xs b in \<open>auto simp: BHEAD_def\<close>)
  have "nx1 BHEAD \<in> set ((us @ vs) @ [BHEAD])"
    unfolding chain_next [OF j] by (rule hd_in_set) simp
  then have "nx1 BHEAD \<in> set (BHEAD # xs)" using xs by auto
  then have nh: "nx1 BHEAD < length bs" by (rule lt)
  have m: "nxt (move_mru b bs) = nx1(b := nx1 BHEAD, BHEAD := b)"
    "prv (move_mru b bs) = pv1(b := BHEAD, nx1 BHEAD := b)"
    using b by (rule_tac [!] move_mru_links [OF bl hl nl pl ne(1) _ nx1_def nh pv1_def]) (simp_all add: BHEAD_def)
  have "remove1 b xs = us @ vs" using xs bu by (simp add: remove1_append)
  then show ?thesis unfolding lru_ring_def m
    using p l d st xs by auto
qed

lemma push_links:
  assumes l: "b < length bs" "BHEAD < length bs" "nxt bs BHEAD < length bs" and ne: "b \<noteq> BHEAD"
    and bs': "bs' = set_prev b BHEAD (set_next b (nxt bs BHEAD) bs)"
  shows "nxt (set_next BHEAD b (set_prev (nxt bs' BHEAD) b bs')) = (nxt bs)(b := nxt bs BHEAD, BHEAD := b)"
    "prv (set_next BHEAD b (set_prev (nxt bs' BHEAD) b bs')) = (prv bs)(b := BHEAD, nxt bs BHEAD := b)"
proof -
  define bs1 where "bs1 = set_next b (nxt bs BHEAD) bs"
  have l1: "length bs1 = length bs" "length bs' = length bs" by (simp_all add: bs1_def bs')
  have e: "bs' = set_prev b BHEAD bs1" by (simp add: bs1_def bs')
  have n1: "nxt bs1 = (nxt bs)(b := nxt bs BHEAD)" "prv bs1 = prv bs"
    using links_set_next [where i = b and bs = bs and v = "nxt bs BHEAD"] l by (simp_all only: bs1_def)
  have n2: "nxt bs' = (nxt bs)(b := nxt bs BHEAD)" "prv bs' = (prv bs)(b := BHEAD)"
    using links_set_prev [where i = b and bs = bs1 and v = BHEAD] n1 l l1 by (simp_all only: e)
  have h: "nxt bs' BHEAD = nxt bs BHEAD" using fun_cong [OF n2(1), of BHEAD] ne by simp
  define bs2 where "bs2 = set_prev (nxt bs BHEAD) b bs'"
  have n3: "nxt bs2 = (nxt bs)(b := nxt bs BHEAD)" "prv bs2 = (prv bs)(b := BHEAD, nxt bs BHEAD := b)"
    using links_set_prev [where i = "nxt bs BHEAD" and bs = bs' and v = b] n2 l l1 by (simp_all only: bs2_def)
  have l2: "length bs2 = length bs" by (simp add: bs2_def l1)
  show "nxt (set_next BHEAD b (set_prev (nxt bs' BHEAD) b bs')) = (nxt bs)(b := nxt bs BHEAD, BHEAD := b)"
    "prv (set_next BHEAD b (set_prev (nxt bs' BHEAD) b bs')) = (prv bs)(b := BHEAD, nxt bs BHEAD := b)"
    using links_set_next [where i = BHEAD and bs = bs2 and v = b] n3 l l2
    by (simp_all only: h bs2_def [symmetric])
qed

text \<open>After \<^verbatim>\<open>binit\<close> the list holds every buffer, the last one first, and all their locks are free.\<close>

definition binit_upto :: "nat \<Rightarrow> 'x kbio_scheme \<Rightarrow> 'x kbio_scheme \<Rightarrow> bool" where
  "binit_upto i s t \<longleftrightarrow> length (bufs t) = NBUF + 1 \<and> map unlinked (bufs t) = map unlinked (bufs s) \<and>
     chain (nxt (bufs t)) (prv (bufs t)) BHEAD (rev [0..<i]) BHEAD \<and>
     (\<forall>j < i. slk t (SBuf j) = \<lparr>sl_locked = False, sl_pid = 0\<rparr>) \<and>
     (\<exists>sl bs. t = s\<lparr>slk := sl, bufs := bs\<rparr>)"

lemma binit_link_step:
  assumes t: "binit_upto i s t" and i: "i < NBUF"
  shows "runs (binit_link i) t (\<lambda>_. binit_upto (Suc i) s)"
proof -
  let ?bs = "bufs t"
  define bs' where "bs' = set_prev i BHEAD (set_next i (nxt ?bs BHEAD) ?bs)"
  define bs2 where "bs2 = set_next BHEAD i (set_prev (nxt bs' BHEAD) i bs')"
  have l: "length ?bs = NBUF + 1" and c: "chain (nxt ?bs) (prv ?bs) BHEAD (rev [0..<i]) BHEAD"
    and e: "\<exists>sl bs. t = s\<lparr>slk := sl, bufs := bs\<rparr>" using t by (auto simp: binit_upto_def)
  have h: "nxt ?bs BHEAD \<in> set (rev [0..<i] @ [BHEAD])"
    unfolding chain_next [OF c] by (rule hd_in_set) simp
  have b: "i < length ?bs" "BHEAD < length ?bs" "nxt ?bs BHEAD < length ?bs" "i \<noteq> BHEAD"
    using h i by (auto simp: l BHEAD_def)
  have c2: "chain (nxt bs2) (prv bs2) BHEAD (i # rev [0..<i]) BHEAD"
    unfolding bs2_def push_links [OF b bs'_def]
    by (rule chain_push [OF c]) (use i in \<open>auto simp: BHEAD_def\<close>)
  have u: "map unlinked bs2 = map unlinked ?bs" by (simp add: bs2_def bs'_def)
  have l2: "length bs2 = NBUF + 1" using l by (simp add: bs2_def bs'_def)
  have r: "runs (binit_link i) t Q =
      Q () (upd_slk (SBuf i) \<lparr>sl_locked = False, sl_pid = 0\<rparr> (t\<lparr>bufs := bs2\<rparr>))" for Q
    by (simp add: binit_link_def initsleeplock_def upd_slk_def bs2_def bs'_def)
  let ?t' = "upd_slk (SBuf i) \<lparr>sl_locked = False, sl_pid = 0\<rparr> (t\<lparr>bufs := bs2\<rparr>)"
  have e': "\<exists>sl bs. ?t' = s\<lparr>slk := sl, bufs := bs\<rparr>" using e by (elim exE) (simp add: upd_slk_def, blast)
  have k: "\<forall>j < Suc i. slk ?t' (SBuf j) = \<lparr>sl_locked = False, sl_pid = 0\<rparr>"
    using t by (simp add: binit_upto_def upd_slk_def less_Suc_eq)
  have bf: "bufs ?t' = bs2" by (simp add: upd_slk_def)
  have rv: "rev [0..<Suc i] = i # rev [0..<i]" by simp
  have us: "map unlinked (bufs t) = map unlinked (bufs s)" using t by (simp add: binit_upto_def)
  show ?thesis unfolding r binit_upto_def bf rv using k e' c2 l2 us u by metis
qed

lemma binit_runs:
  assumes "length (bufs s) = NBUF + 1"
  shows "runs binit s (\<lambda>_. binit_upto NBUF s)"
proof -
  define bs where "bs = set_next BHEAD BHEAD (set_prev BHEAD BHEAD (bufs s))"
  have h: "BHEAD < length (bufs s)" using assms by (simp add: BHEAD_def)
  have "nxt bs BHEAD = BHEAD" "prv bs BHEAD = BHEAD"
    using h by (simp_all add: bs_def set_next_def set_prev_def)
  then have "binit_upto 0 s (s\<lparr>bufs := bs\<rparr>)"
    using assms unfolding binit_upto_def
    by (simp add: bs_def) (intro exI [of _ "slk s"] exI [of _ bs], simp add: bs_def)
  then have "runs (kfor binit_link [0..<NBUF]) (s\<lparr>bufs := bs\<rparr>) (\<lambda>_. binit_upto NBUF s)"
    by (rule runs_kfor_upt [OF le0]) (auto intro: binit_link_step)
  then show ?thesis by (simp add: binit_def bs_def)
qed

section \<open>The traversals\<close>

lemma scan_next_eq:
  assumes "chain (nxt (bufs s)) (prv (bufs s)) a xs BHEAD" "BHEAD \<notin> set xs" "length xs < k"
  shows "scan_next k P (nxt (bufs s) a) s = Ok (List.find (\<lambda>i. P (bufs s ! i)) xs) s"
  using assms
proof (induction xs arbitrary: a k)
  case Nil
  then show ?case by (cases k) (auto simp: kop_defs)
next
  case (Cons x xs)
  obtain k' where k: "k = Suc k'" using Cons.prems by (cases k) auto
  have nx: "nxt (bufs s) a = x" and c: "chain (nxt (bufs s)) (prv (bufs s)) x xs BHEAD"
    using Cons.prems by simp_all
  have "scan_next k' P (nxt (bufs s) x) s = Ok (List.find (\<lambda>i. P (bufs s ! i)) xs) s"
    by (rule Cons.IH [OF c]) (use Cons.prems k in simp_all)
  then show ?case unfolding nx using Cons.prems k by (simp add: kdo_def kop_defs)
qed

lemma chain_rev: "chain nx pv a xs z \<Longrightarrow> chain pv nx z (rev xs) a"
  by (induction xs arbitrary: a) auto

lemma scan_prev_eq:
  assumes "chain (prv (bufs s)) (nxt (bufs s)) a xs BHEAD" "BHEAD \<notin> set xs" "length xs < k"
  shows "scan_prev k P (prv (bufs s) a) s = Ok (List.find (\<lambda>i. P (bufs s ! i)) xs) s"
  using assms
proof (induction xs arbitrary: a k)
  case Nil
  then show ?case by (cases k) (auto simp: kop_defs)
next
  case (Cons x xs)
  obtain k' where k: "k = Suc k'" using Cons.prems by (cases k) auto
  have nx: "prv (bufs s) a = x" and c: "chain (prv (bufs s)) (nxt (bufs s)) x xs BHEAD"
    using Cons.prems by simp_all
  have "scan_prev k' P (prv (bufs s) x) s = Ok (List.find (\<lambda>i. P (bufs s ! i)) xs) s"
    by (rule Cons.IH [OF c]) (use Cons.prems k in simp_all)
  then show ?case unfolding nx using Cons.prems k by (simp add: kdo_def kop_defs)
qed

lemma lru_ringD:
  assumes "lru_ring bs xs"
  shows "length bs = NBUF + 1" "chain (nxt bs) (prv bs) BHEAD xs BHEAD" "distinct xs" "set xs = {..<NBUF}"
    "BHEAD \<notin> set xs" "length xs = NBUF"
proof -
  show 1: "length bs = NBUF + 1" "chain (nxt bs) (prv bs) BHEAD xs BHEAD" "distinct xs" "set xs = {..<NBUF}"
    using assms by (simp_all add: lru_ring_def)
  show "BHEAD \<notin> set xs" unfolding 1 BHEAD_def by simp
  show "length xs = NBUF" using distinct_card [OF 1(3)] unfolding 1 by simp
qed

lemma runs_scan_next:
  assumes "lru_ring (bufs s) xs"
  shows "runs (scan_next (NBUF + 1) P (nxt (bufs s) BHEAD)) s Q = Q (List.find (\<lambda>i. P (bufs s ! i)) xs) s"
  using scan_next_eq [of s BHEAD xs "NBUF + 1" P] lru_ringD [OF assms] by (simp add: runs_def)

lemma runs_scan_prev:
  assumes "lru_ring (bufs s) xs"
  shows "runs (scan_prev (NBUF + 1) P (prv (bufs s) BHEAD)) s Q = Q (List.find (\<lambda>i. P (bufs s ! i)) (rev xs)) s"
  using scan_prev_eq [of s BHEAD "rev xs" "NBUF + 1" P] lru_ringD [OF assms] chain_rev by (simp add: runs_def)

section \<open>Views and invariant\<close>

definition cached :: "'x kbio_scheme \<Rightarrow> nat \<Rightarrow> nat \<Rightarrow> bool" where
  "cached s n i \<longleftrightarrow> i < NBUF \<and> b_dev (bufs s ! i) = 1 \<and> b_blockno (bufs s ! i) = n"

definition blk :: "'x kbio_scheme \<Rightarrow> nat \<Rightarrow> u8 list" where
  "blk s n = (case List.find (\<lambda>i. cached s n i \<and> b_valid (bufs s ! i)) [0..<NBUF] of
     Some i \<Rightarrow> b_data (bufs s ! i) | None \<Rightarrow> memdisk s n)"

definition opens :: "'x kbio_scheme \<Rightarrow> nat \<Rightarrow> nat option" where
  "opens s n = List.find (\<lambda>i. cached s n i \<and> b_valid (bufs s ! i) \<and> b_refcnt (bufs s ! i) = 1 \<and>
     holds s (SBuf i)) [0..<NBUF]"

definition busy :: "'x kbio_scheme \<Rightarrow> nat set" where
  "busy s = {n. \<exists>i. cached s n i \<and> b_refcnt (bufs s ! i) \<noteq> 0}"

definition dset :: "'x kbio_scheme \<Rightarrow> nat set" where
  "dset s = {n. \<exists>i. cached s n i \<and> b_dirty (bufs s ! i)}"

definition buf_ok :: "nat \<Rightarrow> (nat \<Rightarrow> u8 list) \<Rightarrow> bool \<Rightarrow> buf \<Rightarrow> bool" where
  "buf_ok dsz d lk x \<longleftrightarrow> length (b_data x) = BSIZE \<and>
     (b_dev x = 1 \<and> b_blockno x < dsz \<or> b_dev x = 0 \<and> b_refcnt x = 0 \<and> \<not> b_dirty x) \<and>
     (b_refcnt x = 0 \<longrightarrow> \<not> lk) \<and>
     (b_dev x = 1 \<and> b_valid x \<and> \<not> b_dirty x \<and> b_refcnt x = 0 \<longrightarrow> b_data x = d (b_blockno x)) \<and>
     (b_dirty x \<longrightarrow> b_valid x)"

definition bc_inv :: "'x kbio_scheme \<Rightarrow> bool" where
  "bc_inv s \<longleftrightarrow> (\<exists>xs. lru_ring (bufs s) xs) \<and>
     (\<forall>i < NBUF. buf_ok (disksize s) (memdisk s) (sl_locked (slk s (SBuf i))) (bufs s ! i)) \<and>
     (\<forall>n i j. cached s n i \<longrightarrow> cached s n j \<longrightarrow> i = j) \<and>
     (\<forall>n < disksize s. length (memdisk s n) = BSIZE)"

lemma bc_invD:
  assumes "bc_inv s"
  shows "\<exists>xs. lru_ring (bufs s) xs" "length (bufs s) = NBUF + 1"
    "i < NBUF \<Longrightarrow> buf_ok (disksize s) (memdisk s) (sl_locked (slk s (SBuf i))) (bufs s ! i)"
    "cached s n i \<Longrightarrow> cached s n j \<Longrightarrow> i = j"
    "n < disksize s \<Longrightarrow> length (memdisk s n) = BSIZE"
  using assms by (auto simp: bc_inv_def dest: lru_ringD(1))

lemma cached_lt: "cached s n i \<Longrightarrow> i < NBUF"
  by (simp add: cached_def)

lemma find_unique:
  assumes "\<And>i j. P i \<Longrightarrow> P j \<Longrightarrow> i = j" "P k" "k < n"
  shows "List.find P [0..<n] = Some k"
  using assms by (auto simp: find_upt_Some)

lemma blk_valid:
  assumes "bc_inv s" "cached s n i" "b_valid (bufs s ! i)"
  shows "blk s n = b_data (bufs s ! i)"
proof -
  have "List.find (\<lambda>i. cached s n i \<and> b_valid (bufs s ! i)) [0..<NBUF] = Some i"
    by (rule find_unique) (use assms bc_invD(4) [OF assms(1)] cached_lt in auto)
  then show ?thesis by (simp add: blk_def)
qed

lemma blk_disk: "(\<And>i. cached s n i \<Longrightarrow> \<not> b_valid (bufs s ! i)) \<Longrightarrow> blk s n = memdisk s n"
proof -
  assume "\<And>i. cached s n i \<Longrightarrow> \<not> b_valid (bufs s ! i)"
  then have "List.find (\<lambda>i. cached s n i \<and> b_valid (bufs s ! i)) [0..<NBUF] = None"
    by (auto simp: find_upt_None)
  then show ?thesis by (simp add: blk_def)
qed

lemma opens_iff:
  assumes "bc_inv s"
  shows "opens s n = Some i \<longleftrightarrow> cached s n i \<and> b_valid (bufs s ! i) \<and> b_refcnt (bufs s ! i) = 1 \<and> holds s (SBuf i)"
    (is "_ \<longleftrightarrow> ?P i")
proof
  assume "opens s n = Some i"
  then show "?P i" by (simp add: opens_def find_upt_Some)
next
  assume i: "?P i"
  have "List.find ?P [0..<NBUF] = Some i"
    by (rule find_unique) (use i bc_invD(4) [OF assms] cached_lt in auto)
  then show "opens s n = Some i" by (simp add: opens_def)
qed

text \<open>A block whose buffer is neither referenced nor pinned is the block on disk.\<close>

lemma blk_clean:
  assumes inv: "bc_inv s" and n: "n \<notin> busy s" "n \<notin> dset s"
  shows "blk s n = memdisk s n"
proof (cases "\<exists>i. cached s n i \<and> b_valid (bufs s ! i)")
  case True
  then obtain i where i: "cached s n i" "b_valid (bufs s ! i)" by blast
  have "b_refcnt (bufs s ! i) = 0" "\<not> b_dirty (bufs s ! i)" using i n by (auto simp: busy_def dset_def)
  then have "b_data (bufs s ! i) = memdisk s n"
    using bc_invD(3) [OF inv cached_lt [OF i(1)]] i by (simp add: buf_ok_def cached_def)
  then show ?thesis using blk_valid [OF inv i] by simp
next
  case False
  then show ?thesis by (intro blk_disk) blast
qed

lemma length_blk:
  assumes inv: "bc_inv s" and n: "n < disksize s"
  shows "length (blk s n) = BSIZE"
proof (cases "\<exists>i. cached s n i \<and> b_valid (bufs s ! i)")
  case True
  then obtain i where i: "cached s n i" "b_valid (bufs s ! i)" by blast
  then show ?thesis
    using blk_valid [OF inv i] bc_invD(3) [OF inv cached_lt [OF i(1)]] by (simp add: buf_ok_def)
next
  case False
  then have "blk s n = memdisk s n" by (intro blk_disk) blast
  then show ?thesis using bc_invD(5) [OF inv n] by simp
qed

lemma dset_cached:
  assumes "bc_inv s" "cached s n i"
  shows "n \<in> dset s \<longleftrightarrow> b_dirty (bufs s ! i)"
proof
  assume "n \<in> dset s"
  then obtain j where "cached s n j" "b_dirty (bufs s ! j)" unfolding dset_def by blast
  then show "b_dirty (bufs s ! i)" using bc_invD(4) [OF assms(1), of n i j] assms(2) by simp
qed (use assms(2) in \<open>auto simp: dset_def\<close>)

lemma finite_views: "finite (busy s)" "finite (dset s)"
proof -
  have "busy s \<subseteq> (\<lambda>i. b_blockno (bufs s ! i)) ` {..<NBUF}"
    "dset s \<subseteq> (\<lambda>i. b_blockno (bufs s ! i)) ` {..<NBUF}"
    by (auto simp: busy_def dset_def cached_def)
  then show "finite (busy s)" "finite (dset s)" using finite_surj finite_lessThan by metis+
qed

section \<open>Replacing one buffer\<close>

text \<open>
  Every operation changes one buffer \<open>i\<close>, its lock, and possibly the disk block it stands for.
  \<open>buf_step\<close> says so; the new buffer \<open>x\<close> either stands for the same block as before or replaces
  a buffer nobody uses.
\<close>

definition buf_step :: "'x kbio_scheme \<Rightarrow> 'x kbio_scheme \<Rightarrow> nat \<Rightarrow> buf \<Rightarrow> sleeplock \<Rightarrow> u8 list \<Rightarrow> bool" where
  "buf_step s t i x l e \<longleftrightarrow> i < NBUF \<and> bufs t = (bufs s)[i := x] \<and>
     slk t = (slk s)(SBuf i := l) \<and> memdisk t = (memdisk s)(b_blockno x := e) \<and>
     disksize t = disksize s \<and> cur_pid t = cur_pid s \<and>
     b_next x = nxt (bufs s) i \<and> b_prev x = prv (bufs s) i \<and> b_dev x = 1 \<and> length e = BSIZE \<and>
     buf_ok (disksize s) ((memdisk s)(b_blockno x := e)) (sl_locked l) x \<and>
     (\<forall>j. cached s (b_blockno x) j \<longrightarrow> j = i) \<and>
     (cached s (b_blockno x) i \<or> b_refcnt (bufs s ! i) = 0 \<and> \<not> b_dirty (bufs s ! i))"

lemma lru_ring_upd:
  assumes "lru_ring bs xs" "b_next x = nxt bs i" "b_prev x = prv bs i"
  shows "lru_ring (bs[i := x]) xs"
proof -
  have "nxt (bs[i := x]) = nxt bs" "prv (bs[i := x]) = prv bs"
    using assms(2,3) by (auto simp: fun_eq_iff nth_list_upd)
  then show ?thesis using assms(1) by (simp add: lru_ring_def)
qed

lemma buf_step_nth:
  assumes "bc_inv s" "buf_step s t i x l e"
  shows "bufs t ! i = x" "j \<noteq> i \<Longrightarrow> bufs t ! j = bufs s ! j"
    "cached t m j \<longleftrightarrow> (if j = i then m = b_blockno x else cached s m j)"
  using assms(2) bc_invD(2) [OF assms(1)] by (auto simp: buf_step_def cached_def)

lemma buf_step_inv:
  assumes inv: "bc_inv s" and st: "buf_step s t i x l e"
  shows "bc_inv t"
proof -
  note nth = buf_step_nth [OF inv st]
  obtain xs where "lru_ring (bufs s) xs" using bc_invD(1) [OF inv] by blast
  then have r: "lru_ring (bufs t) xs" using st by (simp add: buf_step_def lru_ring_upd)
  have ok: "buf_ok (disksize t) (memdisk t) (sl_locked (slk t (SBuf j))) (bufs t ! j)" if j: "j < NBUF" for j
  proof (cases "j = i")
    case True
    then show ?thesis using st nth(1) by (simp add: buf_step_def)
  next
    case False
    have s: "buf_ok (disksize s) (memdisk s) (sl_locked (slk s (SBuf j))) (bufs s ! j)"
      by (rule bc_invD(3) [OF inv j])
    have "b_dev (bufs s ! j) = 1 \<Longrightarrow> b_blockno (bufs s ! j) \<noteq> b_blockno x"
      using st j False by (auto simp: buf_step_def cached_def)
    then show ?thesis using s False st nth(2) [OF False] by (auto simp: buf_ok_def buf_step_def)
  qed
  have u: "\<forall>n i j. cached t n i \<longrightarrow> cached t n j \<longrightarrow> i = j"
    unfolding nth(3) using st bc_invD(4) [OF inv] by (auto simp: buf_step_def)
  have d: "\<forall>n < disksize t. length (memdisk t n) = BSIZE"
    using st bc_invD(5) [OF inv] by (auto simp: buf_step_def)
  show ?thesis unfolding bc_inv_def using r ok u d by blast
qed

lemma buf_step_old:
  assumes inv: "bc_inv s" and st: "buf_step s t i x l e" and m: "cached s m i" "m \<noteq> b_blockno x"
  shows "b_refcnt (bufs s ! i) = 0" "\<not> b_dirty (bufs s ! i)" "b_valid (bufs s ! i) \<Longrightarrow> b_data (bufs s ! i) = memdisk s m"
proof -
  show 1: "b_refcnt (bufs s ! i) = 0" "\<not> b_dirty (bufs s ! i)" using st m by (auto simp: buf_step_def cached_def)
  show "b_data (bufs s ! i) = memdisk s m" if "b_valid (bufs s ! i)"
    using bc_invD(3) [OF inv cached_lt [OF m(1)]] m 1 that by (simp add: buf_ok_def cached_def)
qed

lemma buf_step_blk:
  assumes inv: "bc_inv s" and st: "buf_step s t i x l e"
  shows "blk t = (blk s)(b_blockno x := (if b_valid x then b_data x else e))"
proof
  fix m
  note nth = buf_step_nth [OF inv st] and invt = buf_step_inv [OF inv st]
  show "blk t m = ((blk s)(b_blockno x := (if b_valid x then b_data x else e))) m"
  proof (cases "m = b_blockno x")
    case True
    show ?thesis
    proof (cases "b_valid x")
      case v: True
      then show ?thesis using blk_valid [OF invt, of m i] True nth by simp
    next
      case nv: False
      have "blk t m = memdisk t m"
        by (rule blk_disk) (use nth nv st True in \<open>auto simp: buf_step_def split: if_splits\<close>)
      then show ?thesis using nv True st by (simp add: buf_step_def)
    qed
  next
    case m: False
    have md: "memdisk t m = memdisk s m" using st m by (simp add: buf_step_def)
    show ?thesis
    proof (cases "\<exists>j. cached s m j \<and> b_valid (bufs s ! j)")
      case True
      then obtain j where j: "cached s m j" "b_valid (bufs s ! j)" by blast
      show ?thesis
      proof (cases "j = i")
        case False
        then have "cached t m j" "bufs t ! j = bufs s ! j" using nth j by auto
        then show ?thesis using blk_valid [OF inv j] blk_valid [OF invt, of m j] j m by simp
      next
        case True
        have no: "\<not> cached t m k" for k using nth(3) m True bc_invD(4) [OF inv j(1)] by auto
        have "blk s m = memdisk s m" using buf_step_old [OF inv st] j True m blk_valid [OF inv j] by simp
        then show ?thesis using blk_disk [of t m] no md m by simp
      qed
    next
      case False
      then have "blk s m = memdisk s m" by (intro blk_disk) blast
      moreover have "blk t m = memdisk t m" by (rule blk_disk) (use nth False m in \<open>auto split: if_splits\<close>)
      ultimately show ?thesis using md m by simp
    qed
  qed
qed

lemma buf_step_busy:
  assumes inv: "bc_inv s" and st: "buf_step s t i x l e"
  shows "busy t = (if b_refcnt x = 0 then busy s - {b_blockno x} else insert (b_blockno x) (busy s))"
proof -
  note nth = buf_step_nth [OF inv st]
  have "m \<in> busy t \<longleftrightarrow> (if m = b_blockno x then b_refcnt x \<noteq> 0 else m \<in> busy s)" for m
  proof (cases "m = b_blockno x")
    case True
    have "cached t m j \<longleftrightarrow> j = i" for j using nth(3) True st by (auto simp: buf_step_def)
    then show ?thesis using True nth(1) by (auto simp: busy_def)
  next
    case False
    have "cached t m j \<and> b_refcnt (bufs t ! j) \<noteq> 0 \<longleftrightarrow> cached s m j \<and> b_refcnt (bufs s ! j) \<noteq> 0" for j
      using False nth(2) [of j] nth(3) [of m j] buf_step_old(1) [OF inv st] by (cases "j = i") auto
    then show ?thesis using False by (simp add: busy_def)
  qed
  then show ?thesis by (simp add: set_eq_iff)
qed

lemma buf_step_dset:
  assumes inv: "bc_inv s" and st: "buf_step s t i x l e"
  shows "dset t = (if b_dirty x then insert (b_blockno x) (dset s) else dset s - {b_blockno x})"
proof -
  note nth = buf_step_nth [OF inv st]
  have "m \<in> dset t \<longleftrightarrow> (if m = b_blockno x then b_dirty x else m \<in> dset s)" for m
  proof (cases "m = b_blockno x")
    case True
    have "cached t m j \<longleftrightarrow> j = i" for j using nth(3) True st by (auto simp: buf_step_def)
    then show ?thesis using True nth(1) by (auto simp: dset_def)
  next
    case False
    have "cached t m j \<and> b_dirty (bufs t ! j) \<longleftrightarrow> cached s m j \<and> b_dirty (bufs s ! j)" for j
      using False nth(2) [of j] nth(3) [of m j] buf_step_old(2) [OF inv st] by (cases "j = i") auto
    then show ?thesis using False by (simp add: dset_def)
  qed
  then show ?thesis by (simp add: set_eq_iff)
qed

lemma buf_step_opens:
  assumes inv: "bc_inv s" and st: "buf_step s t i x l e"
  shows "opens t = (opens s)(b_blockno x :=
     (if b_valid x \<and> b_refcnt x = 1 \<and> sl_locked l \<and> sl_pid l = cur_pid s then Some i else None))"
proof
  fix m
  note nth = buf_step_nth [OF inv st] and invt = buf_step_inv [OF inv st]
  have hl: "holds t (SBuf j) \<longleftrightarrow> (if j = i then sl_locked l \<and> sl_pid l = cur_pid s else holds s (SBuf j))" for j
    using st by (auto simp: holds_def buf_step_def)
  have "opens t m = Some j \<longleftrightarrow> ((opens s)(b_blockno x :=
     (if b_valid x \<and> b_refcnt x = 1 \<and> sl_locked l \<and> sl_pid l = cur_pid s then Some i else None))) m = Some j" for j
  proof (cases "m = b_blockno x")
    case True
    have "cached t m j \<longleftrightarrow> j = i" for j using nth(3) True st by (auto simp: buf_step_def)
    then show ?thesis unfolding opens_iff [OF invt] using True nth(1) hl by auto
  next
    case False
    have "cached t m j \<and> b_valid (bufs t ! j) \<and> b_refcnt (bufs t ! j) = 1 \<and> holds t (SBuf j) \<longleftrightarrow>
        cached s m j \<and> b_valid (bufs s ! j) \<and> b_refcnt (bufs s ! j) = 1 \<and> holds s (SBuf j)"
      using False nth(2) [of j] nth(3) [of m j] hl [of j] buf_step_old(1) [OF inv st, of m] by (cases "j = i") auto
    then show ?thesis using False by (simp add: opens_iff [OF inv] opens_iff [OF invt])
  qed
  then show "opens t m = ((opens s)(b_blockno x :=
     (if b_valid x \<and> b_refcnt x = 1 \<and> sl_locked l \<and> sl_pid l = cur_pid s then Some i else None))) m"
    by (rule option_eqI)
qed

lemmas buf_step_views = buf_step_inv buf_step_blk buf_step_busy buf_step_dset buf_step_opens

section \<open>The operations\<close>

record cview =
  c_blk :: "nat \<Rightarrow> u8 list"
  c_dsk :: "nat \<Rightarrow> u8 list"
  c_wr :: "(nat \<times> u8 list) list"
  c_open :: "nat \<Rightarrow> nat option"
  c_busy :: "nat set"
  c_dirty :: "nat set"
  c_size :: nat

definition cv :: "'x kbio_scheme \<Rightarrow> cview" where
  "cv s = \<lparr>c_blk = blk s, c_dsk = memdisk s, c_wr = dwrites s, c_open = opens s, c_busy = busy s,
     c_dirty = dset s, c_size = disksize s\<rparr>"

definition bio_frame :: "'x kbio_scheme \<Rightarrow> 'x kbio_scheme \<Rightarrow> bool" where
  "bio_frame s t \<longleftrightarrow> (\<exists>ps sl d w bs. t = s\<lparr>procs := ps, slk := sl, memdisk := d, dwrites := w, bufs := bs\<rparr> \<and>
     pstatic ps = pstatic (procs s) \<and> (\<forall>i. sl (SInode i) = slk s (SInode i)))"

definition bthread :: "'x kbio_scheme \<Rightarrow> bool" where
  "bthread s \<longleftrightarrow> kthread s \<and> bc_inv s"

lemma bio_frame_refl [simp]: "bio_frame s s"
  unfolding bio_frame_def
  by (intro exI [of _ "procs s"] exI [of _ "slk s"] exI [of _ "memdisk s"] exI [of _ "dwrites s"] exI [of _ "bufs s"]) simp

lemma bio_frameI:
  assumes "t = s\<lparr>procs := ps, slk := sl, memdisk := d, dwrites := w, bufs := bs\<rparr>"
    "pstatic ps = pstatic (procs s)" "\<And>i. sl (SInode i) = slk s (SInode i)"
  shows "bio_frame s t"
  using assms unfolding bio_frame_def by blast

lemma bio_frame_trans:
  assumes "bio_frame s t" "bio_frame t u"
  shows "bio_frame s u"
proof -
  obtain ps sl d w bs where t: "t = s\<lparr>procs := ps, slk := sl, memdisk := d, dwrites := w, bufs := bs\<rparr>"
    "pstatic ps = pstatic (procs s)" "\<forall>i. sl (SInode i) = slk s (SInode i)"
    using assms(1) unfolding bio_frame_def by blast
  obtain ps' sl' d' w' bs' where u: "u = t\<lparr>procs := ps', slk := sl', memdisk := d', dwrites := w', bufs := bs'\<rparr>"
    "pstatic ps' = pstatic (procs t)" "\<forall>i. sl' (SInode i) = slk t (SInode i)"
    using assms(2) unfolding bio_frame_def by blast
  show ?thesis
    by (rule bio_frameI [where ps = ps' and sl = sl' and d = d' and w = w' and bs = bs']) (use t u in simp_all)
qed

lemma bio_frame_thread:
  assumes "bio_frame s t" "kthread s"
  shows "kthread t" "cur_pid t = cur_pid s"
proof -
  obtain ps sl d w bs where t: "t = s\<lparr>procs := ps, slk := sl, memdisk := d, dwrites := w, bufs := bs\<rparr>"
    "pstatic ps = pstatic (procs s)" using assms(1) unfolding bio_frame_def by blast
  obtain i where i: "length (procs s) = NPROC" "held s = []" "cpu_proc s = Some i" "i < NPROC"
    using assms(2) by (rule kthreadD)
  show "kthread t" using t i pstatic_length [OF t(2)] by (simp add: kthread_def)
  show "cur_pid t = cur_pid s" using t i pstatic_pid [OF t(2), of i] pstatic_length [OF t(2)] by (simp add: cur_pid_def)
qed

text \<open>A buffer the process has open, and how to conclude from the step on it.\<close>

lemma openedD:
  assumes "bc_inv s" "opens s n = Some i"
  shows "i < NBUF" "i < length (bufs s)" "cached s n i" "b_valid (bufs s ! i)" "b_refcnt (bufs s ! i) = 1"
    "holds s (SBuf i)" "b_dev (bufs s ! i) = 1" "b_blockno (bufs s ! i) = n" "n < disksize s"
    "b_data (bufs s ! i) = blk s n" "length (b_data (bufs s ! i)) = BSIZE" "n \<in> busy s"
proof -
  have o: "cached s n i \<and> b_valid (bufs s ! i) \<and> b_refcnt (bufs s ! i) = 1 \<and> holds s (SBuf i)"
    using assms(2) unfolding opens_iff [OF assms(1)] .
  then show 1: "cached s n i" "b_valid (bufs s ! i)" "b_refcnt (bufs s ! i) = 1" "holds s (SBuf i)" by simp_all
  show i: "i < NBUF" "b_dev (bufs s ! i) = 1" "b_blockno (bufs s ! i) = n" using 1 by (simp_all add: cached_def)
  show "i < length (bufs s)" using i bc_invD(2) [OF assms(1)] by simp
  show "b_data (bufs s ! i) = blk s n" using blk_valid [OF assms(1)] 1 by simp
  show "n < disksize s" "length (b_data (bufs s ! i)) = BSIZE"
    using bc_invD(3) [OF assms(1) i(1)] i by (auto simp: buf_ok_def)
  show "n \<in> busy s" using 1 by (auto simp: busy_def)
qed

lemma buf_step_same:
  assumes inv: "bc_inv s" and o: "opens s n = Some i" and t: "bufs t = (bufs s)[i := x]"
    "slk t = slk s" "memdisk t = (memdisk s)(n := e)" "disksize t = disksize s" "cur_pid t = cur_pid s"
    and x: "b_next x = nxt (bufs s) i" "b_prev x = prv (bufs s) i" "b_dev x = 1" "b_blockno x = n"
    "b_refcnt x = 1" "b_valid x" "length (b_data x) = BSIZE" "length e = BSIZE"
  shows "buf_step s t i x (slk s (SBuf i)) e"
  using t x openedD [OF inv o] bc_invD(4) [OF inv] by (auto simp: buf_step_def buf_ok_def)

lemma thread_upd [simp]:
  "kthread (s\<lparr>slk := sl\<rparr>) = kthread s" "kthread (s\<lparr>memdisk := d\<rparr>) = kthread s"
  "kthread (s\<lparr>dwrites := w\<rparr>) = kthread s" "kthread (s\<lparr>bufs := bs\<rparr>) = kthread s"
  "cur_pid (s\<lparr>slk := sl\<rparr>) = cur_pid s" "cur_pid (s\<lparr>memdisk := d\<rparr>) = cur_pid s"
  "cur_pid (s\<lparr>dwrites := w\<rparr>) = cur_pid s" "cur_pid (s\<lparr>bufs := bs\<rparr>) = cur_pid s"
  "holds (s\<lparr>memdisk := d\<rparr>) l = holds s l" "holds (s\<lparr>dwrites := w\<rparr>) l = holds s l"
  "holds (s\<lparr>bufs := bs\<rparr>) l = holds s l"
  by (simp_all add: kthread_def cur_pid_def holds_def)

lemma runs_iderw_read:
  assumes "kthread s" "holds s (SBuf b)" "\<not> b_valid (bufs s ! b)" "\<not> b_dirty (bufs s ! b)"
    "b_dev (bufs s ! b) = 1" "b_blockno (bufs s ! b) < disksize s" "b < length (bufs s)"
  shows "runs (iderw b) s Q = Q () (s\<lparr>bufs := (bufs s)[b := (bufs s ! b)\<lparr>b_data := memdisk s (b_blockno (bufs s ! b)),
     b_valid := True\<rparr>]\<rparr>)"
  using assms by (simp add: iderw_def runs_holdingsleep upd_buf_def)

lemma runs_iderw_write:
  assumes "kthread s" "holds s (SBuf b)" "b_dirty (bufs s ! b)"
    "b_dev (bufs s ! b) = 1" "b_blockno (bufs s ! b) < disksize s" "b < length (bufs s)"
  shows "runs (iderw b) s Q = Q () (s\<lparr>memdisk := (memdisk s)(b_blockno (bufs s ! b) := b_data (bufs s ! b)),
     dwrites := dwrites s @ [(b_blockno (bufs s ! b), b_data (bufs s ! b))],
     bufs := (bufs s)[b := (bufs s ! b)\<lparr>b_dirty := False, b_valid := True\<rparr>]\<rparr>)"
  using assms by (simp add: iderw_def runs_holdingsleep upd_buf_def disk_write_def)

lemma bwrite_law:
  assumes k: "bthread s" and o: "opens s n = Some i"
  shows "runs (bwrite i) s (\<lambda>_ t. bthread t \<and> bio_frame s t \<and>
     cv t = (cv s)\<lparr>c_dsk := (memdisk s)(n := blk s n), c_wr := dwrites s @ [(n, blk s n)], c_dirty := dset s - {n}\<rparr>)"
proof -
  have th: "kthread s" and inv: "bc_inv s" using k by (simp_all add: bthread_def)
  note op = openedD [OF inv o]
  let ?x = "(bufs s ! i)\<lparr>b_dirty := False, b_valid := True\<rparr>"
  let ?t = "s\<lparr>memdisk := (memdisk s)(n := blk s n), dwrites := dwrites s @ [(n, blk s n)], bufs := (bufs s)[i := ?x]\<rparr>"
  have r: "runs (bwrite i) s Q = Q () ?t" for Q
    using th op by (simp add: bwrite_def runs_holdingsleep upd_buf_def runs_iderw_write)
  have st: "buf_step s ?t i ?x (slk s (SBuf i)) (blk s n)"
    by (rule buf_step_same [OF inv o]) (use op in simp_all)
  have fr: "bio_frame s ?t"
    by (rule bio_frameI [where ps = "procs s" and sl = "slk s"]) simp_all
  have hold: "sl_locked (slk s (SBuf i))" "sl_pid (slk s (SBuf i)) = cur_pid s" using op(6) by (simp_all add: holds_def)
  have "cv ?t = (cv s)\<lparr>c_dsk := (memdisk s)(n := blk s n), c_wr := dwrites s @ [(n, blk s n)], c_dirty := dset s - {n}\<rparr>"
    unfolding cv_def buf_step_blk [OF inv st] buf_step_busy [OF inv st] buf_step_dset [OF inv st] buf_step_opens [OF inv st]
    using op hold o by (simp add: fun_upd_idem insert_absorb)
  then show ?thesis unfolding r using buf_step_inv [OF inv st] fr th by (simp add: bthread_def)
qed

text \<open>The assignment of new contents to an open buffer, which callers do in place.\<close>

definition set_data :: "nat \<Rightarrow> (u8 list \<Rightarrow> u8 list) \<Rightarrow> ('x kbio_scheme, unit) kop" where
  "set_data i f = kmod (upd_buf i (\<lambda>x. x\<lparr>b_data := f (b_data x)\<rparr>))"

lemma set_data_law:
  assumes k: "bthread s" and o: "opens s n = Some i" and f: "length (f (blk s n)) = BSIZE"
  shows "runs (set_data i f) s (\<lambda>_ t. bthread t \<and> bio_frame s t \<and> cv t = (cv s)\<lparr>c_blk := (blk s)(n := f (blk s n))\<rparr>)"
proof -
  have th: "kthread s" and inv: "bc_inv s" using k by (simp_all add: bthread_def)
  note op = openedD [OF inv o]
  let ?x = "(bufs s ! i)\<lparr>b_data := f (blk s n)\<rparr>"
  let ?t = "s\<lparr>bufs := (bufs s)[i := ?x]\<rparr>"
  have r: "runs (set_data i f) s Q = Q () ?t" for Q using op by (simp add: set_data_def upd_buf_def)
  have st: "buf_step s ?t i ?x (slk s (SBuf i)) (memdisk s n)"
    by (rule buf_step_same [OF inv o]) (use op f bc_invD(5) [OF inv op(9)] in simp_all)
  have fr: "bio_frame s ?t"
    by (rule bio_frameI [where ps = "procs s" and sl = "slk s" and d = "memdisk s" and w = "dwrites s"]) simp_all
  have hold: "sl_locked (slk s (SBuf i))" "sl_pid (slk s (SBuf i)) = cur_pid s" using op(6) by (simp_all add: holds_def)
  have dd: "b_dirty (bufs s ! i) \<longrightarrow> insert n (dset s) = dset s" "\<not> b_dirty (bufs s ! i) \<longrightarrow> dset s - {n} = dset s"
    using dset_cached [OF inv op(3)] by auto
  have "cv ?t = (cv s)\<lparr>c_blk := (blk s)(n := f (blk s n))\<rparr>"
    unfolding cv_def buf_step_blk [OF inv st] buf_step_busy [OF inv st] buf_step_dset [OF inv st] buf_step_opens [OF inv st]
    using op hold o dd by (simp add: fun_upd_idem insert_absorb)
  then show ?thesis unfolding r using buf_step_inv [OF inv st] fr th by (simp add: bthread_def)
qed

lemma relink:
  assumes inv: "bc_inv s" and u: "map unlinked bs = map unlinked (bufs s)" and r: "lru_ring bs ys"
  shows "bc_inv (s\<lparr>bufs := bs\<rparr>)" "cv (s\<lparr>bufs := bs\<rparr>) = cv s"
proof -
  let ?t = "s\<lparr>bufs := bs\<rparr>"
  have l: "length bs = NBUF + 1" using r by (simp add: lru_ring_def)
  have e: "b_valid (bs ! i) = b_valid (bufs s ! i)" "b_dirty (bs ! i) = b_dirty (bufs s ! i)"
    "b_dev (bs ! i) = b_dev (bufs s ! i)" "b_blockno (bs ! i) = b_blockno (bufs s ! i)"
    "b_refcnt (bs ! i) = b_refcnt (bufs s ! i)" "b_data (bs ! i) = b_data (bufs s ! i)" if "i < NBUF" for i
    using map_unlinked_sel [OF u] that l by simp_all
  have c: "cached ?t n i = cached s n i" for n i using e(3,4) by (auto simp: cached_def)
  have f: "List.find (\<lambda>i. P i) [0..<NBUF] = List.find (\<lambda>i. Q i) [0..<NBUF]"
    if "\<And>i. i < NBUF \<Longrightarrow> P i = Q i" for P Q using that by (intro find_cong) auto
  have b: "blk ?t n = blk s n" for n
  proof -
    have "List.find (\<lambda>i. cached s n i \<and> b_valid (bs ! i)) [0..<NBUF] = List.find (\<lambda>i. cached s n i \<and> b_valid (bufs s ! i)) [0..<NBUF]"
      by (rule f) (simp add: e)
    then show ?thesis unfolding blk_def c
      by (cases "List.find (\<lambda>i. cached s n i \<and> b_valid (bufs s ! i)) [0..<NBUF]")
        (simp, frule find_upt_Some [THEN iffD1], simp add: e)
  qed
  have op: "opens ?t n = opens s n" for n unfolding opens_def c by (rule f) (simp add: e holds_def cur_pid_def)
  have bz: "busy ?t = busy s" unfolding busy_def c using e(5) cached_lt by (auto simp: cached_def)
  have dz: "dset ?t = dset s" unfolding dset_def c using e(2) cached_lt by (auto simp: cached_def)
  show "cv ?t = cv s" by (simp add: cv_def b op bz dz fun_eq_iff)
  have "buf_ok (disksize s) (memdisk s) (sl_locked (slk s (SBuf i))) (bs ! i)" if "i < NBUF" for i
    using bc_invD(3) [OF inv that] by (simp add: buf_ok_def e that)
  then show "bc_inv ?t" unfolding bc_inv_def c using r bc_invD(4,5) [OF inv] by auto
qed

lemma brelse_law:
  assumes k: "bthread s" and o: "opens s n = Some i" and cl: "n \<in> dset s \<or> blk s n = memdisk s n"
  shows "runs (brelse i) s (\<lambda>_ t. bthread t \<and> bio_frame s t \<and>
     cv t = (cv s)\<lparr>c_open := (opens s)(n := None), c_busy := busy s - {n}\<rparr>)"
proof -
  have th: "kthread s" and inv: "bc_inv s" using k by (simp_all add: bthread_def)
  note op = openedD [OF inv o]
  let ?x = "(bufs s ! i)\<lparr>b_refcnt := 0\<rparr>" and ?l = "\<lparr>sl_locked = False, sl_pid = 0\<rparr>"
  let ?ps = "woken (Some (CSleep (SBuf i))) (procs s)"
  let ?u = "s\<lparr>procs := ?ps, slk := (slk s)(SBuf i := ?l), bufs := (bufs s)[i := ?x]\<rparr>"
  let ?t = "s\<lparr>procs := ?ps, slk := (slk s)(SBuf i := ?l), bufs := move_mru i ((bufs s)[i := ?x])\<rparr>"
  have hd: "held s = []" using th by (simp add: kthread_def)
  have r: "runs (brelse i) s Q = Q () ?t" for Q
    using th op hd by (simp add: brelse_def runs_holdingsleep runs_releasesleep upd_slk_def upd_buf_def)
  have cp: "cur_pid ?u = cur_pid s"
    by (rule bio_frame_thread(2) [OF bio_frameI [where ps = "?ps" and sl = "(slk s)(SBuf i := ?l)" and d = "memdisk s" and w = "dwrites s"] th]) simp_all
  have dd: "n \<in> dset s \<longleftrightarrow> b_dirty (bufs s ! i)" by (rule dset_cached [OF inv op(3)])
  have st: "buf_step s ?u i ?x ?l (memdisk s n)"
    using op bc_invD(5) [OF inv op(9)] cp cl dd bc_invD(4) [OF inv]
    by (auto simp: buf_step_def buf_ok_def)
  have cu: "cv ?u = (cv s)\<lparr>c_open := (opens s)(n := None), c_busy := busy s - {n}\<rparr>"
    unfolding cv_def buf_step_blk [OF inv st] buf_step_busy [OF inv st] buf_step_dset [OF inv st] buf_step_opens [OF inv st]
    using op dd by (auto simp: fun_upd_idem insert_absorb)
  obtain xs where "lru_ring (bufs ?u) xs" using bc_invD(1) [OF buf_step_inv [OF inv st]] by blast
  then have rg: "lru_ring (move_mru i (bufs ?u)) (i # remove1 i xs)" by (rule move_mru_ring) (rule op(1))
  have "bc_inv (?u\<lparr>bufs := move_mru i (bufs ?u)\<rparr>)" "cv (?u\<lparr>bufs := move_mru i (bufs ?u)\<rparr>) = cv ?u"
    by (rule relink [OF buf_step_inv [OF inv st] _ rg], simp)+
  then have bt: "bc_inv ?t" "cv ?t = cv ?u" by simp_all
  have fr: "bio_frame s ?t"
    by (rule bio_frameI [where ps = "?ps" and sl = "(slk s)(SBuf i := ?l)" and d = "memdisk s" and w = "dwrites s"]) simp_all
  show ?thesis unfolding r bthread_def using bt cu fr bio_frame_thread(1) [OF fr th] by simp
qed

lemma recyclable:
  assumes inv: "bc_inv s" and n: "\<And>i. \<not> cached s n i" and room: "card (insert n (busy s \<union> dset s)) \<le> NBUF"
  shows "\<exists>i < NBUF. b_refcnt (bufs s ! i) = 0 \<and> \<not> b_dirty (bufs s ! i)"
proof (rule ccontr)
  assume "\<not> ?thesis"
  then have a: "b_refcnt (bufs s ! i) \<noteq> 0 \<or> b_dirty (bufs s ! i)" if "i < NBUF" for i
    using that by auto
  have c: "cached s (b_blockno (bufs s ! i)) i" if "i < NBUF" for i
    using bc_invD(3) [OF inv that] a [OF that] that by (auto simp: buf_ok_def cached_def)
  have inj: "inj_on (\<lambda>i. b_blockno (bufs s ! i)) {..<NBUF}"
    using c bc_invD(4) [OF inv] by (intro inj_onI) (metis lessThan_iff)
  have "(\<lambda>i. b_blockno (bufs s ! i)) ` {..<NBUF} \<subseteq> busy s \<union> dset s"
    using a c by (auto simp: busy_def dset_def)
  from card_mono [OF _ this] have "NBUF \<le> card (busy s \<union> dset s)"
    using finite_views [of s] by (simp add: card_image [OF inj])
  moreover have "n \<notin> busy s \<union> dset s" using n by (auto simp: busy_def dset_def)
  ultimately show False using room finite_views [of s] by simp
qed

lemma find_unique_set:
  assumes "\<And>j. j \<in> set xs \<Longrightarrow> P j \<Longrightarrow> j = k" "P k" "k \<in> set xs"
  shows "List.find P xs = Some k"
proof -
  obtain y where y: "List.find P xs = Some y" using find_ex [of P, OF assms(2,3)] by blast
  then have "y = k" using find_SomeD [OF y] assms(1) by blast
  with y show ?thesis by simp
qed

text \<open>
  \<open>bget_post s n i t\<close>: what \<^verbatim>\<open>bget\<close> gives for an idle block. Buffer \<open>i\<close> is referenced once and locked
  by the caller; it holds the block's data if it was cached and is invalid otherwise.
\<close>

definition bget_post :: "'x kbio_scheme \<Rightarrow> nat \<Rightarrow> nat \<Rightarrow> 'x kbio_scheme \<Rightarrow> bool" where
  "bget_post s n i t \<longleftrightarrow> (\<exists>x. let l = \<lparr>sl_locked = True, sl_pid = cur_pid s\<rparr> in
     t = s\<lparr>slk := (slk s)(SBuf i := l), bufs := (bufs s)[i := x]\<rparr> \<and>
     buf_step s t i x l (memdisk s n) \<and> b_blockno x = n \<and> b_refcnt x = 1 \<and>
     (n \<in> dset s \<longleftrightarrow> b_dirty x) \<and> (b_valid x \<longrightarrow> b_data x = blk s n) \<and> (\<not> b_valid x \<longrightarrow> blk s n = memdisk s n))"

lemma bget_hit:
  assumes k: "bthread s" and n: "n \<notin> busy s" and c: "cached s n i"
  shows "runs (bget 1 n) s (\<lambda>j t. j = i \<and> bget_post s n i t)"
proof -
  have th: "kthread s" and inv: "bc_inv s" using k by (simp_all add: bthread_def)
  obtain xs where ring: "lru_ring (bufs s) xs" using bc_invD(1) [OF inv] by blast
  have hd: "held s = []" using th by (simp add: kthread_def)
  have i: "i < NBUF" "i < length (bufs s)" "b_dev (bufs s ! i) = 1" "b_blockno (bufs s ! i) = n"
    using c bc_invD(2) [OF inv] by (simp_all add: cached_def)
  have uq: "\<forall>j. cached s n j \<longrightarrow> j = i" using bc_invD(4) [OF inv _ c] by blast
  have rc: "b_refcnt (bufs s ! i) = 0" using n c by (auto simp: busy_def)
  have ok: "buf_ok (disksize s) (memdisk s) (sl_locked (slk s (SBuf i))) (bufs s ! i)" by (rule bc_invD(3) [OF inv i(1)])
  have ul: "\<not> sl_locked (slk s (SBuf i))" using ok rc by (simp add: buf_ok_def)
  have f: "List.find (\<lambda>j. b_dev (bufs s ! j) = 1 \<and> b_blockno (bufs s ! j) = n) xs = Some i"
  proof (rule find_unique_set)
    fix j assume "j \<in> set xs" "b_dev (bufs s ! j) = 1 \<and> b_blockno (bufs s ! j) = n"
    then have "cached s n j" using lru_ringD(4) [OF ring] by (simp add: cached_def)
    then show "j = i" using uq by blast
  qed (use i lru_ringD(4) [OF ring] in simp_all)
  let ?x = "(bufs s ! i)\<lparr>b_refcnt := 1\<rparr>" and ?l = "\<lparr>sl_locked = True, sl_pid = cur_pid s\<rparr>"
  let ?t = "s\<lparr>slk := (slk s)(SBuf i := ?l), bufs := (bufs s)[i := ?x]\<rparr>"
  have "runs (scan_next (NBUF + 1) P (nxt (bufs s) BHEAD)) (s\<lparr>held := hs\<rparr>) Q = Q (List.find (\<lambda>i. P (bufs s ! i)) xs) (s\<lparr>held := hs\<rparr>)" for hs P Q
    using runs_scan_next [of "s\<lparr>held := hs\<rparr>" xs] ring by simp
  then have r: "runs (bget 1 n) s Q = Q i ?t" for Q
    using f hd ul th rc i by (simp add: bget_def upd_buf_def runs_acquiresleep upd_slk_def del: scan_next.simps)
  have st: "buf_step s ?t i ?x ?l (memdisk s n)"
  proof -
    have a: "buf_ok (disksize s) ((memdisk s)(b_blockno ?x := memdisk s n)) (sl_locked ?l) ?x"
      using ok i by (simp add: buf_ok_def)
    have d: "length (memdisk s n) = BSIZE" by (rule bc_invD(5) [OF inv]) (use ok i in \<open>simp add: buf_ok_def\<close>)
    have u: "\<forall>j. cached s (b_blockno ?x) j \<longrightarrow> j = i" using uq i(4) by simp
    show ?thesis unfolding buf_step_def by (intro conjI a u disjI1) (use c d i in simp_all)
  qed
  have v: "b_valid ?x \<longrightarrow> b_data ?x = blk s n" using blk_valid [OF inv c] by simp
  have nv: "\<not> b_valid ?x \<longrightarrow> blk s n = memdisk s n"
    using uq by (intro impI blk_disk) auto
  have "bget_post s n i ?t" unfolding bget_post_def Let_def
    by (rule exI [of _ ?x]) (use st v nv i dset_cached [OF inv c] in simp)
  then show ?thesis unfolding r by simp
qed

lemma bget_miss:
  assumes k: "bthread s" and n: "n < disksize s" "\<And>i. \<not> cached s n i" and room: "card (insert n (busy s \<union> dset s)) \<le> NBUF"
  shows "runs (bget 1 n) s (\<lambda>i t. bget_post s n i t)"
proof -
  have th: "kthread s" and inv: "bc_inv s" using k by (simp_all add: bthread_def)
  obtain xs where ring: "lru_ring (bufs s) xs" using bc_invD(1) [OF inv] by blast
  have hd: "held s = []" using th by (simp add: kthread_def)
  let ?P = "\<lambda>i. b_refcnt (bufs s ! i) = 0 \<and> \<not> b_dirty (bufs s ! i)"
  have f: "List.find (\<lambda>j. b_dev (bufs s ! j) = 1 \<and> b_blockno (bufs s ! j) = n) xs = None"
    using n(2) lru_ringD(4) [OF ring] by (auto simp: find_None_iff cached_def)
  obtain i0 where "i0 \<in> set (rev xs)" "?P i0"
    using recyclable [OF inv n(2) room] lru_ringD(4) [OF ring] by auto
  then obtain i where fi: "List.find ?P (rev xs) = Some i" using find_ex [of ?P i0 "rev xs"] by blast
  have i: "i < NBUF" "?P i" using find_SomeD [OF fi] lru_ringD(4) [OF ring] by simp_all
  have il: "i < length (bufs s)" using i bc_invD(2) [OF inv] by simp
  have ok: "buf_ok (disksize s) (memdisk s) (sl_locked (slk s (SBuf i))) (bufs s ! i)" by (rule bc_invD(3) [OF inv i(1)])
  have ul: "\<not> sl_locked (slk s (SBuf i))" using ok i by (simp add: buf_ok_def)
  let ?x = "(bufs s ! i)\<lparr>b_dev := 1, b_blockno := n, b_valid := False, b_dirty := False, b_refcnt := 1\<rparr>"
    and ?l = "\<lparr>sl_locked = True, sl_pid = cur_pid s\<rparr>"
  let ?t = "s\<lparr>slk := (slk s)(SBuf i := ?l), bufs := (bufs s)[i := ?x]\<rparr>"
  have s1: "runs (scan_next (NBUF + 1) P (nxt (bufs s) BHEAD)) (s\<lparr>held := hs\<rparr>) Q = Q (List.find (\<lambda>i. P (bufs s ! i)) xs) (s\<lparr>held := hs\<rparr>)" for hs P Q
    using runs_scan_next [of "s\<lparr>held := hs\<rparr>" xs] ring by simp
  have s2: "runs (scan_prev (NBUF + 1) P (prv (bufs s) BHEAD)) (s\<lparr>held := hs\<rparr>) Q = Q (List.find (\<lambda>i. P (bufs s ! i)) (rev xs)) (s\<lparr>held := hs\<rparr>)" for hs P Q
    using runs_scan_prev [of "s\<lparr>held := hs\<rparr>" xs] ring by simp
  have r: "runs (bget 1 n) s Q = Q i ?t" for Q
    using f hd ul th fi il s1 s2
    by (simp add: bget_def bget_recycle_def upd_buf_def runs_acquiresleep upd_slk_def del: scan_next.simps scan_prev.simps)
  have nc: "\<forall>i. \<not> cached s n i" using n(2) by blast
  then have nd: "n \<notin> dset s" "blk s n = memdisk s n" using blk_disk [of s n] by (simp_all add: dset_def)
  have st: "buf_step s ?t i ?x ?l (memdisk s n)"
    using ok i n(1) nc bc_invD(5) [OF inv n(1)] by (simp add: buf_step_def buf_ok_def)
  have "bget_post s n i ?t" unfolding bget_post_def Let_def
    by (rule exI [of _ ?x]) (use st nd in simp)
  then show ?thesis unfolding r by simp
qed

lemma bget_runs:
  assumes "bthread s" "n < disksize s" "n \<notin> busy s" "card (insert n (busy s \<union> dset s)) \<le> NBUF"
  shows "runs (bget 1 n) s (\<lambda>i t. bget_post s n i t)"
proof (cases "\<exists>i. cached s n i")
  case True
  then obtain i where "cached s n i" by blast
  then show ?thesis by (rule runs_weaken [OF bget_hit [OF assms(1,3)]]) simp
next
  case False
  then show ?thesis using bget_miss [OF assms(1,2) _ assms(4)] by blast
qed

text \<open>The conclusion of \<^verbatim>\<open>bread\<close> for a valid buffer obtained by one step from \<open>s\<close>.\<close>

lemma bread_post:
  assumes k: "bthread s" and st: "buf_step s t i x \<lparr>sl_locked = True, sl_pid = cur_pid s\<rparr> (memdisk s n)"
    and t: "t = s\<lparr>slk := (slk s)(SBuf i := \<lparr>sl_locked = True, sl_pid = cur_pid s\<rparr>), bufs := (bufs s)[i := x]\<rparr>"
    and x: "b_blockno x = n" "b_refcnt x = 1" "n \<in> dset s \<longleftrightarrow> b_dirty x" "b_valid x" "b_data x = blk s n"
  shows "bthread t \<and> bio_frame s t \<and> cv t = (cv s)\<lparr>c_open := (opens s)(n := Some i), c_busy := insert n (busy s)\<rparr>"
proof -
  have th: "kthread s" and inv: "bc_inv s" using k by (simp_all add: bthread_def)
  have fr: "bio_frame s t"
    by (rule bio_frameI [where ps = "procs s" and sl = "slk t" and d = "memdisk s" and w = "dwrites s" and bs = "bufs t"])
      (simp_all add: t)
  have d: "b_dirty x \<longrightarrow> insert n (dset s) = dset s" "\<not> b_dirty x \<longrightarrow> dset s - {n} = dset s" using x(3) by auto
  have "memdisk t = memdisk s" "dwrites t = dwrites s" "disksize t = disksize s" using t by simp_all
  then have "cv t = (cv s)\<lparr>c_open := (opens s)(n := Some i), c_busy := insert n (busy s)\<rparr>"
    unfolding cv_def buf_step_blk [OF inv st] buf_step_busy [OF inv st] buf_step_dset [OF inv st] buf_step_opens [OF inv st]
    using x d by (simp add: fun_upd_idem)
  then show ?thesis using buf_step_inv [OF inv st] fr bio_frame_thread(1) [OF fr th] by (simp add: bthread_def)
qed

lemma bread_law:
  assumes k: "bthread s" and n: "n < disksize s" "n \<notin> busy s" and room: "card (insert n (busy s \<union> dset s)) \<le> NBUF"
  shows "runs (bread 1 n) s (\<lambda>i t. bthread t \<and> bio_frame s t \<and>
     cv t = (cv s)\<lparr>c_open := (opens s)(n := Some i), c_busy := insert n (busy s)\<rparr>)"
proof -
  let ?Q = "\<lambda>i t. bthread t \<and> bio_frame s t \<and> cv t = (cv s)\<lparr>c_open := (opens s)(n := Some i), c_busy := insert n (busy s)\<rparr>"
  have "runs (kdo (kget (\<lambda>s. b_valid (bufs s ! i))) (\<lambda>v. kdo (kwhen (\<not> v) (iderw i)) (\<lambda>_. kret i))) t ?Q"
    if post: "bget_post s n i t" for i t
  proof -
    let ?l = "\<lparr>sl_locked = True, sl_pid = cur_pid s\<rparr>"
    obtain x where t: "t = s\<lparr>slk := (slk s)(SBuf i := ?l), bufs := (bufs s)[i := x]\<rparr>"
      and st: "buf_step s t i x ?l (memdisk s n)"
      and x: "b_blockno x = n" "b_refcnt x = 1" "n \<in> dset s \<longleftrightarrow> b_dirty x"
        "b_valid x \<longrightarrow> b_data x = blk s n" "\<not> b_valid x \<longrightarrow> blk s n = memdisk s n"
      using post unfolding bget_post_def Let_def by blast
    have inv: "bc_inv s" and th: "kthread t" using k t by (simp_all add: bthread_def)
    have nth: "bufs t ! i = x" "i < length (bufs t)"
      using buf_step_nth(1) [OF inv st] st bc_invD(2) [OF inv] by (simp_all add: buf_step_def)
    show ?thesis
    proof (cases "b_valid x")
      case True
      then show ?thesis using bread_post [OF k st t] x nth by simp
    next
      case False
      let ?y = "x\<lparr>b_data := memdisk s n, b_valid := True\<rparr>"
      let ?u = "s\<lparr>slk := (slk s)(SBuf i := ?l), bufs := (bufs s)[i := ?y]\<rparr>"
      have xd: "\<not> b_dirty x" "b_dev x = 1" using st False by (simp_all add: buf_step_def buf_ok_def)
      have h: "holds t (SBuf i)" using t by (simp add: holds_def cur_pid_def)
      have st': "buf_step s ?u i ?y ?l (memdisk s n)"
        using st t x bc_invD(5) [OF inv n(1)] n(1) xd by (simp add: buf_step_def buf_ok_def)
      have q: "?Q i ?u" by (rule bread_post [OF k st' refl]) (use x False in simp_all)
      have r: "runs (iderw i) t Q = Q () ?u" for Q
        using runs_iderw_read [OF th h, of Q] nth xd False x n t by simp
      show ?thesis using False nth q by (simp add: r)
    qed
  qed
  then show ?thesis unfolding bread_def runs_kdo
    by (intro runs_weaken [OF bget_runs [OF k n room]]) simp
qed

lemma opened_law:
  assumes "bthread s" "opens s n = Some i"
  shows "n \<in> busy s" "n < disksize s" "b_data (bufs s ! i) = blk s n" "length (blk s n) = BSIZE"
  using openedD [OF _ assms(2)] assms(1) by (auto simp: bthread_def)

section \<open>The interface of the cache\<close>

text \<open>The view after block \<open>n\<close> has been replaced by \<open>d\<close> and written through to the disk.\<close>

definition written :: "nat \<Rightarrow> u8 list \<Rightarrow> cview \<Rightarrow> cview" where
  "written n d V = V\<lparr>c_blk := (c_blk V)(n := d), c_dsk := (c_dsk V)(n := d), c_wr := c_wr V @ [(n, d)],
     c_dirty := c_dirty V - {n}\<rparr>"

text \<open>
  The laws a client relies on, over the view \<open>cv\<close>: a block may be opened when nobody has it open
  and the cache is not full of open or pinned blocks; writing an open block puts it on disk; an
  open block may be closed when it is pinned or equal to the block on disk. From the laws follow,
  once, the ways the code uses the cache.
\<close>

locale block_cache =
  fixes rd :: "nat \<Rightarrow> ('s, nat) kop"
    and wr :: "nat \<Rightarrow> ('s, unit) kop"
    and rel :: "nat \<Rightarrow> ('s, unit) kop"
    and setd :: "nat \<Rightarrow> (u8 list \<Rightarrow> u8 list) \<Rightarrow> ('s, unit) kop"
    and getd :: "'s \<Rightarrow> nat \<Rightarrow> u8 list"
    and inv :: "'s \<Rightarrow> bool"
    and frame :: "'s \<Rightarrow> 's \<Rightarrow> bool"
    and view :: "'s \<Rightarrow> cview"
    and cap :: nat
    and bsz :: nat
  assumes frame_refl: "frame s s"
    and frame_trans: "frame s t \<Longrightarrow> frame t u \<Longrightarrow> frame s u"
    and clean: "inv s \<Longrightarrow> n \<notin> c_busy (view s) \<Longrightarrow> n \<notin> c_dirty (view s) \<Longrightarrow> c_blk (view s) n = c_dsk (view s) n"
    and opened: "inv s \<Longrightarrow> c_open (view s) n = Some i \<Longrightarrow>
      n \<in> c_busy (view s) \<and> n < c_size (view s) \<and> getd s i = c_blk (view s) n \<and> length (c_blk (view s) n) = bsz"
    and blk_len: "inv s \<Longrightarrow> n < c_size (view s) \<Longrightarrow> length (c_blk (view s) n) = bsz"
    and fin: "finite (c_busy (view s)) \<and> finite (c_dirty (view s))"
    and rd_law: "inv s \<Longrightarrow> n < c_size (view s) \<Longrightarrow> n \<notin> c_busy (view s) \<Longrightarrow>
      card (insert n (c_busy (view s) \<union> c_dirty (view s))) \<le> cap \<Longrightarrow>
      runs (rd n) s (\<lambda>i t. inv t \<and> frame s t \<and>
        view t = (view s)\<lparr>c_open := (c_open (view s))(n := Some i), c_busy := insert n (c_busy (view s))\<rparr>)"
    and wr_law: "inv s \<Longrightarrow> c_open (view s) n = Some i \<Longrightarrow>
      runs (wr i) s (\<lambda>_ t. inv t \<and> frame s t \<and>
        view t = (view s)\<lparr>c_dsk := (c_dsk (view s))(n := c_blk (view s) n),
          c_wr := c_wr (view s) @ [(n, c_blk (view s) n)], c_dirty := c_dirty (view s) - {n}\<rparr>)"
    and setd_law: "inv s \<Longrightarrow> c_open (view s) n = Some i \<Longrightarrow> length (f (c_blk (view s) n)) = bsz \<Longrightarrow>
      runs (setd i f) s (\<lambda>_ t. inv t \<and> frame s t \<and>
        view t = (view s)\<lparr>c_blk := (c_blk (view s))(n := f (c_blk (view s) n))\<rparr>)"
    and rel_law: "inv s \<Longrightarrow> c_open (view s) n = Some i \<Longrightarrow>
      n \<in> c_dirty (view s) \<or> c_blk (view s) n = c_dsk (view s) n \<Longrightarrow>
      runs (rel i) s (\<lambda>_ t. inv t \<and> frame s t \<and>
        view t = (view s)\<lparr>c_open := (c_open (view s))(n := None), c_busy := c_busy (view s) - {n}\<rparr>)"
begin

lemma not_open: "inv s \<Longrightarrow> n \<notin> c_busy (view s) \<Longrightarrow> c_open (view s) n = None"
  using opened [of s n] by (cases "c_open (view s) n") auto

text \<open>Reading a block and letting it go leaves everything as it was.\<close>

lemma read_once:
  assumes "inv s" "n < c_size (view s)" "n \<notin> c_busy (view s)" "card (insert n (c_busy (view s) \<union> c_dirty (view s))) \<le> cap"
  shows "runs (kdo (rd n) (\<lambda>i. kdo (kget (\<lambda>s. f (getd s i))) (\<lambda>v. kdo (rel i) (\<lambda>_. kret v)))) s
     (\<lambda>v t. v = f (c_blk (view s) n) \<and> inv t \<and> frame s t \<and> view t = view s)"
proof -
  let ?V = "view s"
  have o: "(c_open ?V)(n := None) = c_open ?V" using not_open [OF assms(1,3)] by (simp add: fun_upd_idem)
  have b: "insert n (c_busy ?V) - {n} = c_busy ?V" using assms(3) by auto
  have cl: "n \<in> c_dirty ?V \<or> c_blk ?V n = c_dsk ?V n" using clean [OF assms(1,3)] by blast
  have step: "runs (kdo (kget (\<lambda>s. f (getd s i))) (\<lambda>v. kdo (rel i) (\<lambda>_. kret v))) t
     (\<lambda>v t. v = f (c_blk ?V n) \<and> inv t \<and> frame s t \<and> view t = ?V)"
    if t: "inv t \<and> frame s t \<and> view t = ?V\<lparr>c_open := (c_open ?V)(n := Some i), c_busy := insert n (c_busy ?V)\<rparr>" for i t
  proof -
    have op: "c_open (view t) n = Some i" "getd t i = c_blk ?V n" using t opened [of t n i] by simp_all
    have "runs (rel i) t (\<lambda>_ u. inv u \<and> frame t u \<and>
        view u = (view t)\<lparr>c_open := (c_open (view t))(n := None), c_busy := c_busy (view t) - {n}\<rparr>)"
      by (rule rel_law) (use t op cl in simp_all)
    then have "runs (rel i) t (\<lambda>_ u. inv u \<and> frame s u \<and> view u = ?V)"
      by (rule runs_weaken) (use t o b frame_trans in auto)
    then show ?thesis using op by simp
  qed
  show ?thesis unfolding runs_kdo [of "rd n"] by (rule runs_weaken [OF rd_law [OF assms]]) (rule step)
qed

text \<open>The laws as steps of a longer computation.\<close>

lemma rd_step:
  assumes "inv s" "n < c_size (view s)" "n \<notin> c_busy (view s)" "card (insert n (c_busy (view s) \<union> c_dirty (view s))) \<le> cap"
    and "\<And>i t. inv t \<Longrightarrow> frame s t \<Longrightarrow>
      view t = (view s)\<lparr>c_open := (c_open (view s))(n := Some i), c_busy := insert n (c_busy (view s))\<rparr> \<Longrightarrow> runs (g i) t Q"
  shows "runs (kdo (rd n) g) s Q"
  unfolding runs_kdo by (rule runs_weaken [OF rd_law [OF assms(1-4)]]) (use assms(5) in blast)

lemma wr_step:
  assumes "inv s" "c_open (view s) n = Some i"
    and "\<And>t. inv t \<Longrightarrow> frame s t \<Longrightarrow> view t = (view s)\<lparr>c_dsk := (c_dsk (view s))(n := c_blk (view s) n),
          c_wr := c_wr (view s) @ [(n, c_blk (view s) n)], c_dirty := c_dirty (view s) - {n}\<rparr> \<Longrightarrow> runs (g ()) t Q"
  shows "runs (kdo (wr i) g) s Q"
  unfolding runs_kdo by (rule runs_weaken [OF wr_law [OF assms(1,2)]]) (use assms(3) in simp)

lemma setd_step:
  assumes "inv s" "c_open (view s) n = Some i" "length (f (c_blk (view s) n)) = bsz"
    and "\<And>t. inv t \<Longrightarrow> frame s t \<Longrightarrow> view t = (view s)\<lparr>c_blk := (c_blk (view s))(n := f (c_blk (view s) n))\<rparr> \<Longrightarrow> runs (g ()) t Q"
  shows "runs (kdo (setd i f) g) s Q"
  unfolding runs_kdo by (rule runs_weaken [OF setd_law [where f = f, OF assms(1-3)]]) (use assms(4) in simp)

lemma rel_step:
  assumes "inv s" "c_open (view s) n = Some i" "n \<in> c_dirty (view s) \<or> c_blk (view s) n = c_dsk (view s) n"
    and "\<And>t. inv t \<Longrightarrow> frame s t \<Longrightarrow> view t = (view s)\<lparr>c_open := (c_open (view s))(n := None), c_busy := c_busy (view s) - {n}\<rparr> \<Longrightarrow> runs (g ()) t Q"
  shows "runs (kdo (rel i) g) s Q"
  unfolding runs_kdo by (rule runs_weaken [OF rel_law [OF assms(1-3)]]) (use assms(4) in simp)

lemma write_through:
  assumes s: "inv s" "n < c_size (view s)" "n \<notin> c_busy (view s)" "card (insert n (c_busy (view s) \<union> c_dirty (view s))) \<le> cap"
    and h: "\<And>t. frame s t \<Longrightarrow> h t = h s" and f: "length (f (h s) (c_blk (view s) n)) = bsz"
  shows "runs (kdo (rd n) (\<lambda>i. kdo (kget h) (\<lambda>x. kdo (setd i (f x)) (\<lambda>_. kdo (wr i) (\<lambda>_. rel i))))) s
     (\<lambda>_ t. inv t \<and> frame s t \<and> view t = written n (f (h s) (c_blk (view s) n)) (view s))"
proof (rule rd_step [OF s], unfold runs_kdo [of "kget h"] runs_kget, rule setd_step [where n = n], assumption)
  fix i t u
  let ?V = "view s"
  assume t: "inv t" "frame s t" "view t = ?V\<lparr>c_open := (c_open ?V)(n := Some i), c_busy := insert n (c_busy ?V)\<rparr>"
  have ht: "h t = h s" by (rule h [OF t(2)])
  show "c_open (view t) n = Some i" "length (f (h t) (c_blk (view t) n)) = bsz" using t f ht by simp_all
  assume u: "inv u" "frame t u" "view u = (view t)\<lparr>c_blk := (c_blk (view t))(n := f (h t) (c_blk (view t) n))\<rparr>"
  have o: "(c_open ?V)(n := None) = c_open ?V" using not_open [OF s(1,3)] by (simp add: fun_upd_idem)
  have b: "insert n (c_busy ?V) - {n} = c_busy ?V" using s(3) by auto
  show "runs (kdo (wr i) (\<lambda>_. rel i)) u (\<lambda>_ t. inv t \<and> frame s t \<and> view t = written n (f (h s) (c_blk ?V n)) ?V)"
  proof (rule wr_step [where n = n, OF u(1)])
    show "c_open (view u) n = Some i" using t u by simp
    fix v assume v: "inv v" "frame u v" "view v = (view u)\<lparr>c_dsk := (c_dsk (view u))(n := c_blk (view u) n),
          c_wr := c_wr (view u) @ [(n, c_blk (view u) n)], c_dirty := c_dirty (view u) - {n}\<rparr>"
    have fr: "frame s v" using frame_trans t(2) u(2) v(2) by blast
    show "runs (rel i) v (\<lambda>_ t. inv t \<and> frame s t \<and> view t = written n (f (h s) (c_blk ?V n)) ?V)"
    proof (rule runs_weaken [OF rel_law [where n = n, OF v(1)]])
      show "c_open (view v) n = Some i" "n \<in> c_dirty (view v) \<or> c_blk (view v) n = c_dsk (view v) n"
        using t u v by simp_all
      fix x w assume w: "inv w \<and> frame v w \<and> view w = (view v)\<lparr>c_open := (c_open (view v))(n := None), c_busy := c_busy (view v) - {n}\<rparr>"
      then have "frame s w" using fr frame_trans by blast
      then show "inv w \<and> frame s w \<and> view w = written n (f (h s) (c_blk ?V n)) ?V"
        using w t u v o b ht by (simp add: written_def)
    qed
  qed
qed

text \<open>
  Copying block \<open>m\<close> over block \<open>n\<close>, in the two orders the log uses: source opened first, and
  destination opened first.
\<close>

lemma copy_tail:
  assumes s: "inv s" "n \<noteq> m" "n \<notin> c_busy (view s)" "m \<notin> c_busy (view s)" "m < c_size (view s)"
    and t: "inv t" "frame s t" "view t = (view s)\<lparr>c_open := (c_open (view s))(n := Some i, m := Some j),
      c_busy := insert n (insert m (c_busy (view s)))\<rparr>"
  shows "runs (kdo (kget (\<lambda>s. getd s j)) (\<lambda>d. kdo (setd i (\<lambda>_. d)) (\<lambda>_. kdo (wr i) (\<lambda>_. kdo (rel j) (\<lambda>_. rel i))))) t
     (\<lambda>_ u. inv u \<and> frame s u \<and> view u = written n (c_blk (view s) m) (view s))"
proof -
  let ?V = "view s" and ?d = "c_blk (view s) m"
  let ?Q = "\<lambda>_ u. inv u \<and> frame s u \<and> view u = written n ?d ?V"
  have g: "getd t j = ?d" using opened [OF t(1), of m j] t s(2) by simp
  have o: "(c_open ?V)(n := None, m := None) = c_open ?V" "(c_open ?V)(m := None, n := None) = c_open ?V"
    using not_open [OF s(1,3)] not_open [OF s(1,4)] by (auto simp: fun_eq_iff)
  have b: "insert n (insert m (c_busy ?V)) - {m} - {n} = c_busy ?V" using s by auto
  have md: "m \<in> c_dirty ?V \<or> ?d = c_dsk ?V m" using clean [OF s(1,4)] by blast
  have "runs (kdo (setd i (\<lambda>_. ?d)) (\<lambda>_. kdo (wr i) (\<lambda>_. kdo (rel j) (\<lambda>_. rel i)))) t ?Q"
  proof (rule setd_step [where n = n, OF t(1)])
    show "c_open (view t) n = Some i" using t s(2) by simp
    show "length ?d = bsz" by (rule blk_len [OF s(1,5)])
    fix u assume u: "inv u" "frame t u" "view u = (view t)\<lparr>c_blk := (c_blk (view t))(n := ?d)\<rparr>"
    show "runs (kdo (wr i) (\<lambda>_. kdo (rel j) (\<lambda>_. rel i))) u ?Q"
    proof (rule wr_step [where n = n, OF u(1)])
      show "c_open (view u) n = Some i" using t u s(2) by simp
      fix v assume v: "inv v" "frame u v" "view v = (view u)\<lparr>c_dsk := (c_dsk (view u))(n := c_blk (view u) n),
          c_wr := c_wr (view u) @ [(n, c_blk (view u) n)], c_dirty := c_dirty (view u) - {n}\<rparr>"
      show "runs (kdo (rel j) (\<lambda>_. rel i)) v ?Q"
      proof (rule rel_step [where n = m, OF v(1)])
        show "c_open (view v) m = Some j" "m \<in> c_dirty (view v) \<or> c_blk (view v) m = c_dsk (view v) m"
          using t u v s(2) md by simp_all
        fix w assume w: "inv w" "frame v w" "view w = (view v)\<lparr>c_open := (c_open (view v))(m := None), c_busy := c_busy (view v) - {m}\<rparr>"
        have fr: "frame s w" using frame_trans t(2) u(2) v(2) w(2) by blast
        show "runs (rel i) w ?Q"
        proof (rule runs_weaken [OF rel_law [where n = n, OF w(1)]])
          show "c_open (view w) n = Some i" "n \<in> c_dirty (view w) \<or> c_blk (view w) n = c_dsk (view w) n"
            using t u v w s(2) by simp_all
          fix y z assume z: "inv z \<and> frame w z \<and> view z = (view w)\<lparr>c_open := (c_open (view w))(n := None), c_busy := c_busy (view w) - {n}\<rparr>"
          then have "frame s z" using fr frame_trans by blast
          then show "?Q y z" using z t u v w o b s(2) by (simp add: written_def fun_upd_twist)
        qed
      qed
    qed
  qed
  then show ?thesis using g by simp
qed

lemma copy_src_first:
  assumes s: "inv s" "n \<noteq> m" "n \<notin> c_busy (view s)" "m \<notin> c_busy (view s)" "n < c_size (view s)" "m < c_size (view s)"
    and room: "card (insert n (insert m (c_busy (view s) \<union> c_dirty (view s)))) \<le> cap"
  shows "runs (kdo (rd m) (\<lambda>j. kdo (rd n) (\<lambda>i. kdo (kget (\<lambda>s. getd s j)) (\<lambda>d.
       kdo (setd i (\<lambda>_. d)) (\<lambda>_. kdo (wr i) (\<lambda>_. kdo (rel j) (\<lambda>_. rel i))))))) s
     (\<lambda>_ u. inv u \<and> frame s u \<and> view u = written n (c_blk (view s) m) (view s))"
proof (rule rd_step [OF s(1,6,4)])
  show "card (insert m (c_busy (view s) \<union> c_dirty (view s))) \<le> cap"
    using fin [of s] by (intro order_trans [OF card_mono room]) auto
  fix j t assume t: "inv t" "frame s t" "view t = (view s)\<lparr>c_open := (c_open (view s))(m := Some j), c_busy := insert m (c_busy (view s))\<rparr>"
  show "runs (kdo (rd n) (\<lambda>i. kdo (kget (\<lambda>s. getd s j)) (\<lambda>d.
       kdo (setd i (\<lambda>_. d)) (\<lambda>_. kdo (wr i) (\<lambda>_. kdo (rel j) (\<lambda>_. rel i)))))) t
     (\<lambda>_ u. inv u \<and> frame s u \<and> view u = written n (c_blk (view s) m) (view s))"
  proof (rule rd_step [OF t(1)])
    fix i u assume u: "inv u" "frame t u" "view u = (view t)\<lparr>c_open := (c_open (view t))(n := Some i), c_busy := insert n (c_busy (view t))\<rparr>"
    show "runs (kdo (kget (\<lambda>s. getd s j)) (\<lambda>d. kdo (setd i (\<lambda>_. d)) (\<lambda>_. kdo (wr i) (\<lambda>_. kdo (rel j) (\<lambda>_. rel i))))) u
       (\<lambda>_ u. inv u \<and> frame s u \<and> view u = written n (c_blk (view s) m) (view s))"
      by (rule copy_tail [OF s(1-4,6) u(1) frame_trans [OF t(2) u(2)]]) (use t u s(2) in \<open>simp add: fun_upd_twist\<close>)
  qed (use t s room in simp_all)
qed

lemma copy_dst_first:
  assumes s: "inv s" "n \<noteq> m" "n \<notin> c_busy (view s)" "m \<notin> c_busy (view s)" "n < c_size (view s)" "m < c_size (view s)"
    and room: "card (insert n (insert m (c_busy (view s) \<union> c_dirty (view s)))) \<le> cap"
  shows "runs (kdo (rd n) (\<lambda>i. kdo (rd m) (\<lambda>j. kdo (kget (\<lambda>s. getd s j)) (\<lambda>d.
       kdo (setd i (\<lambda>_. d)) (\<lambda>_. kdo (wr i) (\<lambda>_. kdo (rel j) (\<lambda>_. rel i))))))) s
     (\<lambda>_ u. inv u \<and> frame s u \<and> view u = written n (c_blk (view s) m) (view s))"
proof (rule rd_step [OF s(1,5,3)])
  show "card (insert n (c_busy (view s) \<union> c_dirty (view s))) \<le> cap"
    using fin [of s] by (intro order_trans [OF card_mono room]) auto
  fix i t assume t: "inv t" "frame s t" "view t = (view s)\<lparr>c_open := (c_open (view s))(n := Some i), c_busy := insert n (c_busy (view s))\<rparr>"
  show "runs (kdo (rd m) (\<lambda>j. kdo (kget (\<lambda>s. getd s j)) (\<lambda>d.
       kdo (setd i (\<lambda>_. d)) (\<lambda>_. kdo (wr i) (\<lambda>_. kdo (rel j) (\<lambda>_. rel i)))))) t
     (\<lambda>_ u. inv u \<and> frame s u \<and> view u = written n (c_blk (view s) m) (view s))"
  proof (rule rd_step [OF t(1)])
    fix j u assume u: "inv u" "frame t u" "view u = (view t)\<lparr>c_open := (c_open (view t))(m := Some j), c_busy := insert m (c_busy (view t))\<rparr>"
    show "runs (kdo (kget (\<lambda>s. getd s j)) (\<lambda>d. kdo (setd i (\<lambda>_. d)) (\<lambda>_. kdo (wr i) (\<lambda>_. kdo (rel j) (\<lambda>_. rel i))))) u
       (\<lambda>_ u. inv u \<and> frame s u \<and> view u = written n (c_blk (view s) m) (view s))"
      by (rule copy_tail [OF s(1-4,6) u(1) frame_trans [OF t(2) u(2)]]) (use t u in \<open>simp add: insert_commute\<close>)
  qed (use t s room in \<open>simp_all add: insert_commute\<close>)
qed

end

lemma cv_sel [simp]:
  "c_blk (cv s) = blk s" "c_dsk (cv s) = memdisk s" "c_wr (cv s) = dwrites s" "c_open (cv s) = opens s"
  "c_busy (cv s) = busy s" "c_dirty (cv s) = dset s" "c_size (cv s) = disksize s"
  by (simp_all add: cv_def)

lemma bthread_blk:
  "bthread s \<Longrightarrow> n \<notin> busy s \<Longrightarrow> n \<notin> dset s \<Longrightarrow> blk s n = memdisk s n"
  "bthread s \<Longrightarrow> n < disksize s \<Longrightarrow> length (blk s n) = BSIZE"
  by (simp_all add: bthread_def blk_clean length_blk)

interpretation bc: block_cache "bread 1" bwrite brelse set_data "\<lambda>s i. b_data (bufs s ! i)" bthread bio_frame cv NBUF BSIZE
  by (unfold_locales; (unfold cv_sel)?;
      (assumption | rule bio_frame_refl bthread_blk bread_law bwrite_law set_data_law brelse_law
        | blast intro: bio_frame_trans opened_law finite_views)+)

text \<open>
  The cache at boot: \<open>fresh_bio\<close> describes the zeroed static storage in which \<^verbatim>\<open>binit\<close> starts, with
  some process running. Afterwards the invariant holds and the blocks are those of the disk.
\<close>

definition fresh_bio :: "'x kbio_scheme \<Rightarrow> bool" where
  "fresh_bio s \<longleftrightarrow> kthread s \<and> length (bufs s) = NBUF + 1 \<and>
     (\<forall>i < NBUF. b_dev (bufs s ! i) = 0 \<and> b_refcnt (bufs s ! i) = 0 \<and> \<not> b_valid (bufs s ! i) \<and>
        \<not> b_dirty (bufs s ! i) \<and> length (b_data (bufs s ! i)) = BSIZE) \<and>
     (\<forall>n < disksize s. length (memdisk s n) = BSIZE)"

definition fresh_view :: "'x kbio_scheme \<Rightarrow> cview" where
  "fresh_view s = \<lparr>c_blk = memdisk s, c_dsk = memdisk s, c_wr = dwrites s, c_open = (\<lambda>_. None), c_busy = {},
     c_dirty = {}, c_size = disksize s\<rparr>"

definition booted_bio :: "'x kbio_scheme \<Rightarrow> 'x kbio_scheme \<Rightarrow> bool" where
  "booted_bio s t \<longleftrightarrow> bthread t \<and> cv t = fresh_view s \<and> (\<exists>sl bs. t = s\<lparr>slk := sl, bufs := bs\<rparr>)"

lemma binit_fresh:
  assumes f: "fresh_bio s"
  shows "runs binit s (\<lambda>_. booted_bio s)"
proof -
  have len: "length (bufs s) = NBUF + 1" using f by (simp add: fresh_bio_def)
  have "booted_bio s t" if b: "binit_upto NBUF s t" for t
  proof -
    obtain sl bs where t: "t = s\<lparr>slk := sl, bufs := bs\<rparr>" using b by (auto simp: binit_upto_def)
    have ul: "map unlinked (bufs t) = map unlinked (bufs s)" "length (bufs t) = NBUF + 1"
      and sk: "\<forall>j < NBUF. slk t (SBuf j) = \<lparr>sl_locked = False, sl_pid = 0\<rparr>"
      using b by (simp_all add: binit_upto_def)
    have e: "b_dev (bufs t ! i) = 0" "b_refcnt (bufs t ! i) = 0" "\<not> b_valid (bufs t ! i)"
      "\<not> b_dirty (bufs t ! i)" "length (b_data (bufs t ! i)) = BSIZE" if "i < NBUF" for i
      using map_unlinked_sel [OF ul(1), of i] ul(2) f that by (auto simp: fresh_bio_def)
    have c: "\<not> cached t n i" for n i using e(1) by (auto simp: cached_def)
    have "lru_ring (bufs t) (rev [0..<NBUF])"
      using b unfolding binit_upto_def lru_ring_def by auto
    then have inv: "bc_inv t" unfolding bc_inv_def using c e sk f t by (auto simp: buf_ok_def fresh_bio_def)
    have "kthread t" using f t by (simp add: fresh_bio_def)
    moreover have "cv t = fresh_view s"
      using blk_disk [of t] c t by (simp add: cv_def fresh_view_def opens_def busy_def dset_def fun_eq_iff find_upt_None)
    ultimately show ?thesis using inv t unfolding booted_bio_def bthread_def by blast
  qed
  then show ?thesis by (rule runs_weaken [OF binit_runs [OF len]])
qed

end
