(* ===== verification/Log.thy ===== *)
theory Log
  imports Bio
begin

text \<open>
  The write-ahead log of \<^verbatim>\<open>src/fs/sfs/log.c\<close>: transactions, commit and recovery, with the
  superblock they are configured by (\<^verbatim>\<open>readsb\<close> of \<^verbatim>\<open>src/fs/sfs/fs.c\<close>).

  \<open>l_n\<close> and \<open>l_block\<close> are the in-memory header \<^verbatim>\<open>log.lh\<close>; on disk the header is the bytes of block
  \<open>l_start\<close>, encoded by \<open>put_head\<close> and decoded by \<open>read_head\<close>. The statements about crashes are in
  terms of the order of block writes \<open>dwrites\<close>: a crash keeps a prefix of them.
\<close>

section \<open>The code\<close>

definition LOGSIZE :: nat where [const_defs]: "LOGSIZE = 30"
definition MAXOPBLOCKS :: nat where [const_defs]: "MAXOPBLOCKS = 10"

record superblock =
  sb_size :: nat
  sb_nblocks :: nat
  sb_ninodes :: nat
  sb_nlog :: nat
  sb_logstart :: nat
  sb_inodestart :: nat
  sb_bmapstart :: nat

record logstate =
  l_start :: nat
  l_size :: nat
  l_outstanding :: int
  l_committing :: bool
  l_dev :: nat
  l_n :: int
  l_block :: "nat list"

record klog = kbio +
  log :: logstate

lemma klog_update_order [simp]:
  "s\<lparr>log := l, held := hs\<rparr> = s\<lparr>held := hs, log := l\<rparr>"
  "s\<lparr>log := l, procs := ps\<rparr> = s\<lparr>procs := ps, log := l\<rparr>"
  "s\<lparr>log := l, bufs := bs\<rparr> = s\<lparr>bufs := bs, log := l\<rparr>"
  by simp_all

definition upd_log :: "(logstate \<Rightarrow> logstate) \<Rightarrow> 'x klog_scheme \<Rightarrow> 'x klog_scheme" where
  "upd_log f s = s\<lparr>log := f (log s)\<rparr>"

text \<open>A 32-bit pattern read as a signed \<^verbatim>\<open>int\<close>.\<close>

definition sint32 :: "nat \<Rightarrow> int" where
  "sint32 x = (if x < 2 ^ 31 then int x else int x - 2 ^ 32)"

definition sb_of :: "u8 list \<Rightarrow> superblock" where
  "sb_of d = \<lparr>sb_size = get32 d 0, sb_nblocks = get32 d 4, sb_ninodes = get32 d 8, sb_nlog = get32 d 12,
     sb_logstart = get32 d 16, sb_inodestart = get32 d 20, sb_bmapstart = get32 d 24\<rparr>"

definition readsb :: "nat \<Rightarrow> ('x kbio_scheme, superblock) kop" where
  "readsb dev =
     kdo (bread dev 1) (\<lambda>b.
     kdo (kget (\<lambda>s. sb_of (b_data (bufs s ! b)))) (\<lambda>sb.
     kdo (brelse b) (\<lambda>_. kret sb)))"

text \<open>One iteration of \<^verbatim>\<open>install_trans\<close> and of \<^verbatim>\<open>write_log\<close>.\<close>

definition install_one :: "nat \<Rightarrow> ('x klog_scheme, unit) kop" where
  "install_one tail =
     kdo (kget log) (\<lambda>lg.
     kdo (bread (l_dev lg) (l_start lg + tail + 1)) (\<lambda>lbuf.
     kdo (bread (l_dev lg) (l_block lg ! tail)) (\<lambda>dbuf.
     kdo (kget (\<lambda>s. b_data (bufs s ! lbuf))) (\<lambda>d.
     kdo (set_data dbuf (\<lambda>_. d)) (\<lambda>_.
     kdo (bwrite dbuf) (\<lambda>_.
     kdo (brelse lbuf) (\<lambda>_.
     brelse dbuf)))))))"

definition install_trans :: "('x klog_scheme, unit) kop" where
  "install_trans = kdo (kget (\<lambda>s. l_n (log s))) (\<lambda>n. kfor install_one [0..<nat n])"

definition write_log_one :: "nat \<Rightarrow> ('x klog_scheme, unit) kop" where
  "write_log_one tail =
     kdo (kget log) (\<lambda>lg.
     kdo (bread (l_dev lg) (l_start lg + tail + 1)) (\<lambda>to.
     kdo (bread (l_dev lg) (l_block lg ! tail)) (\<lambda>from.
     kdo (kget (\<lambda>s. b_data (bufs s ! from))) (\<lambda>d.
     kdo (set_data to (\<lambda>_. d)) (\<lambda>_.
     kdo (bwrite to) (\<lambda>_.
     kdo (brelse from) (\<lambda>_.
     brelse to)))))))"

definition write_log :: "('x klog_scheme, unit) kop" where
  "write_log = kdo (kget (\<lambda>s. l_n (log s))) (\<lambda>n. kfor write_log_one [0..<nat n])"

text \<open>
  A header on disk with a count above \<open>LOGSIZE\<close> would make \<^verbatim>\<open>read_head\<close> write past \<^verbatim>\<open>log.lh.block\<close>,
  which is undefined.
\<close>

definition read_head :: "('x klog_scheme, unit) kop" where
  "read_head =
     kdo (kget log) (\<lambda>lg.
     kdo (bread (l_dev lg) (l_start lg)) (\<lambda>b.
     kdo (kget (\<lambda>s. b_data (bufs s ! b))) (\<lambda>d.
     kdo (kmod (upd_log (\<lambda>l. l\<lparr>l_n := sint32 (get32 d 0)\<rparr>))) (\<lambda>_.
     kdo (kget (\<lambda>s. l_n (log s))) (\<lambda>n.
     if n > int LOGSIZE then kfail (Undef ''log header overrun'') else
     kdo (kfor (\<lambda>i. kmod (upd_log (\<lambda>l. l\<lparr>l_block := (l_block l)[i := get32 d (4 + 4 * i)]\<rparr>))) [0..<nat n]) (\<lambda>_.
     brelse b))))))"

definition put_head :: "logstate \<Rightarrow> u8 list \<Rightarrow> u8 list" where
  "put_head lg d = fold (\<lambda>i d. put32 d (4 + 4 * i) (l_block lg ! i)) [0..<nat (l_n lg)] (put32 d 0 (nat (l_n lg mod 2 ^ 32)))"

definition write_head :: "('x klog_scheme, unit) kop" where
  "write_head =
     kdo (kget log) (\<lambda>lg.
     kdo (bread (l_dev lg) (l_start lg)) (\<lambda>b.
     kdo (kget log) (\<lambda>lg.
     kdo (set_data b (put_head lg)) (\<lambda>_.
     kdo (bwrite b) (\<lambda>_.
     brelse b)))))"

definition recover_from_log :: "('x klog_scheme, unit) kop" where
  "recover_from_log =
     kdo read_head (\<lambda>_.
     kdo install_trans (\<lambda>_.
     kdo (kmod (upd_log (\<lambda>l. l\<lparr>l_n := 0\<rparr>))) (\<lambda>_.
     write_head)))"

definition initlog :: "nat \<Rightarrow> ('x klog_scheme, unit) kop" where
  "initlog dev =
     kdo (readsb dev) (\<lambda>sb.
     kdo (kmod (upd_log (\<lambda>l. l\<lparr>l_start := sb_logstart sb, l_size := sb_nlog sb, l_dev := dev\<rparr>))) (\<lambda>_.
     recover_from_log))"

definition begin_op_loop :: "('x klog_scheme, unit) kop" where
  "begin_op_loop =
     kdo (kget log) (\<lambda>lg.
     if l_committing lg then sleep CLog (Some L_log)
     else if l_n lg + (l_outstanding lg + 1) * int MAXOPBLOCKS > int LOGSIZE then sleep CLog (Some L_log)
     else
       kdo (kmod (upd_log (\<lambda>l. l\<lparr>l_outstanding := l_outstanding l + 1\<rparr>))) (\<lambda>_.
       release_lk L_log))"

definition begin_op :: "('x klog_scheme, unit) kop" where
  "begin_op = kdo (acquire_lk L_log) (\<lambda>_. begin_op_loop)"

definition begin_op_resume :: "('x klog_scheme, unit) kop" where
  "begin_op_resume = kdo (sleep_resume (Some L_log)) (\<lambda>_. begin_op_loop)"

definition commit :: "('x klog_scheme, unit) kop" where
  "commit =
     kdo (kget (\<lambda>s. l_n (log s))) (\<lambda>n.
     kwhen (n > 0)
       (kdo write_log (\<lambda>_.
        kdo write_head (\<lambda>_.
        kdo install_trans (\<lambda>_.
        kdo (kmod (upd_log (\<lambda>l. l\<lparr>l_n := 0\<rparr>))) (\<lambda>_.
        write_head))))))"

definition end_op :: "('x klog_scheme, unit) kop" where
  "end_op =
     kdo (acquire_lk L_log) (\<lambda>_.
     kdo (kmod (upd_log (\<lambda>l. l\<lparr>l_outstanding := l_outstanding l - 1\<rparr>))) (\<lambda>_.
     kdo (kget log) (\<lambda>lg.
     if l_committing lg then kpanic ''log.committing''
     else
       kdo (if l_outstanding lg = 0 then kmod (upd_log (\<lambda>l. l\<lparr>l_committing := True\<rparr>)) else wakeup CLog) (\<lambda>_.
       kdo (release_lk L_log) (\<lambda>_.
       kwhen (l_outstanding lg = 0)
         (kdo commit (\<lambda>_.
          kdo (acquire_lk L_log) (\<lambda>_.
          kdo (kmod (upd_log (\<lambda>l. l\<lparr>l_committing := False\<rparr>))) (\<lambda>_.
          kdo (wakeup CLog) (\<lambda>_.
          release_lk L_log))))))))))"

definition log_find :: "nat \<Rightarrow> logstate \<Rightarrow> nat" where
  "log_find blockno lg = (case List.find (\<lambda>i. l_block lg ! i = blockno) [0..<nat (l_n lg)] of
     Some i \<Rightarrow> i | None \<Rightarrow> nat (l_n lg))"

definition log_write :: "nat \<Rightarrow> ('x klog_scheme, unit) kop" where
  "log_write b =
     kdo (kget log) (\<lambda>lg.
     if l_n lg \<ge> int LOGSIZE \<or> l_n lg \<ge> int (l_size lg) - 1 then kpanic ''too big a transaction''
     else if l_outstanding lg < 1 then kpanic ''log_write outside of trans''
     else
       kdo (acquire_lk L_log) (\<lambda>_.
       kdo (kget (\<lambda>s. b_blockno (bufs s ! b))) (\<lambda>bn.
       kdo (kget (\<lambda>s. log_find bn (log s))) (\<lambda>i.
       kdo (kmod (upd_log (\<lambda>l. l\<lparr>l_block := (l_block l)[i := bn]\<rparr>))) (\<lambda>_.
       kdo (kmod (upd_log (\<lambda>l. if int i = l_n l then l\<lparr>l_n := l_n l + 1\<rparr> else l))) (\<lambda>_.
       kdo (kmod (upd_buf b (\<lambda>x. x\<lparr>b_dirty := True\<rparr>))) (\<lambda>_.
       release_lk L_log)))))))"

section \<open>Basic facts\<close>

lemma upd_log_sel [simp]:
  "log (upd_log f s) = f (log s)" "bufs (upd_log f s) = bufs s" "held (upd_log f s) = held s"
  "procs (upd_log f s) = procs s" "cpu_proc (upd_log f s) = cpu_proc s" "slk (upd_log f s) = slk s"
  "memdisk (upd_log f s) = memdisk s" "dwrites (upd_log f s) = dwrites s" "disksize (upd_log f s) = disksize s"
  by (simp_all add: upd_log_def)

lemma upd_log_views [simp]:
  "cv (upd_log f s) = cv s" "bthread (upd_log f s) = bthread s" "kthread (upd_log f s) = kthread s"
  by (simp_all add: cv_def blk_def opens_def busy_def dset_def cached_def holds_def cur_pid_def
      bthread_def bc_inv_def kthread_def fun_eq_iff cong: option.case_cong)

lemma upd_log_cview [simp]:
  "blk (upd_log f s) = blk s" "busy (upd_log f s) = busy s" "dset (upd_log f s) = dset s" "opens (upd_log f s) = opens s"
  using upd_log_views(1) [of f s] by (simp_all add: cv_def)

lemma upd_log_upd_log [simp]: "upd_log f (upd_log g s) = upd_log (\<lambda>l. f (g l)) s"
  by (simp add: upd_log_def)

lemma bio_frame_log: "bio_frame s t \<Longrightarrow> log t = log s"
  by (auto simp: bio_frame_def)

lemma bio_frame_upd_log: "bio_frame s t \<Longrightarrow> bio_frame (upd_log f s) (upd_log f t)"
proof -
  assume "bio_frame s t"
  then obtain ps sl d w bs where t: "t = s\<lparr>procs := ps, slk := sl, memdisk := d, dwrites := w, bufs := bs\<rparr>"
    "pstatic ps = pstatic (procs s)" "\<forall>i. sl (SInode i) = slk s (SInode i)"
    unfolding bio_frame_def by blast
  show ?thesis
    by (rule bio_frameI [where ps = ps and sl = sl and d = d and w = w and bs = bs]) (use t in \<open>simp_all add: upd_log_def\<close>)
qed

lemma runs_kfor_upd_log:
  "runs (kfor (\<lambda>i. kmod (upd_log (g i))) xs) s Q = Q () (upd_log (fold g xs) s)"
proof (induction xs arbitrary: s)
  case Nil
  show ?case by (simp add: upd_log_def)
next
  case (Cons x xs)
  then show ?case by (simp add: comp_def)
qed

section \<open>The header\<close>

definition logged :: "logstate \<Rightarrow> nat list" where
  "logged lg = take (nat (l_n lg)) (l_block lg)"

definition head_ok :: "logstate \<Rightarrow> bool" where
  "head_ok lg \<longleftrightarrow> length (l_block lg) = LOGSIZE \<and> 0 \<le> l_n lg \<and> l_n lg \<le> int LOGSIZE \<and> (\<forall>b \<in> set (logged lg). b < 2 ^ 32)"

lemma nth_logged: "i < nat (l_n lg) \<Longrightarrow> logged lg ! i = l_block lg ! i"
  by (simp add: logged_def)

lemma head_ok_le: "head_ok lg \<Longrightarrow> nat (l_n lg) \<le> LOGSIZE"
  by (simp add: head_ok_def nat_le_iff)

lemma length_logged: "head_ok lg \<Longrightarrow> length (logged lg) = nat (l_n lg)"
  using head_ok_le [of lg] by (simp add: logged_def head_ok_def)

lemma logged_mem: "head_ok lg \<Longrightarrow> i < nat (l_n lg) \<Longrightarrow> l_block lg ! i \<in> set (logged lg)"
  by (metis length_logged nth_logged nth_mem)

lemma put_head_fold:
  assumes "length d = BSIZE" "k \<le> LOGSIZE" "\<forall>i < k. bl ! i < 2 ^ 32"
  defines "f \<equiv> \<lambda>k. fold (\<lambda>i d. put32 d (4 + 4 * i) (bl ! i)) [0..<k] d"
  shows "length (f k) = BSIZE \<and> get32 (f k) 0 = get32 d 0 \<and> (\<forall>i < k. get32 (f k) (4 + 4 * i) = bl ! i)"
  using assms(2,3)
proof (induction k)
  case 0
  then show ?case using assms(1) by (simp add: f_def)
next
  case (Suc k)
  then have IH: "length (f k) = BSIZE" "get32 (f k) 0 = get32 d 0" "\<forall>i < k. get32 (f k) (4 + 4 * i) = bl ! i"
    by simp_all
  have e: "f (Suc k) = put32 (f k) (4 + 4 * k) (bl ! k)" by (simp add: f_def)
  have b: "4 + 4 * k + 4 \<le> BSIZE" using Suc.prems by (simp add: BSIZE_def LOGSIZE_def)
  have "get32 (f (Suc k)) (4 + 4 * i) = bl ! i" if "i < Suc k" for i
  proof (cases "i = k")
    case True
    then show ?thesis unfolding e using IH(1) b Suc.prems by simp
  next
    case False
    then have "i < k" using that by simp
    then show ?thesis unfolding e using IH b by (subst get32_put32_other) simp_all
  qed
  then show ?case unfolding e using IH b by simp
qed

lemma put_head_ok:
  assumes "head_ok lg" "length d = BSIZE"
  shows "length (put_head lg d) = BSIZE" "get32 (put_head lg d) 0 = nat (l_n lg)"
    "i < nat (l_n lg) \<Longrightarrow> get32 (put_head lg d) (4 + 4 * i) = l_block lg ! i"
proof -
  have n: "nat (l_n lg mod 2 ^ 32) = nat (l_n lg)" "nat (l_n lg) \<le> LOGSIZE" "nat (l_n lg) < 2 ^ 32"
    using assms(1) by (auto simp: head_ok_def LOGSIZE_def)
  have d: "length (put32 d 0 (nat (l_n lg))) = BSIZE" using assms(2) by (simp add: BSIZE_def)
  have b: "\<forall>i < nat (l_n lg). l_block lg ! i < 2 ^ 32"
    using logged_mem [OF assms(1)] assms(1) by (auto simp: head_ok_def)
  have g: "get32 (put32 d 0 (nat (l_n lg))) 0 = nat (l_n lg)"
    by (rule get32_put32_same) (use assms(2) n in \<open>simp_all add: BSIZE_def\<close>)
  note f = put_head_fold [OF d n(2) b]
  show "length (put_head lg d) = BSIZE" "get32 (put_head lg d) 0 = nat (l_n lg)"
    "i < nat (l_n lg) \<Longrightarrow> get32 (put_head lg d) (4 + 4 * i) = l_block lg ! i"
    unfolding put_head_def n(1) using f g by simp_all
qed

text \<open>The header \<^verbatim>\<open>read_head\<close> builds from the bytes \<open>d\<close>.\<close>

definition get_head :: "u8 list \<Rightarrow> logstate \<Rightarrow> logstate" where
  "get_head d lg = fold (\<lambda>i l. l\<lparr>l_block := (l_block l)[i := get32 d (4 + 4 * i)]\<rparr>) [0..<nat (sint32 (get32 d 0))]
     (lg\<lparr>l_n := sint32 (get32 d 0)\<rparr>)"

lemma get_head_fold:
  "fold (\<lambda>i l. l\<lparr>l_block := (l_block l)[i := h i]\<rparr>) [0..<k] lg =
     lg\<lparr>l_block := map (\<lambda>i. if i < k then h i else l_block lg ! i) [0..<length (l_block lg)]\<rparr>"
proof (induction k)
  case 0
  have "map (\<lambda>i. l_block lg ! i) [0..<length (l_block lg)] = l_block lg" by (rule map_nth)
  then show ?case by simp
next
  case (Suc k)
  then show ?case by (auto intro!: arg_cong [where f = "\<lambda>b. lg\<lparr>l_block := b\<rparr>"] nth_equalityI simp: nth_list_upd)
qed

lemma get_head_eq:
  assumes "length (l_block lg) = LOGSIZE"
  shows "l_n (get_head d lg) = sint32 (get32 d 0)" "length (l_block (get_head d lg)) = LOGSIZE"
    "i < nat (sint32 (get32 d 0)) \<Longrightarrow> i < LOGSIZE \<Longrightarrow> l_block (get_head d lg) ! i = get32 d (4 + 4 * i)"
    "l_start (get_head d lg) = l_start lg" "l_size (get_head d lg) = l_size lg" "l_dev (get_head d lg) = l_dev lg"
    "l_outstanding (get_head d lg) = l_outstanding lg" "l_committing (get_head d lg) = l_committing lg"
  using assms by (simp_all add: get_head_def get_head_fold)

text \<open>Encoding and decoding are inverse.\<close>

lemma get_put_head:
  assumes "head_ok lg" "length d = BSIZE" "length (l_block lg') = LOGSIZE"
  shows "l_n (get_head (put_head lg d) lg') = l_n lg" "logged (get_head (put_head lg d) lg') = logged lg"
proof -
  have g: "sint32 (get32 (put_head lg d) 0) = l_n lg"
    using put_head_ok(2) [OF assms(1,2)] assms(1) by (auto simp: sint32_def head_ok_def LOGSIZE_def)
  show n: "l_n (get_head (put_head lg d) lg') = l_n lg" using get_head_eq(1) [OF assms(3)] g by simp
  have l: "nat (l_n lg) \<le> LOGSIZE" by (rule head_ok_le [OF assms(1)])
  show "logged (get_head (put_head lg d) lg') = logged lg"
  proof (rule nth_equalityI)
    show "length (logged (get_head (put_head lg d) lg')) = length (logged lg)"
      using n l get_head_eq(2) [OF assms(3)] assms(1) by (simp add: logged_def head_ok_def)
    fix i assume "i < length (logged (get_head (put_head lg d) lg'))"
    then have "i < nat (l_n lg)" by (simp add: logged_def n)
    then show "logged (get_head (put_head lg d) lg') ! i = logged lg ! i"
      using get_head_eq(3) [OF assms(3), of i "put_head lg d"] g l put_head_ok(3) [OF assms(1,2), of i]
      by (simp add: logged_def n)
  qed
qed

section \<open>Block writes\<close>

definition writes_view :: "cview \<Rightarrow> (nat \<times> u8 list) list \<Rightarrow> cview" where
  "writes_view V ws = V\<lparr>c_blk := writes_on (c_blk V) ws, c_dsk := writes_on (c_dsk V) ws, c_wr := c_wr V @ ws,
     c_dirty := c_dirty V - fst ` set ws\<rparr>"

lemma diff_diff_union: "A - B - C = A - (B \<union> C)"
  by auto

lemma writes_view_simps [simp]:
  "writes_view V [] = V" "writes_view (writes_view V ws) vs = writes_view V (ws @ vs)"
  "written n d (writes_view V ws) = writes_view V (ws @ [(n, d)])"
  by (simp_all add: writes_view_def written_def diff_diff_union image_Un)

lemma writes_view_sel [simp]:
  "c_blk (writes_view V ws) = writes_on (c_blk V) ws" "c_dsk (writes_view V ws) = writes_on (c_dsk V) ws"
  "c_wr (writes_view V ws) = c_wr V @ ws" "c_dirty (writes_view V ws) = c_dirty V - fst ` set ws"
  "c_busy (writes_view V ws) = c_busy V" "c_size (writes_view V ws) = c_size V" "c_open (writes_view V ws) = c_open V"
  by (simp_all add: writes_view_def)

lemma written_writes: "written n d V = writes_view V [(n, d)]"
  by (simp add: writes_view_def written_def)

text \<open>The region of the log on disk, and what makes an in-memory header fit a disk of \<open>dsz\<close> blocks.\<close>

definition log_region :: "logstate \<Rightarrow> nat set" where
  "log_region lg = {l_start lg ..< l_start lg + l_size lg}"

definition log_wf :: "nat \<Rightarrow> logstate \<Rightarrow> bool" where
  "log_wf dsz lg \<longleftrightarrow> l_dev lg = 1 \<and> head_ok lg \<and> l_n lg < int (l_size lg) \<and> l_size lg \<le> LOGSIZE \<and>
     l_start lg + l_size lg \<le> dsz \<and> distinct (logged lg) \<and>
     (\<forall>b \<in> set (logged lg). b < dsz \<and> b \<notin> log_region lg)"

lemma log_wfD:
  assumes "log_wf dsz lg"
  shows "l_dev lg = 1" "head_ok lg" "nat (l_n lg) < l_size lg" "nat (l_n lg) < NBUF" "l_start lg + l_size lg \<le> dsz"
    "l_start lg < dsz" "distinct (logged lg)" "length (logged lg) = nat (l_n lg)"
    "i < nat (l_n lg) \<Longrightarrow> l_block lg ! i < dsz \<and> l_block lg ! i \<notin> log_region lg \<and> l_block lg ! i \<in> set (logged lg)"
    "i < nat (l_n lg) \<Longrightarrow> l_start lg + i + 1 \<in> log_region lg \<and> l_start lg + i + 1 < dsz"
proof -
  show 1: "l_dev lg = 1" "head_ok lg" "distinct (logged lg)" "l_start lg + l_size lg \<le> dsz"
    using assms by (simp_all add: log_wf_def)
  have n: "0 \<le> l_n lg" "l_n lg < int (l_size lg)" "l_size lg \<le> LOGSIZE"
    using assms by (simp_all add: log_wf_def head_ok_def)
  then show 2: "nat (l_n lg) < l_size lg" by linarith
  then show "nat (l_n lg) < NBUF" "l_start lg < dsz" using n 1 by (simp_all add: LOGSIZE_def NBUF_def)
  show "length (logged lg) = nat (l_n lg)" by (rule length_logged [OF 1(2)])
  show "l_block lg ! i < dsz \<and> l_block lg ! i \<notin> log_region lg \<and> l_block lg ! i \<in> set (logged lg)" if "i < nat (l_n lg)"
    using logged_mem [OF 1(2) that] assms by (auto simp: log_wf_def)
  show "l_start lg + i + 1 \<in> log_region lg \<and> l_start lg + i + 1 < dsz" if "i < nat (l_n lg)"
    using that 2 1 by (simp add: log_region_def)
qed

definition log_writes :: "logstate \<Rightarrow> (nat \<Rightarrow> u8 list) \<Rightarrow> (nat \<times> u8 list) list" where
  "log_writes lg B = map (\<lambda>i. (l_start lg + i + 1, B (l_block lg ! i))) [0..<nat (l_n lg)]"

definition home_writes :: "logstate \<Rightarrow> (nat \<Rightarrow> u8 list) \<Rightarrow> (nat \<times> u8 list) list" where
  "home_writes lg B = map (\<lambda>i. (l_block lg ! i, B (l_start lg + i + 1))) [0..<nat (l_n lg)]"

text \<open>Commit and recovery run while nobody has a block open; only logged blocks may be pinned.\<close>

definition quiet :: "'x klog_scheme \<Rightarrow> bool" where
  "quiet s \<longleftrightarrow> bthread s \<and> busy s = {} \<and> log_wf (disksize s) (log s) \<and> dset s \<subseteq> set (logged (log s))"

lemma quietD:
  assumes "quiet s"
  shows "bthread s" "busy s = {}" "log_wf (disksize s) (log s)" "dset s \<subseteq> set (logged (log s))"
    "D \<subseteq> dset s \<Longrightarrow> b \<in> set (logged (log s)) \<Longrightarrow> card (insert n (insert b D)) \<le> NBUF"
    "D \<subseteq> dset s \<Longrightarrow> card (insert n D) \<le> NBUF"
proof -
  show 1: "bthread s" "busy s = {}" "log_wf (disksize s) (log s)" "dset s \<subseteq> set (logged (log s))"
    using assms by (simp_all add: quiet_def)
  have c: "card (set (logged (log s))) < NBUF"
    using log_wfD(4,7,8) [OF 1(3)] distinct_card [of "logged (log s)"] by simp
  have k: "card (insert n E) \<le> NBUF" if "E \<subseteq> set (logged (log s))" for E
  proof -
    have "card E \<le> card (set (logged (log s)))" by (rule card_mono [OF _ that]) simp
    then show ?thesis using c card_insert_le_m1 [of NBUF E n] by simp
  qed
  show "D \<subseteq> dset s \<Longrightarrow> b \<in> set (logged (log s)) \<Longrightarrow> card (insert n (insert b D)) \<le> NBUF"
    by (rule k) (use 1(4) in auto)
  show "D \<subseteq> dset s \<Longrightarrow> card (insert n D) \<le> NBUF" by (rule k) (use 1(4) in auto)
qed

definition quiet_step :: "'x klog_scheme \<Rightarrow> (nat \<times> u8 list) list \<Rightarrow> 'x klog_scheme \<Rightarrow> bool" where
  "quiet_step s ws t \<longleftrightarrow> bthread t \<and> bio_frame s t \<and> cv t = writes_view (cv s) ws"

lemma quiet_stepD:
  assumes "quiet s" "quiet_step s ws t"
  shows "quiet t" "log t = log s" "blk t = writes_on (blk s) ws" "memdisk t = writes_on (memdisk s) ws"
    "dwrites t = dwrites s @ ws" "dset t = dset s - fst ` set ws" "busy t = {}" "disksize t = disksize s"
    "bthread t" "bio_frame s t"
proof -
  show 1: "bthread t" "bio_frame s t" "log t = log s" using assms by (simp_all add: quiet_step_def bio_frame_log)
  have v: "cv t = writes_view (cv s) ws" using assms by (simp add: quiet_step_def)
  show 2: "blk t = writes_on (blk s) ws" "memdisk t = writes_on (memdisk s) ws" "dwrites t = dwrites s @ ws"
    "dset t = dset s - fst ` set ws" "busy t = {}" "disksize t = disksize s"
    using arg_cong [OF v, of c_blk] arg_cong [OF v, of c_dsk] arg_cong [OF v, of c_wr]
      arg_cong [OF v, of c_dirty] arg_cong [OF v, of c_busy] arg_cong [OF v, of c_size] assms(1)
    by (simp_all add: quiet_def)
  show "quiet t" using 1 2 assms(1) by (auto simp: quiet_def)
qed

lemma quiet_step_refl [simp]: "quiet s \<Longrightarrow> quiet_step s [] s"
  by (simp add: quiet_step_def quiet_def)

lemma quiet_step_trans: "quiet_step s ws t \<Longrightarrow> quiet_step t vs u \<Longrightarrow> quiet_step s (ws @ vs) u"
  unfolding quiet_step_def using bio_frame_trans [of s t u] by simp

section \<open>Writing the log, installing it, writing the header\<close>

lemma fst_log_writes: "fst ` set (map (\<lambda>i. (l_start lg + i + 1, B i)) [0..<k]) = (\<lambda>i. l_start lg + i + 1) ` {..<k}"
  by (auto simp: image_iff)

lemma write_log_one_step:
  assumes q: "quiet s" and i: "i < nat (l_n (log s))"
    and t: "quiet_step s (map (\<lambda>j. (l_start (log s) + j + 1, blk s (l_block (log s) ! j))) [0..<i]) t"
  shows "runs (write_log_one i) t (\<lambda>_. quiet_step s (map (\<lambda>j. (l_start (log s) + j + 1, blk s (l_block (log s) ! j))) [0..<Suc i]))"
proof -
  let ?lg = "log s" and ?n = "l_start (log s) + i + 1" and ?m = "l_block (log s) ! i"
  note qs = quietD [OF q] and qt = quiet_stepD [OF q t]
  note w = log_wfD(1,9,10) [OF qs(3)]
  have nm: "?n \<noteq> ?m" "?n < disksize s" "?m < disksize s" "?m \<in> set (logged ?lg)" using w(2,3) [OF i] by auto
  have b: "blk t ?m = blk s ?m"
    unfolding qt(3) by (rule writes_on_other) (use w(2) [OF i] w(3) i in \<open>fastforce simp: log_region_def\<close>)
  have c: "card (insert ?n (insert ?m (busy t \<union> dset t))) \<le> NBUF"
    using quietD(5) [OF q, of "dset t" ?m ?n] nm(4) qt(6,7) by simp
  have "runs (kdo (bread 1 ?n) (\<lambda>i. kdo (bread 1 ?m) (\<lambda>j. kdo (kget (\<lambda>s. b_data (bufs s ! j))) (\<lambda>d.
       kdo (set_data i (\<lambda>_. d)) (\<lambda>_. kdo (bwrite i) (\<lambda>_. kdo (brelse j) (\<lambda>_. brelse i))))))) t
     (\<lambda>_ u. bthread u \<and> bio_frame t u \<and> cv u = written ?n (c_blk (cv t) ?m) (cv t))"
    by (rule bc.copy_dst_first) (use qt nm c in simp_all)
  then show ?thesis
    unfolding write_log_one_def runs_kdo [of "kget log"] runs_kget qt(2) w(1)
    by (rule runs_weaken) (use t b in \<open>auto simp: quiet_step_def written_writes intro: bio_frame_trans\<close>)
qed

lemma write_log_law:
  assumes q: "quiet s"
  shows "runs write_log s (\<lambda>_. quiet_step s (log_writes (log s) (blk s)))"
  unfolding write_log_def log_writes_def runs_kdo runs_kget
  by (rule runs_kfor_upt [where I = "\<lambda>i. quiet_step s (map (\<lambda>j. (l_start (log s) + j + 1, blk s (l_block (log s) ! j))) [0..<i])"])
    (use q in \<open>(assumption | rule le0 write_log_one_step | simp)+\<close>)

lemma install_one_step:
  assumes q: "quiet s" and i: "i < nat (l_n (log s))"
    and t: "quiet_step s (map (\<lambda>j. (l_block (log s) ! j, blk s (l_start (log s) + j + 1))) [0..<i]) t"
  shows "runs (install_one i) t (\<lambda>_. quiet_step s (map (\<lambda>j. (l_block (log s) ! j, blk s (l_start (log s) + j + 1))) [0..<Suc i]))"
proof -
  let ?lg = "log s" and ?m = "l_start (log s) + i + 1" and ?n = "l_block (log s) ! i"
  note qs = quietD [OF q] and qt = quiet_stepD [OF q t]
  note w = log_wfD(1,9,10) [OF qs(3)]
  have nm: "?n \<noteq> ?m" "?n < disksize s" "?m < disksize s" "?n \<in> set (logged ?lg)" using w(2,3) [OF i] by auto
  have b: "blk t ?m = blk s ?m"
    unfolding qt(3) by (rule writes_on_other) (use w(3) [OF i] w(2) i in fastforce)
  have c: "card (insert ?n (insert ?m (busy t \<union> dset t))) \<le> NBUF"
    using quietD(5) [OF q, of "dset t" ?n ?m] nm(4) qt(6,7) by (simp add: insert_commute)
  have "runs (kdo (bread 1 ?m) (\<lambda>j. kdo (bread 1 ?n) (\<lambda>i. kdo (kget (\<lambda>s. b_data (bufs s ! j))) (\<lambda>d.
       kdo (set_data i (\<lambda>_. d)) (\<lambda>_. kdo (bwrite i) (\<lambda>_. kdo (brelse j) (\<lambda>_. brelse i))))))) t
     (\<lambda>_ u. bthread u \<and> bio_frame t u \<and> cv u = written ?n (c_blk (cv t) ?m) (cv t))"
    by (rule bc.copy_src_first) (use qt nm c in simp_all)
  then show ?thesis
    unfolding install_one_def runs_kdo [of "kget log"] runs_kget qt(2) w(1)
    by (rule runs_weaken) (use t b in \<open>auto simp: quiet_step_def written_writes intro: bio_frame_trans\<close>)
qed

lemma install_trans_law:
  assumes q: "quiet s"
  shows "runs install_trans s (\<lambda>_. quiet_step s (home_writes (log s) (blk s)))"
  unfolding install_trans_def home_writes_def runs_kdo runs_kget
  by (rule runs_kfor_upt [where I = "\<lambda>i. quiet_step s (map (\<lambda>j. (l_block (log s) ! j, blk s (l_start (log s) + j + 1))) [0..<i])"])
    (use q in \<open>(assumption | rule le0 install_one_step | simp)+\<close>)

lemma write_head_law:
  assumes "bthread s" "busy s = {}" "l_dev (log s) = 1" "l_start (log s) < disksize s" "head_ok (log s)"
    "card (insert (l_start (log s)) (dset s)) \<le> NBUF"
  shows "runs write_head s (\<lambda>_. quiet_step s [(l_start (log s), put_head (log s) (blk s (l_start (log s))))])"
proof -
  have "runs (kdo (bread 1 (l_start (log s))) (\<lambda>i. kdo (kget log) (\<lambda>x. kdo (set_data i (put_head x)) (\<lambda>_. kdo (bwrite i) (\<lambda>_. brelse i))))) s
     (\<lambda>_ t. bthread t \<and> bio_frame s t \<and> cv t = written (l_start (log s)) (put_head (log s) (c_blk (cv s) (l_start (log s)))) (cv s))"
    by (rule bc.write_through)
      (use assms bthread_blk(2) [OF assms(1,4)] in \<open>simp_all add: bio_frame_log put_head_ok(1)\<close>)
  then show ?thesis
    unfolding write_head_def runs_kdo [of "kget log"] runs_kget assms(3) quiet_step_def by (simp add: written_writes)
qed

section \<open>Commit\<close>

text \<open>The sequence of block writes \<^verbatim>\<open>commit\<close> performs.\<close>

definition head_write :: "logstate \<Rightarrow> u8 list \<Rightarrow> nat \<times> u8 list" where
  "head_write lg d = (l_start lg, put_head lg d)"

definition commit_writes :: "logstate \<Rightarrow> (nat \<Rightarrow> u8 list) \<Rightarrow> (nat \<times> u8 list) list" where
  "commit_writes lg B =
     (let h = put_head lg (B (l_start lg)) in
      log_writes lg B @ [(l_start lg, h)] @ map (\<lambda>i. (l_block lg ! i, B (l_block lg ! i))) [0..<nat (l_n lg)] @
      [(l_start lg, put_head (lg\<lparr>l_n := 0\<rparr>) h)])"

definition log_frame :: "'x klog_scheme \<Rightarrow> 'x klog_scheme \<Rightarrow> bool" where
  "log_frame s t \<longleftrightarrow> (\<exists>f. bio_frame (upd_log f s) t)"

lemma writes_on_log_writes:
  assumes "k < nat (l_n lg)"
  shows "writes_on d (log_writes lg B) (l_start lg + k + 1) = B (l_block lg ! k)"
proof -
  have "distinct (map fst (log_writes lg B))" by (simp add: log_writes_def comp_def distinct_map inj_on_def)
  from writes_on_nth [OF this, of k d] show ?thesis using assms by (simp add: log_writes_def)
qed

lemma log_writes_other: "n \<notin> (\<lambda>i. l_start lg + i + 1) ` {..<nat (l_n lg)} \<Longrightarrow> writes_on d (log_writes lg B) n = d n"
  unfolding log_writes_def by (rule writes_on_other) (simp only: fst_log_writes, simp)

lemma home_writes_after_log:
  assumes w: "log_wf dsz lg"
    and B: "\<And>i. i < nat (l_n lg) \<Longrightarrow> B' (l_start lg + i + 1) = B (l_block lg ! i)"
  shows "home_writes lg B' = map (\<lambda>i. (l_block lg ! i, B (l_block lg ! i))) [0..<nat (l_n lg)]"
  unfolding home_writes_def using B by simp

lemma head_ok_zero: "head_ok lg \<Longrightarrow> head_ok (lg\<lparr>l_n := 0\<rparr>)"
  by (simp add: head_ok_def logged_def)

lemma commit_law:
  assumes q: "quiet s" and n: "0 < l_n (log s)"
  shows "runs commit s (\<lambda>_ t. bthread t \<and> bio_frame (upd_log (\<lambda>l. l\<lparr>l_n := 0\<rparr>) s) t \<and>
     cv t = writes_view (cv s) (commit_writes (log s) (blk s)))"
proof -
  let ?lg = "log s" and ?B = "blk s" and ?z = "\<lambda>l::logstate. l\<lparr>l_n := 0\<rparr>"
  let ?st = "l_start (log s)" and ?ws = "log_writes (log s) (blk s)"
  let ?h = "put_head (log s) (blk s (l_start (log s)))"
  let ?hs = "map (\<lambda>i. (l_block ?lg ! i, ?B (l_block ?lg ! i))) [0..<nat (l_n ?lg)]"
  let ?Q = "\<lambda>_ t. bthread t \<and> bio_frame (upd_log ?z s) t \<and> cv t = writes_view (cv s) (commit_writes ?lg ?B)"
  have w: "log_wf (disksize s) ?lg" by (rule quietD(3) [OF q])
  note wf = log_wfD [OF w]
  have last: "runs write_head (upd_log ?z t) ?Q" if t: "quiet_step s (?ws @ [(?st, ?h)] @ ?hs) t" for t
  proof -
    note qt = quiet_stepD [OF q t]
    have bs: "blk t ?st = ?h"
    proof -
      have "?st \<notin> fst ` set ?hs" using wf(9) wf(3) by (force simp: log_region_def)
      then show ?thesis unfolding qt(3) by (simp add: writes_on_other)
    qed
    have c: "card (insert ?st (dset t)) \<le> NBUF" by (rule quietD(6) [OF q]) (use qt(6) in auto)
    have "runs write_head (upd_log ?z t) (\<lambda>_. quiet_step (upd_log ?z t)
        [(l_start (log (upd_log ?z t)), put_head (log (upd_log ?z t)) (blk (upd_log ?z t) (l_start (log (upd_log ?z t)))))])"
      by (rule write_head_law) (use qt(2,7,8,9) wf(1,2,6) head_ok_zero c in simp_all)
    then show ?thesis
    proof (rule runs_weaken)
      fix x u
      assume u: "quiet_step (upd_log ?z t) [(l_start (log (upd_log ?z t)), put_head (log (upd_log ?z t)) (blk (upd_log ?z t) (l_start (log (upd_log ?z t)))))] u"
      have "cv u = writes_view (cv t) [(?st, put_head (?z ?lg) ?h)]" using u bs qt(2) by (simp add: quiet_step_def)
      also have "cv t = writes_view (cv s) (?ws @ [(?st, ?h)] @ ?hs)" using t by (simp add: quiet_step_def)
      finally have "cv u = writes_view (cv s) (commit_writes ?lg ?B)"
        by (simp add: commit_writes_def Let_def)
      moreover have "bio_frame (upd_log ?z s) u"
        using u bio_frame_upd_log [OF qt(10), of ?z] by (auto simp: quiet_step_def intro: bio_frame_trans)
      ultimately show "?Q x u" using u by (simp add: quiet_step_def)
    qed
  qed
  have inst: "runs (kdo install_trans (\<lambda>_. kdo (kmod (upd_log ?z)) (\<lambda>_. write_head))) t ?Q"
    if t: "quiet_step s (?ws @ [(?st, ?h)]) t" for t
  proof -
    note qt = quiet_stepD [OF q t]
    have "blk t (?st + i + 1) = ?B (l_block ?lg ! i)" if "i < nat (l_n ?lg)" for i
      unfolding qt(3) using writes_on_log_writes [OF that, of ?B ?B] by simp
    then have "home_writes (log t) (blk t) = ?hs" unfolding qt(2) by (rule home_writes_after_log [OF w])
    then have "runs install_trans t (\<lambda>_. quiet_step t ?hs)" using install_trans_law [OF qt(1)] by simp
    then have "runs install_trans t (\<lambda>_. quiet_step s (?ws @ [(?st, ?h)] @ ?hs))"
      by (rule runs_weaken) (use quiet_step_trans [OF t] in simp)
    then show ?thesis unfolding runs_kdo by (rule runs_weaken) (use last in simp)
  qed
  have head: "runs (kdo write_head (\<lambda>_. kdo install_trans (\<lambda>_. kdo (kmod (upd_log ?z)) (\<lambda>_. write_head)))) t ?Q"
    if t: "quiet_step s ?ws t" for t
  proof -
    note qt = quiet_stepD [OF q t]
    have "blk t ?st = ?B ?st" unfolding qt(3) by (rule log_writes_other) auto
    then have "runs write_head t (\<lambda>_. quiet_step t [(?st, ?h)])"
      using write_head_law [of t] qt wf quietD(6) [OF qt(1), of "dset t"] by simp
    then have "runs write_head t (\<lambda>_. quiet_step s (?ws @ [(?st, ?h)]))"
      by (rule runs_weaken) (rule quiet_step_trans [OF t])
    then show ?thesis unfolding runs_kdo [of write_head] by (rule runs_weaken) (rule inst)
  qed
  show ?thesis unfolding commit_def using n
    by (simp only: runs_kdo [of "kget (\<lambda>s. l_n (log s))"] runs_kget runs_kwhen if_True runs_kdo [of write_log])
      (rule runs_weaken [OF write_log_law [OF q]], rule head)
qed

section \<open>Recovery\<close>

lemma read_head_law:
  assumes k: "bthread s" "busy s = {}" "dset s = {}" and lg: "l_dev (log s) = 1" "l_start (log s) < disksize s"
    and n: "sint32 (get32 (blk s (l_start (log s))) 0) \<le> int LOGSIZE"
  shows "runs read_head s (\<lambda>_ t. bthread t \<and> bio_frame (upd_log (get_head (blk s (l_start (log s)))) s) t \<and> cv t = cv s)"
proof -
  let ?st = "l_start (log s)" and ?f = "get_head (blk s (l_start (log s)))"
  let ?Q = "\<lambda>_ t. bthread t \<and> bio_frame (upd_log ?f s) t \<and> cv t = cv s"
  have o: "opens s ?st = None" using bc.not_open [OF k(1), of ?st] k(2) by simp
  show ?thesis unfolding read_head_def runs_kdo [of "kget log"] runs_kget lg(1)
  proof (rule bc.rd_step [OF k(1)])
    fix i t
    assume t: "bthread t" "bio_frame s t" "cv t = (cv s)\<lparr>c_open := (c_open (cv s))(?st := Some i), c_busy := insert ?st (c_busy (cv s))\<rparr>"
    have v: "opens t ?st = Some i" "blk t = blk s" "busy t = {?st}" "dset t = {}" "memdisk t = memdisk s"
      using arg_cong [OF t(3), of c_open] arg_cong [OF t(3), of c_blk] arg_cong [OF t(3), of c_busy]
        arg_cong [OF t(3), of c_dirty] arg_cong [OF t(3), of c_dsk] k by simp_all
    have d: "b_data (bufs t ! i) = blk s ?st" using opened_law(3) [OF t(1) v(1)] v(2) by simp
    have cl: "blk s ?st = memdisk s ?st" using bthread_blk(1) [OF k(1)] k(2,3) by simp
    have "runs (brelse i) (upd_log ?f t) ?Q"
    proof (rule runs_weaken [OF brelse_law [of _ ?st]])
      fix x u
      assume u: "bthread u \<and> bio_frame (upd_log ?f t) u \<and>
        cv u = (cv (upd_log ?f t))\<lparr>c_open := (opens (upd_log ?f t))(?st := None), c_busy := busy (upd_log ?f t) - {?st}\<rparr>"
      have "bio_frame (upd_log ?f s) u"
        using u bio_frame_trans [OF bio_frame_upd_log [OF t(2), of ?f]] by blast
      moreover have "cv u = cv s" using u t(3) v k o arg_cong [OF t(3), of c_open] by (simp add: cv_def fun_upd_idem)
      ultimately show "?Q x u" using u by blast
    qed (use t v cl in simp_all)
    moreover have "(\<lambda>l. fold (\<lambda>i l. l\<lparr>l_block := (l_block l)[i := get32 (blk s ?st) (4 + 4 * i)]\<rparr>)
        [0..<nat (sint32 (get32 (blk s ?st) 0))] (l\<lparr>l_n := sint32 (get32 (blk s ?st) 0)\<rparr>)) = ?f"
      by (simp add: get_head_def fun_eq_iff)
    ultimately show "runs (kdo (kget (\<lambda>s. b_data (bufs s ! i))) (\<lambda>d.
       kdo (kmod (upd_log (\<lambda>l. l\<lparr>l_n := sint32 (get32 d 0)\<rparr>))) (\<lambda>_.
       kdo (kget (\<lambda>s. l_n (log s))) (\<lambda>n.
       if n > int LOGSIZE then kfail (Undef ''log header overrun'') else
       kdo (kfor (\<lambda>i. kmod (upd_log (\<lambda>l. l\<lparr>l_block := (l_block l)[i := get32 d (4 + 4 * i)]\<rparr>))) [0..<nat n]) (\<lambda>_.
       brelse i))))) t ?Q"
      using n by (simp add: d runs_kfor_upd_log)
  qed (use lg k in \<open>simp_all add: NBUF_def\<close>)
qed

definition recover_writes :: "logstate \<Rightarrow> (nat \<Rightarrow> u8 list) \<Rightarrow> (nat \<times> u8 list) list" where
  "recover_writes lg B = home_writes lg B @ [(l_start lg, put_head (lg\<lparr>l_n := 0\<rparr>) (B (l_start lg)))]"

lemma recover_law:
  assumes k: "bthread s" "busy s = {}" "dset s = {}" and d: "l_dev (log s) = 1" "length (l_block (log s)) = LOGSIZE"
    and lg: "lg = get_head (blk s (l_start (log s))) (log s)" and w: "log_wf (disksize s) lg"
  shows "runs recover_from_log s (\<lambda>_ t. bthread t \<and> bio_frame (upd_log (\<lambda>_. lg\<lparr>l_n := 0\<rparr>) s) t \<and>
     cv t = writes_view (cv s) (recover_writes lg (blk s)))"
proof -
  let ?st = "l_start (log s)" and ?f = "get_head (blk s (l_start (log s)))" and ?z = "\<lambda>l::logstate. l\<lparr>l_n := 0\<rparr>"
  let ?Q = "\<lambda>_ t. bthread t \<and> bio_frame (upd_log (\<lambda>_. ?z lg) s) t \<and> cv t = writes_view (cv s) (recover_writes lg (blk s))"
  note wf = log_wfD [OF w]
  have st: "l_start lg = ?st" using get_head_eq(4) [OF d(2)] lg by simp
  have n: "sint32 (get32 (blk s ?st) 0) \<le> int LOGSIZE"
    using wf(2) get_head_eq(1) [OF d(2)] lg by (simp add: head_ok_def)
  have tail: "runs (kdo install_trans (\<lambda>_. kdo (kmod (upd_log ?z)) (\<lambda>_. write_head))) t ?Q"
    if t: "bthread t \<and> bio_frame (upd_log ?f s) t \<and> cv t = cv s" for t
  proof -
    have lt: "log t = lg" using t bio_frame_log [of "upd_log ?f s" t] lg by simp
    have v: "blk t = blk s" "busy t = {}" "dset t = {}" "disksize t = disksize s" using t k by (simp_all add: cv_def)
    have q: "quiet t" using t v w lt by (simp add: quiet_def)
    have "runs install_trans t (\<lambda>_. quiet_step t (home_writes lg (blk s)))"
      using install_trans_law [OF q] lt v by simp
    then show ?thesis unfolding runs_kdo runs_kmod
    proof (rule runs_weaken)
      fix x u assume u: "quiet_step t (home_writes lg (blk s)) u"
      note qu = quiet_stepD [OF q u]
      have bs: "blk u ?st = blk s ?st"
      proof -
        have "?st \<notin> fst ` set (home_writes lg (blk s))"
          using wf(9) wf(3) st by (fastforce simp: log_region_def home_writes_def)
        then show ?thesis unfolding qu(3) v by (simp add: writes_on_other)
      qed
      have "runs write_head (upd_log ?z u) (\<lambda>_. quiet_step (upd_log ?z u)
          [(l_start (log (upd_log ?z u)), put_head (log (upd_log ?z u)) (blk (upd_log ?z u) (l_start (log (upd_log ?z u)))))])"
        by (rule write_head_law) (use qu v lt wf head_ok_zero st in \<open>simp_all add: NBUF_def\<close>)
      then show "runs write_head (upd_log ?z u) ?Q"
      proof (rule runs_weaken)
        fix y x assume x: "quiet_step (upd_log ?z u)
          [(l_start (log (upd_log ?z u)), put_head (log (upd_log ?z u)) (blk (upd_log ?z u) (l_start (log (upd_log ?z u)))))] x"
        have "cv x = writes_view (cv u) [(?st, put_head (?z lg) (blk s ?st))]"
          using x bs qu(2) lt st by (simp add: quiet_step_def)
        then have c: "cv x = writes_view (cv s) (recover_writes lg (blk s))"
          using u t st by (simp add: quiet_step_def recover_writes_def)
        have "bio_frame (upd_log ?z (upd_log ?f s)) x"
          using x bio_frame_trans [OF bio_frame_upd_log [OF bio_frame_trans [OF _ qu(10)], of _ ?z]] t
          by (simp add: quiet_step_def) (metis upd_log_upd_log)
        moreover have "upd_log ?z (upd_log ?f s) = upd_log (\<lambda>_. ?z lg) s" by (simp add: upd_log_def lg)
        ultimately show "?Q y x" using x c by (simp add: quiet_step_def)
      qed
    qed
  qed
  show ?thesis unfolding recover_from_log_def runs_kdo [of read_head]
    by (rule runs_weaken [OF read_head_law [OF k d(1) _ n]]) (use wf(6) st tail in simp_all)
qed

text \<open>What a restart does to the disk: the cache is initialised and the log is recovered.\<close>

definition reboot :: "('x klog_scheme, unit) kop" where
  "reboot = kdo binit (\<lambda>_. initlog 1)"

definition boot_log :: "'x klog_scheme \<Rightarrow> logstate" where
  "boot_log t = (let sb = sb_of (memdisk t 1) in
     get_head (memdisk t (sb_logstart sb)) ((log t)\<lparr>l_start := sb_logstart sb, l_size := sb_nlog sb, l_dev := 1\<rparr>))"

lemma readsb_law:
  assumes "bthread s" "1 < disksize s" "busy s = {}" "dset s = {}"
  shows "runs (readsb 1) s (\<lambda>sb t. sb = sb_of (blk s 1) \<and> bthread t \<and> bio_frame s t \<and> cv t = cv s)"
proof -
  have "runs (kdo (bread 1 1) (\<lambda>i. kdo (kget (\<lambda>s. sb_of (b_data (bufs s ! i)))) (\<lambda>v. kdo (brelse i) (\<lambda>_. kret v)))) s
     (\<lambda>v t. v = sb_of (c_blk (cv s) 1) \<and> bthread t \<and> bio_frame s t \<and> cv t = cv s)"
    by (rule bc.read_once) (use assms in \<open>simp_all add: NBUF_def\<close>)
  then show ?thesis unfolding readsb_def by simp
qed

lemma reboot_law:
  assumes f: "fresh_bio t" and sz: "1 < disksize t" and l: "length (l_block (log t)) = LOGSIZE"
    and w: "log_wf (disksize t) (boot_log t)"
  shows "runs reboot t (\<lambda>_ u. bthread u \<and> log u = (boot_log t)\<lparr>l_n := 0\<rparr> \<and>
     cv u = writes_view (fresh_view t) (recover_writes (boot_log t) (memdisk t)))"
proof -
  let ?Q = "\<lambda>_ u. bthread u \<and> log u = (boot_log t)\<lparr>l_n := 0\<rparr> \<and> cv u = writes_view (fresh_view t) (recover_writes (boot_log t) (memdisk t))"
  have "runs (initlog 1) a ?Q" if a: "booted_bio t a" for a
  proof -
    have ca: "cv a = fresh_view t" and la: "log a = log t" and ba: "bthread a"
      using a by (auto simp: booted_bio_def)
    have va: "blk a = memdisk t" "busy a = {}" "dset a = {}" "disksize a = disksize t"
      using ca by (simp_all add: cv_def fresh_view_def)
    have "runs (readsb 1) a (\<lambda>sb b. sb = sb_of (memdisk t 1) \<and> bthread b \<and> bio_frame a b \<and> cv b = cv a)"
      using readsb_law [OF ba] va sz by simp
    then show ?thesis unfolding initlog_def runs_kdo [of "readsb 1"]
    proof (rule runs_weaken)
      fix sb b assume b: "sb = sb_of (memdisk t 1) \<and> bthread b \<and> bio_frame a b \<and> cv b = cv a"
      let ?g = "\<lambda>l::logstate. l\<lparr>l_start := sb_logstart sb, l_size := sb_nlog sb, l_dev := 1\<rparr>"
      have lb: "log b = log t" using b bio_frame_log la by fastforce
      have vb: "blk b = memdisk t" "busy b = {}" "dset b = {}" "disksize b = disksize t"
        using b va by (simp_all add: cv_def)
      have "runs recover_from_log (upd_log ?g b) (\<lambda>_ u. bthread u \<and> bio_frame (upd_log (\<lambda>_. (boot_log t)\<lparr>l_n := 0\<rparr>) (upd_log ?g b)) u \<and>
          cv u = writes_view (cv (upd_log ?g b)) (recover_writes (boot_log t) (blk (upd_log ?g b))))"
        by (rule recover_law) (use b vb lb l w in \<open>simp_all add: boot_log_def Let_def\<close>)
      then show "runs (kdo (kmod (upd_log ?g)) (\<lambda>_. recover_from_log)) b ?Q"
        unfolding runs_kdo runs_kmod
        by (rule runs_weaken) (use b ca vb in \<open>auto dest: bio_frame_log\<close>)
    qed
  qed
  then show ?thesis unfolding reboot_def runs_kdo [of binit] by (rule runs_weaken [OF binit_fresh [OF f]])
qed

section \<open>Crashes\<close>

lemma writes_on_const:
  assumes "\<And>n x. (n, x) \<in> set ws \<Longrightarrow> x = B n"
  shows "writes_on d ws b = (if b \<in> fst ` set ws then B b else d b)"
  using assms
proof (induction ws arbitrary: d)
  case (Cons w ws)
  obtain n x where w: "w = (n, x)" by (cases w)
  have "writes_on d (w # ws) b = (if b \<in> fst ` set ws then B b else (d(n := x)) b)"
    unfolding w writes_on_simps by (rule Cons.IH) (use Cons.prems in auto)
  then show ?case using Cons.prems [of n x] w by auto
qed simp

lemma take_writes_other: "n \<notin> fst ` set ws \<Longrightarrow> writes_on d (take k ws) n = d n"
  by (rule writes_on_other) (auto dest: in_set_takeD)

definition home_copies :: "logstate \<Rightarrow> (nat \<Rightarrow> u8 list) \<Rightarrow> (nat \<times> u8 list) list" where
  "home_copies lg B = map (\<lambda>i. (l_block lg ! i, B (l_block lg ! i))) [0..<nat (l_n lg)]"

lemma set_home_copies: "head_ok lg \<Longrightarrow> fst ` set (home_copies lg B) = set (logged lg)"
proof -
  assume h: "head_ok lg"
  have "fst ` set (home_copies lg B) = (\<lambda>i. logged lg ! i) ` {..<length (logged lg)}"
    unfolding home_copies_def length_logged [OF h] by (auto simp: image_image nth_logged lessThan_atLeast0)
  then show ?thesis by (auto simp: set_conv_nth)
qed

lemma home_copies_const: "(n, x) \<in> set (home_copies lg B) \<Longrightarrow> x = B n"
  by (auto simp: home_copies_def)

lemma logs_in_region:
  assumes "log_wf dsz lg"
  shows "fst ` set (log_writes lg B) \<subseteq> log_region lg - {l_start lg}"
  using log_wfD(10) [OF assms] unfolding log_writes_def by (auto simp del: One_nat_def)

text \<open>
  The disk after a crash. \<open>crash_disk lg B D k\<close>: of the writes of a commit of \<open>lg\<close>, with block
  contents \<open>B\<close>, the first \<open>k\<close> have reached the disk, which was \<open>D\<close> before.
\<close>

definition crash_disk :: "logstate \<Rightarrow> (nat \<Rightarrow> u8 list) \<Rightarrow> (nat \<Rightarrow> u8 list) \<Rightarrow> nat \<Rightarrow> nat \<Rightarrow> u8 list" where
  "crash_disk lg B D k = writes_on D (take k (commit_writes lg B))"

definition committed :: "logstate \<Rightarrow> nat \<Rightarrow> bool" where
  "committed lg k \<longleftrightarrow> nat (l_n lg) < k"

lemma commit_writes_alt:
  "commit_writes lg B = log_writes lg B @ [(l_start lg, put_head lg (B (l_start lg)))] @ home_copies lg B @
     [(l_start lg, put_head (lg\<lparr>l_n := 0\<rparr>) (put_head lg (B (l_start lg))))]"
  by (simp add: commit_writes_def home_copies_def Let_def)

lemma length_writes [simp]: "length (log_writes lg B) = nat (l_n lg)" "length (home_copies lg B) = nat (l_n lg)"
  by (simp_all add: log_writes_def home_copies_def)

lemma crash_before:
  assumes w: "log_wf dsz lg" and k: "k \<le> nat (l_n lg)"
  shows "crash_disk lg B D k (l_start lg) = D (l_start lg)" "b \<notin> log_region lg \<Longrightarrow> crash_disk lg B D k b = D b"
proof -
  have c: "crash_disk lg B D k = writes_on D (take k (log_writes lg B))"
    using k by (simp add: crash_disk_def commit_writes_alt)
  show "crash_disk lg B D k (l_start lg) = D (l_start lg)" "b \<notin> log_region lg \<Longrightarrow> crash_disk lg B D k b = D b"
    unfolding c using logs_in_region [OF w, of B] by (auto intro!: take_writes_other)
qed

lemma crash_between:
  assumes w: "log_wf dsz lg" and k: "nat (l_n lg) < k" "k \<le> 2 * nat (l_n lg) + 1"
  shows "crash_disk lg B D k (l_start lg) = put_head lg (B (l_start lg))"
    "i < nat (l_n lg) \<Longrightarrow> crash_disk lg B D k (l_start lg + i + 1) = B (l_block lg ! i)"
    "b \<notin> log_region lg \<Longrightarrow> b \<notin> set (logged lg) \<Longrightarrow> crash_disk lg B D k b = D b"
proof -
  let ?h = "put_head lg (B (l_start lg))" and ?j = "k - nat (l_n lg) - 1"
  note wf = log_wfD [OF w]
  have c: "crash_disk lg B D k = writes_on ((writes_on D (log_writes lg B))(l_start lg := ?h)) (take ?j (home_copies lg B))"
    using k by (simp add: crash_disk_def commit_writes_alt take_Cons')
  have hc: "fst ` set (home_copies lg B) = set (logged lg)" by (rule set_home_copies [OF wf(2)])
  have st: "l_start lg \<notin> set (logged lg)" using w wf(3) by (auto simp: log_wf_def log_region_def)
  show "crash_disk lg B D k (l_start lg) = ?h" unfolding c using st hc by (simp add: take_writes_other)
  show "crash_disk lg B D k (l_start lg + i + 1) = B (l_block lg ! i)" if i: "i < nat (l_n lg)"
  proof -
    have "l_start lg + i + 1 \<notin> set (logged lg)" using wf(10) [OF i] w by (auto simp: log_wf_def)
    then show ?thesis unfolding c using hc writes_on_log_writes [OF i, of D B] by (simp add: take_writes_other)
  qed
  show "crash_disk lg B D k b = D b" if b: "b \<notin> log_region lg" "b \<notin> set (logged lg)"
  proof -
    have "b \<noteq> l_start lg" using b(1) wf(3) by (auto simp: log_region_def)
    moreover have "b \<notin> fst ` set (log_writes lg B)" using b logs_in_region [OF w, of B] by blast
    ultimately show ?thesis unfolding c using b hc by (simp add: take_writes_other writes_on_other)
  qed
qed

lemma crash_after:
  assumes w: "log_wf dsz lg" and k: "2 * nat (l_n lg) + 1 < k"
  shows "crash_disk lg B D k (l_start lg) = put_head (lg\<lparr>l_n := 0\<rparr>) (put_head lg (B (l_start lg)))"
    "b \<notin> log_region lg \<Longrightarrow> crash_disk lg B D k b = (if b \<in> set (logged lg) then B b else D b)"
proof -
  let ?h = "put_head lg (B (l_start lg))"
  note wf = log_wfD [OF w]
  have "take k (commit_writes lg B) = commit_writes lg B" using k by (simp add: commit_writes_alt)
  then have c: "crash_disk lg B D k = (writes_on ((writes_on D (log_writes lg B))(l_start lg := ?h)) (home_copies lg B))
      (l_start lg := put_head (lg\<lparr>l_n := 0\<rparr>) ?h)"
    by (simp add: crash_disk_def commit_writes_alt)
  show "crash_disk lg B D k (l_start lg) = put_head (lg\<lparr>l_n := 0\<rparr>) ?h" unfolding c by simp
  show "crash_disk lg B D k b = (if b \<in> set (logged lg) then B b else D b)" if b: "b \<notin> log_region lg"
  proof -
    have "b \<noteq> l_start lg" using b wf(3) by (auto simp: log_region_def)
    moreover have "b \<notin> fst ` set (log_writes lg B)" using b logs_in_region [OF w, of B] by blast
    moreover have "writes_on X (home_copies lg B) b = (if b \<in> set (logged lg) then B b else X b)" for X
      unfolding set_home_copies [OF wf(2), of B, symmetric] by (rule writes_on_const) (rule home_copies_const)
    ultimately show ?thesis unfolding c by (simp add: writes_on_other)
  qed
qed

text \<open>The header a restart finds: empty before and after the window between the two header writes.\<close>

definition same_place :: "logstate \<Rightarrow> logstate \<Rightarrow> bool" where
  "same_place lg lg0 \<longleftrightarrow> l_start lg0 = l_start lg \<and> l_size lg0 = l_size lg \<and> l_dev lg0 = 1 \<and> length (l_block lg0) = LOGSIZE"

lemma log_wf_head:
  assumes w: "log_wf dsz lg" and p: "same_place lg lg0"
    and n: "l_n (get_head d lg0) = l_n lg" "logged (get_head d lg0) = logged lg"
  shows "log_wf dsz (get_head d lg0)"
proof -
  have "length (l_block lg0) = LOGSIZE" using p by (simp add: same_place_def)
  note g = get_head_eq [OF this, where d = d]
  show ?thesis using w p n g by (simp add: log_wf_def head_ok_def log_region_def same_place_def)
qed

lemma log_wf_empty:
  assumes w: "log_wf dsz lg" and p: "same_place lg lg0" and n: "get32 d 0 = 0"
  shows "log_wf dsz (get_head d lg0)" "logged (get_head d lg0) = []" "l_n (get_head d lg0) = 0"
proof -
  have "length (l_block lg0) = LOGSIZE" using p by (simp add: same_place_def)
  note g = get_head_eq [OF this, where d = d]
  show z: "l_n (get_head d lg0) = 0" using g n by (simp add: sint32_def)
  then show l: "logged (get_head d lg0) = []" by (simp add: logged_def)
  show "log_wf dsz (get_head d lg0)"
    using log_wfD(3,5) [OF w] w p g z l by (simp add: log_wf_def head_ok_def same_place_def)
qed

lemma put_head_zero:
  assumes "head_ok lg" "length d = BSIZE"
  shows "get32 (put_head (lg\<lparr>l_n := 0\<rparr>) (put_head lg d)) 0 = 0"
  using put_head_ok(2) [OF head_ok_zero [OF assms(1)] put_head_ok(1) [OF assms]] by simp

text \<open>What recovery makes of a block outside the log.\<close>

lemma recovered_none:
  assumes "l_n lg = 0" "b \<noteq> l_start lg"
  shows "writes_on D (recover_writes lg D) b = D b"
  using assms by (simp add: recover_writes_def home_writes_def)

lemma recovered_some:
  assumes w: "log_wf dsz lg" and b: "b \<notin> log_region lg"
    and d: "\<And>i. i < nat (l_n lg) \<Longrightarrow> D (l_start lg + i + 1) = B (l_block lg ! i)"
  shows "writes_on D (recover_writes lg D) b = (if b \<in> set (logged lg) then B b else D b)"
proof -
  note wf = log_wfD [OF w]
  have h: "home_writes lg D = home_copies lg B"
    using home_writes_after_log [OF w, of D B] d by (simp add: home_copies_def)
  have "b \<noteq> l_start lg" using b wf(3) by (auto simp: log_region_def)
  then have "writes_on D (recover_writes lg D) b = writes_on D (home_copies lg B) b"
    by (simp add: recover_writes_def h)
  also have "\<dots> = (if b \<in> set (logged lg) then B b else D b)"
    unfolding set_home_copies [OF wf(2), of B, symmetric] by (rule writes_on_const) (rule home_copies_const)
  finally show ?thesis .
qed

text \<open>
  The heart of the matter, on disks alone: after a crash at any point, the recovered disk has the
  old blocks if the header had not been written, and the new ones otherwise.
\<close>

lemma crash_recovered:
  assumes w: "log_wf dsz lg" and p: "same_place lg lg0" and n: "0 < l_n lg"
    and len: "length (B (l_start lg)) = BSIZE" and hd: "get32 (D (l_start lg)) 0 = 0"
    and cl: "\<And>b. b \<notin> set (logged lg) \<Longrightarrow> B b = D b"
    and X: "X = crash_disk lg B D k" and lg': "lg' = get_head (X (l_start lg)) lg0"
  shows "log_wf dsz lg' \<and> (\<forall>b. b \<notin> log_region lg \<longrightarrow>
     writes_on X (recover_writes lg' X) b = (if committed lg k then B b else D b))"
proof -
  note wf = log_wfD [OF w]
  have pl: "length (l_block lg0) = LOGSIZE" "l_start lg0 = l_start lg" "l_size lg0 = l_size lg" using p by (simp_all add: same_place_def)
  have rg: "l_start lg' = l_start lg" "log_region lg' = log_region lg"
    using get_head_eq(4,5) [OF pl(1)] pl lg' by (simp_all add: log_region_def)
  have nb: "b \<noteq> l_start lg" if "b \<notin> log_region lg" for b using that wf(3) by (auto simp: log_region_def)
  consider (before) "k \<le> nat (l_n lg)" | (mid) "nat (l_n lg) < k" "k \<le> 2 * nat (l_n lg) + 1" | (after) "2 * nat (l_n lg) + 1 < k"
    by linarith
  then show ?thesis
  proof cases
    case before
    have e: "log_wf dsz lg'" "l_n lg' = 0"
      unfolding lg' X crash_before(1) [OF w before] using log_wf_empty [OF w p hd] by simp_all
    have "writes_on X (recover_writes lg' X) b = D b" if "b \<notin> log_region lg" for b
      using recovered_none [OF e(2)] nb [OF that] rg crash_before(2) [OF w before that] X by simp
    then show ?thesis using e before by (simp add: committed_def)
  next
    case mid
    have g: "l_n lg' = l_n lg" "logged lg' = logged lg"
      unfolding lg' X crash_between(1) [OF w mid] by (rule get_put_head [OF wf(2) len pl(1)])+
    have w': "log_wf dsz lg'" unfolding lg' by (rule log_wf_head [OF w p]) (use g lg' in simp_all)
    have bl: "l_block lg' ! i = l_block lg ! i" if "i < nat (l_n lg)" for i
      using that g nth_logged [of i lg] nth_logged [of i lg'] by simp
    have "writes_on X (recover_writes lg' X) b = B b" if b: "b \<notin> log_region lg" for b
    proof -
      have "X (l_start lg' + i + 1) = B (l_block lg' ! i)" if "i < nat (l_n lg')" for i
        using crash_between(2) [OF w mid, of i B D] that g rg bl X by simp
      from recovered_some [where D = X and B = B and b = b, OF w' _ this] show ?thesis
        using b rg g crash_between(3) [OF w mid b, of B D] cl [of b] X by simp
    qed
    then show ?thesis using w' mid by (simp add: committed_def)
  next
    case after
    have e: "log_wf dsz lg'" "l_n lg' = 0"
      unfolding lg' X crash_after(1) [OF w after] using log_wf_empty [OF w p put_head_zero [OF wf(2) len]] by simp_all
    have "writes_on X (recover_writes lg' X) b = B b" if b: "b \<notin> log_region lg" for b
      using recovered_none [OF e(2)] nb [OF b] rg crash_after(2) [OF w after b, of B D] cl [of b] X by simp
    then show ?thesis using e after by (simp add: committed_def)
  qed
qed

lemma crash_untouched:
  assumes "log_wf dsz lg" "b \<notin> log_region lg" "b \<notin> set (logged lg)"
  shows "crash_disk lg B D k b = D b"
proof -
  consider "k \<le> nat (l_n lg)" | "nat (l_n lg) < k" "k \<le> 2 * nat (l_n lg) + 1" | "2 * nat (l_n lg) + 1 < k"
    by linarith
  then show ?thesis
    using crash_before(2) [OF assms(1)] crash_between(3) [OF assms(1)] crash_after(2) [OF assms(1)] assms(2,3)
    by cases simp_all
qed

text \<open>The superblock on disk places the log where the kernel keeps it, and is not itself logged.\<close>

definition sb_placed :: "'x klog_scheme \<Rightarrow> bool" where
  "sb_placed s \<longleftrightarrow> 1 < disksize s \<and> sb_logstart (sb_of (memdisk s 1)) = l_start (log s) \<and>
     sb_nlog (sb_of (memdisk s 1)) = l_size (log s) \<and> 1 \<notin> log_region (log s) \<and> 1 \<notin> set (logged (log s))"

text \<open>The machine restarted on the disk \<open>d\<close>.\<close>

definition restarted :: "'x klog_scheme \<Rightarrow> (nat \<Rightarrow> u8 list) \<Rightarrow> 'x klog_scheme \<Rightarrow> bool" where
  "restarted s d t \<longleftrightarrow> fresh_bio t \<and> memdisk t = d \<and> disksize t = disksize s \<and> length (l_block (log t)) = LOGSIZE"

lemma reboot_after_crash:
  assumes q: "quiet s" and n: "0 < l_n (log s)" and hd: "get32 (memdisk s (l_start (log s))) 0 = 0" and sb: "sb_placed s"
    and t: "restarted s (crash_disk (log s) (blk s) (memdisk s) k) t"
  shows "runs reboot t (\<lambda>_ u. \<forall>b. b \<notin> log_region (log s) \<longrightarrow>
     memdisk u b = (if committed (log s) k then blk s b else memdisk s b))"
proof -
  let ?lg = "log s" and ?X = "crash_disk (log s) (blk s) (memdisk s) k"
  have w: "log_wf (disksize s) ?lg" by (rule quietD(3) [OF q])
  have X1: "?X 1 = memdisk s 1" by (rule crash_untouched [OF w]) (use sb in \<open>simp_all add: sb_placed_def\<close>)
  let ?boot = "(log t)\<lparr>l_start := l_start ?lg, l_size := l_size ?lg, l_dev := 1\<rparr>"
  have bl: "boot_log t = get_head (?X (l_start ?lg)) ?boot"
    using t sb X1 by (simp add: boot_log_def Let_def restarted_def sb_placed_def)
  have c: "log_wf (disksize s) (boot_log t) \<and> (\<forall>b. b \<notin> log_region ?lg \<longrightarrow>
      writes_on ?X (recover_writes (boot_log t) ?X) b = (if committed ?lg k then blk s b else memdisk s b))"
  proof (rule crash_recovered [OF w _ n _ hd _ refl bl])
    show "same_place ?lg ?boot" using t by (simp add: same_place_def restarted_def)
    show "length (blk s (l_start ?lg)) = BSIZE"
      using bthread_blk(2) [OF quietD(1) [OF q]] log_wfD(6) [OF w] by simp
    show "blk s b = memdisk s b" if "b \<notin> set (logged ?lg)" for b
      using bthread_blk(1) [OF quietD(1) [OF q]] quietD(2,4) [OF q] that by blast
  qed
  have "runs reboot t (\<lambda>_ u. bthread u \<and> log u = (boot_log t)\<lparr>l_n := 0\<rparr> \<and>
      cv u = writes_view (fresh_view t) (recover_writes (boot_log t) (memdisk t)))"
    by (rule reboot_law) (use t c sb in \<open>simp_all add: restarted_def sb_placed_def\<close>)
  then show ?thesis
  proof (rule runs_weaken)
    fix x u assume u: "bthread u \<and> log u = (boot_log t)\<lparr>l_n := 0\<rparr> \<and>
      cv u = writes_view (fresh_view t) (recover_writes (boot_log t) (memdisk t))"
    have "memdisk u = writes_on ?X (recover_writes (boot_log t) ?X)"
      using arg_cong [OF conjunct2 [OF conjunct2 [OF u]], of c_dsk] t by (simp add: fresh_view_def restarted_def)
    then show "\<forall>b. b \<notin> log_region ?lg \<longrightarrow> memdisk u b = (if committed ?lg k then blk s b else memdisk s b)"
      using c by simp
  qed
qed

section \<open>Logging a write\<close>

definition log_add :: "nat \<Rightarrow> logstate \<Rightarrow> logstate" where
  "log_add n lg = (let i = log_find n lg in
     lg\<lparr>l_block := (l_block lg)[i := n], l_n := (if int i = l_n lg then l_n lg + 1 else l_n lg)\<rparr>)"

lemma log_find_mem:
  assumes "head_ok lg" "n \<in> set (logged lg)"
  shows "log_find n lg < nat (l_n lg)" "l_block lg ! log_find n lg = n"
proof -
  obtain i where i: "i < nat (l_n lg)" "l_block lg ! i = n"
    using assms by (metis in_set_conv_nth length_logged nth_logged)
  then obtain j where j: "List.find (\<lambda>i. l_block lg ! i = n) [0..<nat (l_n lg)] = Some j"
    using find_ex [of "\<lambda>i. l_block lg ! i = n" i "[0..<nat (l_n lg)]"] by auto
  then show "log_find n lg < nat (l_n lg)" "l_block lg ! log_find n lg = n"
    using find_SomeD [OF j] by (auto simp: log_find_def)
qed

lemma log_find_new:
  assumes "head_ok lg" "n \<notin> set (logged lg)"
  shows "log_find n lg = nat (l_n lg)"
proof -
  have "List.find (\<lambda>i. l_block lg ! i = n) [0..<nat (l_n lg)] = None"
    using assms logged_mem [OF assms(1)] by (auto simp: find_upt_None)
  then show ?thesis by (simp add: log_find_def)
qed

lemma log_add_mem:
  assumes h: "head_ok lg" and n: "n \<in> set (logged lg)"
  shows "log_add n lg = lg"
proof -
  note f = log_find_mem [OF h n]
  have "(l_block lg)[log_find n lg := n] = l_block lg" using f(2) by (metis list_update_id)
  moreover have "int (log_find n lg) \<noteq> l_n lg" using f(1) by linarith
  ultimately show ?thesis by (simp add: log_add_def Let_def)
qed

lemma log_add_new:
  assumes h: "head_ok lg" and n: "n \<notin> set (logged lg)" and r: "l_n lg < int LOGSIZE"
  shows "l_n (log_add n lg) = l_n lg + 1" "logged (log_add n lg) = logged lg @ [n]"
    "length (l_block (log_add n lg)) = length (l_block lg)"
proof -
  let ?k = "nat (l_n lg)"
  have k: "int ?k = l_n lg" "?k < length (l_block lg)" using h r by (auto simp: head_ok_def)
  have e: "log_add n lg = lg\<lparr>l_block := (l_block lg)[?k := n], l_n := l_n lg + 1\<rparr>"
    unfolding log_add_def log_find_new [OF h n] Let_def using k by simp
  show "l_n (log_add n lg) = l_n lg + 1" "length (l_block (log_add n lg)) = length (l_block lg)" by (simp_all add: e)
  have "nat (l_n lg + 1) = Suc ?k" using k(1) by linarith
  then show "logged (log_add n lg) = logged lg @ [n]"
    using k by (simp add: logged_def e take_Suc_conv_app_nth take_update_cancel)
qed

lemma log_add_place [simp]:
  "l_start (log_add n lg) = l_start lg" "l_size (log_add n lg) = l_size lg" "l_dev (log_add n lg) = l_dev lg"
  "l_outstanding (log_add n lg) = l_outstanding lg" "l_committing (log_add n lg) = l_committing lg"
  by (simp_all add: log_add_def Let_def)

lemma logged_log_add:
  assumes "head_ok lg" "l_n lg < int LOGSIZE"
  shows "set (logged (log_add n lg)) = insert n (set (logged lg))" "distinct (logged lg) \<Longrightarrow> distinct (logged (log_add n lg))"
  by (cases "n \<in> set (logged lg)"; simp add: log_add_mem log_add_new assms insert_absorb)+

lemma log_write_law:
  assumes k: "bthread s" and o: "opens s n = Some i"
    and l: "l_n (log s) < int LOGSIZE" "l_n (log s) < int (l_size (log s)) - 1" "1 \<le> l_outstanding (log s)"
  shows "runs (log_write i) s (\<lambda>_ t. bthread t \<and> bio_frame (upd_log (log_add n) s) t \<and> cv t = (cv s)\<lparr>c_dirty := insert n (dset s)\<rparr>)"
proof -
  have th: "kthread s" and inv: "bc_inv s" using k by (simp_all add: bthread_def)
  note op = openedD [OF inv o]
  have hd: "held s = []" using th by (simp add: kthread_def)
  let ?x = "(bufs s ! i)\<lparr>b_dirty := True\<rparr>"
  let ?t = "s\<lparr>bufs := (bufs s)[i := ?x]\<rparr>"
  have e: "(\<lambda>l::logstate. let m = l\<lparr>l_block := (l_block l)[log_find n (log s) := n]\<rparr> in
      if int (log_find n (log s)) = l_n m then m\<lparr>l_n := l_n m + 1\<rparr> else m) (log s) = log_add n (log s)"
    by (simp add: log_add_def Let_def)
  have r: "runs (log_write i) s Q = Q () (upd_log (log_add n) ?t)" for Q
    using l op hd by (simp add: log_write_def upd_buf_def upd_log_def log_add_def Let_def)
  have st: "buf_step s ?t i ?x (slk s (SBuf i)) (memdisk s n)"
    by (rule buf_step_same [OF inv o]) (use op bc_invD(5) [OF inv op(9)] in simp_all)
  have hold: "sl_locked (slk s (SBuf i))" "sl_pid (slk s (SBuf i)) = cur_pid s" using op(6) by (simp_all add: holds_def)
  have c: "cv ?t = (cv s)\<lparr>c_dirty := insert n (dset s)\<rparr>"
    unfolding cv_def buf_step_blk [OF inv st] buf_step_busy [OF inv st] buf_step_dset [OF inv st] buf_step_opens [OF inv st]
    using op hold o by (simp add: fun_upd_idem insert_absorb)
  have fr: "bio_frame s ?t"
    by (rule bio_frameI [where ps = "procs s" and sl = "slk s" and d = "memdisk s" and w = "dwrites s"]) simp_all
  have "bthread ?t" using buf_step_inv [OF inv st] th by (simp add: bthread_def)
  then show ?thesis unfolding r using bio_frame_upd_log [OF fr] c by simp
qed

text \<open>
  The way the file system changes a block inside a transaction: read it, change it in place, log
  it, release it. \<open>log_inv\<close> is what holds between such changes.
\<close>

definition log_inv :: "'x klog_scheme \<Rightarrow> bool" where
  "log_inv s \<longleftrightarrow> bthread s \<and> log_wf (disksize s) (log s) \<and> dset s = set (logged (log s))"

definition log_change :: "nat \<Rightarrow> (u8 list \<Rightarrow> u8 list) \<Rightarrow> ('x klog_scheme, unit) kop" where
  "log_change n f =
     kdo (bread 1 n) (\<lambda>b. kdo (set_data b f) (\<lambda>_. kdo (log_write b) (\<lambda>_. brelse b)))"

definition log_room :: "logstate \<Rightarrow> bool" where
  "log_room lg \<longleftrightarrow> l_n lg < int LOGSIZE \<and> l_n lg < int (l_size lg) - 1 \<and> 1 \<le> l_outstanding lg"

lemma log_wf_add:
  assumes w: "log_wf dsz lg" and n: "n < dsz" "n < 2 ^ 32" "n \<notin> log_region lg" and r: "log_room lg"
  shows "log_wf dsz (log_add n lg)"
proof -
  have h: "head_ok lg" "l_n lg < int LOGSIZE" "distinct (logged lg)" using w r by (simp_all add: log_wf_def log_room_def)
  note la = logged_log_add [OF h(1,2)]
  show ?thesis
  proof (cases "n \<in> set (logged lg)")
    case True
    then show ?thesis using w by (simp add: log_add_mem [OF h(1)])
  next
    case False
    have n1: "l_n (log_add n lg) < int (l_size lg)" using log_add_new(1) [OF h(1) False h(2)] r by (simp add: log_room_def)
    have "log_region (log_add n lg) = log_region lg" by (simp add: log_region_def)
    then show ?thesis
      using w n n1 la(1) [of n] la(2) [OF h(3), of n] log_add_new [OF h(1) False h(2)] h
      by (simp add: log_wf_def head_ok_def)
  qed
qed

lemma set_data_log_law:
  assumes "bthread s" "opens s n = Some i" "length (f (blk s n)) = BSIZE"
    and "\<And>t. bthread t \<Longrightarrow> bio_frame s t \<Longrightarrow> cv t = (cv s)\<lparr>c_blk := (blk s)(n := f (blk s n))\<rparr> \<Longrightarrow> runs (g ()) t Q"
  shows "runs (kdo (set_data i f) g) s Q"
  unfolding runs_kdo by (rule runs_weaken [OF set_data_law [OF assms(1,2), of f, OF assms(3)]]) (use assms(4) in simp)

lemma log_change_law:
  assumes i: "log_inv s" and b: "n \<notin> busy s" and n: "n < disksize s" "n < 2 ^ 32" "n \<notin> log_region (log s)"
    and f: "length (f (blk s n)) = BSIZE" and r: "log_room (log s)"
    and room: "card (insert n (busy s \<union> dset s)) \<le> NBUF"
  shows "runs (log_change n f) s (\<lambda>_ t. log_inv t \<and> bio_frame (upd_log (log_add n) s) t \<and>
     cv t = (cv s)\<lparr>c_blk := (blk s)(n := f (blk s n)), c_dirty := insert n (dset s)\<rparr>)"
proof -
  let ?Q = "\<lambda>_ t. log_inv t \<and> bio_frame (upd_log (log_add n) s) t \<and>
     cv t = (cv s)\<lparr>c_blk := (blk s)(n := f (blk s n)), c_dirty := insert n (dset s)\<rparr>"
  have k: "bthread s" and w: "log_wf (disksize s) (log s)" and dd: "dset s = set (logged (log s))" using i by (simp_all add: log_inv_def)
  have o: "(opens s)(n := None) = opens s" using bc.not_open [OF k, of n] b by (simp add: fun_upd_idem)
  have bz: "insert n (busy s) - {n} = busy s" using b by auto
  show ?thesis unfolding log_change_def
  proof (rule bc.rd_step [OF k], unfold cv_sel)
    fix i t
    assume t: "bthread t" "bio_frame s t" "cv t = (cv s)\<lparr>c_open := (opens s)(n := Some i), c_busy := insert n (busy s)\<rparr>"
    have vt: "opens t n = Some i" "blk t = blk s" "dset t = dset s" "disksize t = disksize s"
      using t(3) by (simp_all add: cv_def)
    show "runs (kdo (set_data i f) (\<lambda>_. kdo (log_write i) (\<lambda>_. brelse i))) t ?Q"
    proof (rule set_data_log_law [OF t(1) vt(1)])
      show "length (f (blk t n)) = BSIZE" using f vt by simp
      fix u assume u: "bthread u" "bio_frame t u" "cv u = (cv t)\<lparr>c_blk := (blk t)(n := f (blk t n))\<rparr>"
      have vu: "opens u n = Some i" "dset u = dset s" using u(3) vt by (simp_all add: cv_def)
      have lu: "log u = log s" using bio_frame_log [OF u(2)] bio_frame_log [OF t(2)] by simp
      show "runs (kdo (log_write i) (\<lambda>_. brelse i)) u ?Q" unfolding runs_kdo
      proof (rule runs_weaken [OF log_write_law [OF u(1) vu(1)]])
        fix x v assume v: "bthread v \<and> bio_frame (upd_log (log_add n) u) v \<and> cv v = (cv u)\<lparr>c_dirty := insert n (dset u)\<rparr>"
        have vv: "opens v n = Some i" "n \<in> dset v" using v vu by (simp_all add: cv_def)
        show "runs (brelse i) v ?Q"
        proof (rule runs_weaken [OF brelse_law [of v n]])
          fix y z assume z: "bthread z \<and> bio_frame v z \<and> cv z = (cv v)\<lparr>c_open := (opens v)(n := None), c_busy := busy v - {n}\<rparr>"
          have fr: "bio_frame (upd_log (log_add n) s) z"
            using bio_frame_upd_log [OF bio_frame_trans [OF t(2) u(2)], of "log_add n"] v z bio_frame_trans by blast
          have cz: "cv z = (cv s)\<lparr>c_blk := (blk s)(n := f (blk s n)), c_dirty := insert n (dset s)\<rparr>"
            using z v u(3) t(3) vt vu o bz by (simp add: cv_def)
          have lz: "log z = log_add n (log s)" using bio_frame_log [OF fr] by simp
          have "disksize z = disksize s" "dset z = insert n (dset s)" using cz by (simp_all add: cv_def)
          then have "log_inv z"
            using z lz log_wf_add [OF w n r] logged_log_add(1) [of "log s" n] log_wfD(2) [OF w] r dd
            by (simp add: log_inv_def log_room_def)
          then show "?Q y z" using fr cz by simp
        qed (use v vv in simp_all)
      qed (use r lu in \<open>simp_all add: log_room_def\<close>)
    qed
  qed (use n b room in simp_all)
qed

section \<open>Beginning and ending an operation\<close>

definition op_fits :: "logstate \<Rightarrow> bool" where
  "op_fits lg \<longleftrightarrow> \<not> l_committing lg \<and> l_n lg + (l_outstanding lg + 1) * int MAXOPBLOCKS \<le> int LOGSIZE"

lemma runs_begin_op:
  assumes "kthread s" "op_fits (log s)"
  shows "runs begin_op s Q = Q () (upd_log (\<lambda>l. l\<lparr>l_outstanding := l_outstanding l + 1\<rparr>) s)"
  using assms by (simp add: begin_op_def begin_op_loop_def op_fits_def kthread_def upd_log_def)

lemma begin_op_waits:
  assumes "kthread s" "cpu_proc s = Some i" "\<not> op_fits (log s)"
  shows "begin_op s = Suspend ((upd_proc i (\<lambda>p. p\<lparr>p_chan := Some CLog, p_state := SLEEPING\<rparr>) s)\<lparr>held := [L_ptable]\<rparr>)"
proof -
  have i: "held s = []" "i < length (procs s)" using assms(1,2) by (auto simp: kthread_def)
  have "begin_op s = sleep CLog (Some L_log) (s\<lparr>held := [L_log]\<rparr>)"
    using assms(3) i by (auto simp: begin_op_def begin_op_loop_def acquire_lk_def kdo_def kget_def op_fits_def)
  then show ?thesis using sleep_suspends [of "s\<lparr>held := [L_log]\<rparr>" i L_log CLog] assms(2) i
    by (simp add: upd_proc_def)
qed

lemma writes_all: "writes_on D (commit_writes lg B) = crash_disk lg B D (2 * nat (l_n lg) + 2)"
  by (simp add: crash_disk_def commit_writes_alt)

text \<open>After a commit every block outside the log is on disk and nothing is pinned.\<close>

definition flushed :: "'x klog_scheme \<Rightarrow> 'x klog_scheme \<Rightarrow> bool" where
  "flushed s t \<longleftrightarrow> bthread t \<and> busy t = {} \<and> dset t = {} \<and> l_n (log t) = 0 \<and>
     (\<forall>b. b \<notin> log_region (log s) \<longrightarrow> memdisk t b = blk s b \<and> blk t b = blk s b) \<and> disksize t = disksize s \<and>
     get32 (memdisk t (l_start (log s))) 0 = 0"

lemma dset_after_commit: "head_ok lg \<Longrightarrow> set (logged lg) \<subseteq> fst ` set (commit_writes lg B)"
  using set_home_copies [of lg B] by (auto simp: commit_writes_alt)

lemma commit_flushes:
  assumes i: "log_inv s" "busy s = {}" and n: "0 < l_n (log s)"
  shows "runs commit s (\<lambda>_ t. flushed s t \<and> bio_frame (upd_log (\<lambda>l. l\<lparr>l_n := 0\<rparr>) s) t)"
proof -
  have q: "quiet s" using i by (simp add: log_inv_def quiet_def)
  have w: "log_wf (disksize s) (log s)" by (rule quietD(3) [OF q])
  have cl: "blk s b = memdisk s b" if "b \<notin> set (logged (log s))" for b
    using bthread_blk(1) [OF quietD(1) [OF q]] quietD(2,4) [OF q] that by blast
  have len: "length (blk s (l_start (log s))) = BSIZE"
    using bthread_blk(2) [OF quietD(1) [OF q]] log_wfD(6) [OF w] by simp
  show ?thesis
  proof (rule runs_weaken [OF commit_law [OF q n]])
    fix x t assume t: "bthread t \<and> bio_frame (upd_log (\<lambda>l. l\<lparr>l_n := 0\<rparr>) s) t \<and>
      cv t = writes_view (cv s) (commit_writes (log s) (blk s))"
    have v: "blk t = writes_on (blk s) (commit_writes (log s) (blk s))"
      "memdisk t = writes_on (memdisk s) (commit_writes (log s) (blk s))"
      "busy t = {}" "dset t = dset s - fst ` set (commit_writes (log s) (blk s))" "disksize t = disksize s"
      using t i(2) by (simp_all add: cv_def writes_view_def)
    have k: "2 * nat (l_n (log s)) + 1 < 2 * nat (l_n (log s)) + 2" by simp
    note ca = crash_after [OF w k]
    have "dset t = {}" using v(4) dset_after_commit [OF log_wfD(2) [OF w]] i(1) by (auto simp: log_inv_def)
    moreover have "l_n (log t) = 0" using t bio_frame_log [of "upd_log (\<lambda>l. l\<lparr>l_n := 0\<rparr>) s" t] by simp
    moreover have "memdisk t b = blk s b \<and> blk t b = blk s b" if b: "b \<notin> log_region (log s)" for b
      unfolding v(1,2) writes_all ca(2) [OF b] using cl by auto
    moreover have "get32 (memdisk t (l_start (log s))) 0 = 0"
      unfolding v(2) writes_all ca(1) by (rule put_head_zero [OF log_wfD(2) [OF w] len])
    ultimately show "flushed s t \<and> bio_frame (upd_log (\<lambda>l. l\<lparr>l_n := 0\<rparr>) s) t"
      using t v by (simp add: flushed_def)
  qed
qed

text \<open>Waking processes is invisible to the cache.\<close>

lemma woken_views [simp]:
  "blk (s\<lparr>procs := ps\<rparr>) = blk s" "busy (s\<lparr>procs := ps\<rparr>) = busy s" "dset (s\<lparr>procs := ps\<rparr>) = dset s"
  "bc_inv (s\<lparr>procs := ps\<rparr>) = bc_inv s"
  by (simp_all add: blk_def busy_def dset_def cached_def bc_inv_def fun_eq_iff cong: option.case_cong)

lemma bthread_woken [simp]: "bthread (s\<lparr>procs := woken c (procs s)\<rparr>) = bthread s"
  by (simp add: bthread_def kthread_def)

lemma log_inv_start:
  assumes "log_inv s"
  shows "log_inv (upd_log (\<lambda>l. l\<lparr>l_outstanding := a, l_committing := c\<rparr>) s)"
  using assms by (simp add: log_inv_def log_wf_def head_ok_def logged_def log_region_def)

lemma end_op_commit:
  assumes i: "log_inv s" "busy s = {}" and l: "l_outstanding (log s) = 1" "\<not> l_committing (log s)" "0 < l_n (log s)"
  shows "runs end_op s (\<lambda>_ t. flushed s t \<and> log t = (log s)\<lparr>l_n := 0, l_outstanding := 0\<rparr>)"
proof -
  let ?f = "\<lambda>l::logstate. l\<lparr>l_outstanding := 0, l_committing := True\<rparr>"
  let ?Q = "\<lambda>_ t. flushed s t \<and> log t = (log s)\<lparr>l_n := 0, l_outstanding := 0\<rparr>"
  have k: "kthread s" "held s = []" using i by (auto simp: log_inv_def bthread_def kthread_def)
  let ?g = "kdo commit (\<lambda>_. kdo (acquire_lk L_log) (\<lambda>_. kdo (kmod (upd_log (\<lambda>l. l\<lparr>l_committing := False\<rparr>))) (\<lambda>_.
       kdo (wakeup CLog) (\<lambda>_. release_lk L_log))))"
  have "runs ?g (upd_log ?f s) ?Q" unfolding runs_kdo [of commit]
  proof (rule runs_weaken [OF commit_flushes])
    show "log_inv (upd_log ?f s)" by (rule log_inv_start [OF i(1)])
    show "busy (upd_log ?f s) = {}" "0 < l_n (log (upd_log ?f s))" using i l by simp_all
    fix x t assume t: "flushed (upd_log ?f s) t \<and> bio_frame (upd_log (\<lambda>l. l\<lparr>l_n := 0\<rparr>) (upd_log ?f s)) t"
    have lt: "log t = (log s)\<lparr>l_outstanding := 0, l_committing := True, l_n := 0\<rparr>"
      using t bio_frame_log [of "upd_log (\<lambda>l. l\<lparr>l_n := 0\<rparr>) (upd_log ?f s)" t] by simp
    have kt: "length (procs t) = NPROC" "held t = []" using t by (auto simp: flushed_def bthread_def kthread_def)
    have fin: "log t = (log s)\<lparr>l_outstanding := 0, l_committing := True, l_n := 0\<rparr> \<Longrightarrow>
        (log t)\<lparr>l_committing := False\<rparr> = (log s)\<lparr>l_n := 0, l_outstanding := 0\<rparr>"
      using l(2) by simp
    let ?u = "upd_log (\<lambda>l. l\<lparr>l_committing := False\<rparr>) (t\<lparr>procs := woken (Some CLog) (procs t)\<rparr>)"
    have fl: "flushed s ?u" using t by (simp add: flushed_def log_region_def)
    have lu: "log ?u = (log s)\<lparr>l_n := 0, l_outstanding := 0\<rparr>" using fin [OF lt] by simp
    have st: "(upd_log (\<lambda>l. l\<lparr>l_committing := False\<rparr>) (t\<lparr>held := [L_log]\<rparr>))\<lparr>procs := woken (Some CLog) (procs t), held := []\<rparr> = ?u"
      using kt by (simp add: upd_log_def)
    show "runs (kdo (acquire_lk L_log) (\<lambda>_. kdo (kmod (upd_log (\<lambda>l. l\<lparr>l_committing := False\<rparr>))) (\<lambda>_.
       kdo (wakeup CLog) (\<lambda>_. release_lk L_log)))) t ?Q"
      using kt fl lu st by (simp add: runs_wakeup)
  qed
  moreover have "upd_log (\<lambda>l. l\<lparr>l_committing := True\<rparr>) (upd_log (\<lambda>l. l\<lparr>l_outstanding := l_outstanding l - 1\<rparr>) (s\<lparr>held := [L_log]\<rparr>))\<lparr>held := []\<rparr> = upd_log ?f s"
    using l k by (simp add: upd_log_def)
  ultimately show ?thesis unfolding end_op_def using l k by (simp add: runs_kdo [of commit])
qed

end
