(* ===== verification/Log_Spec.thy ===== *)
theory Log_Spec
  imports Log
begin

text \<open>
  The promises of the logging layer: a commit is atomic with respect to crashes, recovery may
  itself be interrupted, and a finished operation is on disk. The section on an example builds a
  running kernel with one open transaction, by the operations themselves, to instantiate them.
\<close>

section \<open>Interrupted recovery\<close>

lemma home_write_at:
  assumes w: "log_wf dsz lg" and i: "i < nat (l_n lg)"
  shows "writes_on D (home_writes lg D) (l_block lg ! i) = D (l_start lg + i + 1)"
proof -
  have "map fst (home_writes lg D) = logged lg"
    using log_wfD(8) [OF w] by (auto intro!: nth_equalityI simp: home_writes_def nth_logged)
  then have d: "distinct (map fst (home_writes lg D))" using log_wfD(7) [OF w] by simp
  show ?thesis using writes_on_nth [OF d, of i D] i by (simp add: home_writes_def)
qed

lemma recovered_region:
  assumes w: "log_wf dsz lg" and b: "b \<notin> log_region lg"
  shows "writes_on D (recover_writes lg D) b = writes_on D (home_writes lg D) b"
proof -
  have "b \<noteq> l_start lg" using b log_wfD(3) [OF w] by (auto simp: log_region_def)
  then show ?thesis by (simp add: recover_writes_def)
qed

lemma set_home_writes:
  assumes w: "log_wf dsz lg"
  shows "fst ` set (home_writes lg D) = set (logged lg)"
proof -
  have "map fst (home_writes lg D) = logged lg"
    using log_wfD(8) [OF w] by (auto intro!: nth_equalityI simp: home_writes_def nth_logged)
  then show ?thesis by (metis list.set_map)
qed

lemma region_not_home:
  assumes w: "log_wf dsz lg" and b: "b \<in> log_region lg"
  shows "writes_on D (take k (home_writes lg D)) b = D b"
  by (rule take_writes_other) (use w b set_home_writes [OF w, of D] in \<open>auto simp: log_wf_def\<close>)

lemma home_writes_take:
  assumes w: "log_wf dsz lg"
  shows "writes_on D (take k (home_writes lg D)) b = D b \<or>
    writes_on D (take k (home_writes lg D)) b = writes_on D (home_writes lg D) b"
proof -
  let ?F = "writes_on D (home_writes lg D)"
  have c: "x = ?F n" if "(n, x) \<in> set (take k (home_writes lg D))" for n x
  proof -
    have "(n, x) \<in> set (home_writes lg D)" using that by (rule in_set_takeD)
    then obtain i where "i < nat (l_n lg)" "n = l_block lg ! i" "x = D (l_start lg + i + 1)"
      by (auto simp: home_writes_def)
    then show ?thesis using home_write_at [OF w, of i D] by simp
  qed
  show ?thesis using writes_on_const [of "take k (home_writes lg D)" ?F D b, OF c] by auto
qed

lemma interrupted_recovery:
  assumes w: "log_wf dsz lg" and lg: "lg = get_head (D (l_start lg)) lg0" and p: "same_place lg lg0" "same_place lg lg1"
    and len: "length (D (l_start lg)) = BSIZE"
    and X: "X = writes_on D (take k (recover_writes lg D))" and lg': "lg' = get_head (X (l_start lg)) lg1"
  shows "log_wf dsz lg' \<and> (\<forall>b. b \<notin> log_region lg \<longrightarrow>
     writes_on X (recover_writes lg' X) b = writes_on D (recover_writes lg D) b)"
proof -
  note wf = log_wfD [OF w]
  have pl: "length (l_block lg0) = LOGSIZE" "length (l_block lg1) = LOGSIZE" "l_start lg1 = l_start lg" "l_size lg1 = l_size lg"
    using p by (simp_all add: same_place_def)
  have rg: "l_start lg' = l_start lg" "log_region lg' = log_region lg"
    using get_head_eq(4,5) [OF pl(2)] pl lg' by (simp_all add: log_region_def)
  let ?F = "writes_on D (home_writes lg D)"
  have len_h: "length (home_writes lg D) = nat (l_n lg)" by (simp add: home_writes_def)
  have st: "l_start lg \<in> log_region lg" using wf(3) by (simp add: log_region_def)
  show ?thesis
  proof (cases "k \<le> nat (l_n lg)")
    case True
    have Xe: "X = writes_on D (take k (home_writes lg D))" using X True len_h by (simp add: recover_writes_def)
    have Xr: "X b = D b" if "b \<in> log_region lg" for b unfolding Xe by (rule region_not_home [OF w that])
    have n: "l_n lg' = l_n lg" using lg' lg Xr [OF st] get_head_eq(1) pl by metis
    have nn: "sint32 (get32 (D (l_start lg)) 0) = l_n lg" using lg get_head_eq(1) [OF pl(1)] by metis
    have bl: "l_block lg' ! i = l_block lg ! i" if "i < nat (l_n lg)" for i
    proof -
      have "i < LOGSIZE" using that head_ok_le [OF wf(2)] by simp
      then show ?thesis
        using get_head_eq(3) [OF pl(1), of i "D (l_start lg)"] get_head_eq(3) [OF pl(2), of i "D (l_start lg)"] that nn lg lg' Xr [OF st]
        by metis
    qed
    have l1: "length (l_block lg') = LOGSIZE" using lg' get_head_eq(2) [OF pl(2)] by simp
    have lgd: "logged lg' = logged lg"
      by (rule nth_equalityI) (use n bl l1 wf(2) head_ok_le [OF wf(2)] in \<open>auto simp: logged_def head_ok_def\<close>)
    have w': "log_wf dsz lg'" unfolding lg' by (rule log_wf_head [OF w p(2)]) (use n lgd lg' in simp_all)
    have "writes_on X (recover_writes lg' X) b = writes_on D (recover_writes lg D) b" if b: "b \<notin> log_region lg" for b
    proof -
      have "X (l_start lg' + i + 1) = ?F (l_block lg' ! i)" if "i < nat (l_n lg')" for i
        using that n rg bl Xr [of "l_start lg + i + 1"] wf(10) [of i] home_write_at [OF w, of i D] by simp
      from recovered_some [where D = X and B = ?F and b = b, OF w' _ this]
      have e: "writes_on X (recover_writes lg' X) b = (if b \<in> set (logged lg) then ?F b else X b)" using rg b lgd by simp
      have "b \<notin> set (logged lg) \<Longrightarrow> X b = ?F b"
        unfolding Xe using set_home_writes [OF w, of D] by (simp add: take_writes_other writes_on_other)
      then show ?thesis unfolding e recovered_region [OF w b] by simp
    qed
    then show ?thesis using w' by blast
  next
    case False
    then have "take k (recover_writes lg D) = recover_writes lg D" using len_h by (simp add: recover_writes_def)
    then have Xe: "X = writes_on D (recover_writes lg D)" using X by simp
    then have "X (l_start lg) = put_head (lg\<lparr>l_n := 0\<rparr>) (D (l_start lg))" by (simp add: recover_writes_def)
    moreover have "get32 (put_head (lg\<lparr>l_n := 0\<rparr>) (D (l_start lg))) 0 = 0"
      using put_head_ok(2) [OF head_ok_zero [OF wf(2)] len] by simp
    ultimately have e: "log_wf dsz lg'" "l_n lg' = 0" using log_wf_empty [OF w p(2)] lg' by simp_all
    have "writes_on X (recover_writes lg' X) b = X b" if "b \<notin> log_region lg" for b
      by (rule recovered_none [OF e(2)]) (use that st rg in auto)
    then show ?thesis using e Xe by simp
  qed
qed

section \<open>An example\<close>

text \<open>A machine with one process, a blank cache and the disk \<open>d\<close> of \<open>n\<close> blocks.\<close>

definition blank_proc :: proc where
  "blank_proc = \<lparr>p_sz = 0, p_pgdir = 0, p_kstack = 0, p_state = UNUSED, p_pid = 0, p_parent = None, p_tf = 0,
     p_context = 0, p_chan = None, p_killed = False, p_ofile = replicate NOFILE None, p_cwd = None,
     p_name = replicate 16 0, p_cxa_eh_global = replicate 16 0\<rparr>"

definition blank_buf :: buf where
  "blank_buf = \<lparr>b_valid = False, b_dirty = False, b_dev = 0, b_blockno = 0, b_refcnt = 0, b_prev = 0, b_next = 0,
     b_data = replicate BSIZE 0\<rparr>"

definition blank_log :: logstate where
  "blank_log = \<lparr>l_start = 0, l_size = 0, l_outstanding = 0, l_committing = False, l_dev = 0, l_n = 0, l_block = replicate LOGSIZE 0\<rparr>"

definition blank_buddy :: buddy_t where
  "blank_buddy = \<lparr>b_start = 0, b_start_heap = 0, b_end = 0, b_initialized = False, b_orders = [], b_marks = (\<lambda>_. \<lparr>lnks = 0, bitmap = 0\<rparr>)\<rparr>"

definition demo_machine :: "(nat \<Rightarrow> u8 list) \<Rightarrow> nat \<Rightarrow> klog" where
  "demo_machine d n = \<lparr>held = [], mem = (\<lambda>_. 0), freelist = 0, buddy = blank_buddy, current_allocator = FREELIST, kend = 0, kdata = 0,
     procs = blank_proc\<lparr>p_state := RUNNING, p_pid := 1\<rparr> # replicate (NPROC - 1) blank_proc, cpu_proc = Some 0, initproc = Some 0,
     nextpid = 2, ts_esp0 = 0, cr3 = 0, kpgdir = 0, slk = (\<lambda>_. \<lparr>sl_locked = False, sl_pid = 0\<rparr>), memdisk = d, disksize = n,
     dwrites = [], bufs = replicate (NBUF + 1) blank_buf, log = blank_log\<rparr>"

definition demo_sb :: "u8 list" where
  "demo_sb = put32 (put32 (replicate BSIZE 0) 12 30) 16 2"

definition demo_disk :: "nat \<Rightarrow> u8 list" where
  "demo_disk n = (if n = 1 then demo_sb else replicate BSIZE 0)"

text \<open>The example after start-up, and with one changed block in an open transaction.\<close>

definition demo_up :: klog where
  "demo_up = (case reboot (demo_machine demo_disk 100) of Ok _ s \<Rightarrow> s | _ \<Rightarrow> demo_machine demo_disk 100)"

definition demo_tx :: klog where
  "demo_tx = (case kdo begin_op (\<lambda>_. log_change 50 (\<lambda>_. replicate BSIZE 7)) demo_up of Ok _ s \<Rightarrow> s | _ \<Rightarrow> demo_up)"

lemma demo_machine_fresh:
  assumes "\<forall>i < n. length (d i) = BSIZE"
  shows "fresh_bio (demo_machine d n)" "length (l_block (log (demo_machine d n))) = LOGSIZE" "memdisk (demo_machine d n) = d"
    "disksize (demo_machine d n) = n"
  using assms by (simp_all add: fresh_bio_def demo_machine_def kthread_def blank_buf_def blank_log_def NPROC_def del: replicate.simps)

lemma get32_zeros [simp]: "off + 4 \<le> k \<Longrightarrow> get32 (replicate k 0) off = 0"
  by (simp add: get32_def bytes_at_def numeral_eq_Suc)

lemma demo_sb_of: "sb_logstart (sb_of demo_sb) = 2" "sb_nlog (sb_of demo_sb) = 30" "length demo_sb = BSIZE"
  by (simp_all add: sb_of_def demo_sb_def BSIZE_def)

lemma demo_disk_len: "length (demo_disk n) = BSIZE"
  by (simp add: demo_disk_def demo_sb_of)

lemma runs_result:
  assumes "runs f s Q"
  shows "Q (case f s of Ok x t \<Rightarrow> x) (case f s of Ok _ t \<Rightarrow> t | _ \<Rightarrow> u)"
  using assms by (auto simp: runs_iff)

lemma demo_boot_log:
  "boot_log (demo_machine demo_disk 100) = get_head (replicate BSIZE 0) (blank_log\<lparr>l_start := 2, l_size := 30, l_dev := 1\<rparr>)"
  using demo_machine_fresh [of 100 demo_disk] demo_disk_len
  by (simp add: boot_log_def Let_def demo_disk_def demo_sb_of) (simp add: demo_machine_def)

lemma demo_log_wf: "log_wf 100 (boot_log (demo_machine demo_disk 100))" "l_n (boot_log (demo_machine demo_disk 100)) = 0"
  "l_start (boot_log (demo_machine demo_disk 100)) = 2" "l_size (boot_log (demo_machine demo_disk 100)) = 30"
  "l_outstanding (boot_log (demo_machine demo_disk 100)) = 0" "\<not> l_committing (boot_log (demo_machine demo_disk 100))"
proof -
  have l: "length (l_block (blank_log\<lparr>l_start := 2, l_size := 30, l_dev := 1\<rparr>)) = LOGSIZE" by (simp add: blank_log_def)
  note g = get_head_eq [OF l, where d = "replicate BSIZE 0"]
  show "l_n (boot_log (demo_machine demo_disk 100)) = 0"
    "l_start (boot_log (demo_machine demo_disk 100)) = 2" "l_size (boot_log (demo_machine demo_disk 100)) = 30"
    "l_outstanding (boot_log (demo_machine demo_disk 100)) = 0" "\<not> l_committing (boot_log (demo_machine demo_disk 100))"
    unfolding demo_boot_log using g by (simp_all add: sint32_def BSIZE_def blank_log_def)
  then show "log_wf 100 (boot_log (demo_machine demo_disk 100))"
    using g by (simp add: log_wf_def head_ok_def logged_def LOGSIZE_def demo_boot_log)
qed

lemma demo_up_facts:
  "log_inv demo_up" "busy demo_up = {}" "dset demo_up = {}" "disksize demo_up = 100"
  "log demo_up = boot_log (demo_machine demo_disk 100)\<lparr>l_n := 0\<rparr>" "get32 (memdisk demo_up 2) 0 = 0" "memdisk demo_up 1 = demo_sb"
  "memdisk demo_up 50 = replicate BSIZE 0"
proof -
  let ?t = "demo_machine demo_disk 100" and ?lg = "boot_log (demo_machine demo_disk 100)"
  note m = demo_machine_fresh [of 100 demo_disk, OF allI [OF impI [OF demo_disk_len]]]
  have "runs reboot ?t (\<lambda>_ u. bthread u \<and> log u = ?lg\<lparr>l_n := 0\<rparr> \<and> cv u = writes_view (fresh_view ?t) (recover_writes ?lg (memdisk ?t)))"
    by (rule reboot_law) (use m demo_log_wf in simp_all)
  from runs_result [OF this, of ?t] have u: "bthread demo_up" "log demo_up = ?lg\<lparr>l_n := 0\<rparr>"
    "cv demo_up = writes_view (fresh_view ?t) (recover_writes ?lg (memdisk ?t))"
    unfolding demo_up_def by simp_all
  have rw: "recover_writes ?lg (memdisk ?t) = [(2, put_head (?lg\<lparr>l_n := 0\<rparr>) (replicate BSIZE 0))]"
    using demo_log_wf m(3) by (simp add: recover_writes_def home_writes_def demo_disk_def)
  have h: "get32 (put_head (?lg\<lparr>l_n := 0\<rparr>) (replicate BSIZE 0)) 0 = 0"
    using put_head_ok(2) [OF head_ok_zero [OF log_wfD(2) [OF demo_log_wf(1)]], of "replicate BSIZE 0"] by simp
  have v: "busy demo_up = {}" "dset demo_up = {}" "disksize demo_up = 100" "memdisk demo_up = writes_on demo_disk (recover_writes ?lg (memdisk ?t))"
    using u(3) m by (simp_all add: cv_def writes_view_def fresh_view_def)
  show "busy demo_up = {}" "dset demo_up = {}" "disksize demo_up = 100" "log demo_up = ?lg\<lparr>l_n := 0\<rparr>" by (fact v u)+
  show "get32 (memdisk demo_up 2) 0 = 0" "memdisk demo_up 1 = demo_sb" "memdisk demo_up 50 = replicate BSIZE 0" unfolding v(4) rw using h by (simp_all add: demo_disk_def)
  show "log_inv demo_up" using u v demo_log_wf by (simp add: log_inv_def log_wf_def head_ok_def logged_def log_region_def)
qed

lemma demo_tx_facts:
  "log_inv demo_tx" "quiet demo_tx" "busy demo_tx = {}" "dset demo_tx = {50}" "disksize demo_tx = 100"
  "l_n (log demo_tx) = 1" "logged (log demo_tx) = [50]" "l_start (log demo_tx) = 2" "l_size (log demo_tx) = 30"
  "l_outstanding (log demo_tx) = 1" "\<not> l_committing (log demo_tx)" "memdisk demo_tx = memdisk demo_up" "sb_placed demo_tx"
  "blk demo_tx 50 = replicate BSIZE 7"
proof -
  let ?o = "\<lambda>l::logstate. l\<lparr>l_outstanding := l_outstanding l + 1\<rparr>"
  let ?s = "upd_log ?o demo_up"
  note u = demo_up_facts and d = demo_log_wf
  have k: "kthread demo_up" using u(1) by (simp add: log_inv_def bthread_def)
  have fit: "op_fits (log demo_up)" using u(5) d by (simp add: op_fits_def MAXOPBLOCKS_def LOGSIZE_def)
  have ls: "log ?s = ?o (boot_log (demo_machine demo_disk 100)\<lparr>l_n := 0\<rparr>)" using u(5) by simp
  have inv: "log_inv ?s" using u d by (simp add: log_inv_def log_wf_def head_ok_def logged_def log_region_def)
  have rm: "log_room (log ?s)" using ls d by (simp add: log_room_def LOGSIZE_def)
  have nr: "(50::nat) \<notin> log_region (log ?s)" using ls d by (simp add: log_region_def)
  have "runs (log_change 50 (\<lambda>_. replicate BSIZE 7)) ?s (\<lambda>_ t. log_inv t \<and> bio_frame (upd_log (log_add 50) ?s) t \<and>
     cv t = (cv ?s)\<lparr>c_blk := (blk ?s)(50 := (\<lambda>_. replicate BSIZE 7) (blk ?s 50)), c_dirty := insert 50 (dset ?s)\<rparr>)"
    by (rule log_change_law [OF inv]) (use u rm nr in \<open>simp_all add: NBUF_def\<close>)
  then have "runs (kdo begin_op (\<lambda>_. log_change 50 (\<lambda>_. replicate BSIZE 7))) demo_up (\<lambda>_ t. log_inv t \<and> bio_frame (upd_log (log_add 50) ?s) t \<and>
     cv t = (cv ?s)\<lparr>c_blk := (blk ?s)(50 := replicate BSIZE 7), c_dirty := insert 50 (dset ?s)\<rparr>)"
    by (simp add: runs_kdo [of begin_op] runs_begin_op [OF k fit])
  from runs_result [OF this, of demo_up] have t: "log_inv demo_tx" "bio_frame (upd_log (log_add 50) ?s) demo_tx"
    "cv demo_tx = (cv ?s)\<lparr>c_blk := (blk ?s)(50 := replicate BSIZE 7), c_dirty := insert 50 (dset ?s)\<rparr>"
    unfolding demo_tx_def by simp_all
  have lt: "log demo_tx = log_add 50 (log ?s)" using bio_frame_log [OF t(2)] by simp
  have hd: "head_ok (log ?s)" "(50::nat) \<notin> set (logged (log ?s))" "l_n (log ?s) < int LOGSIZE" "l_n (log ?s) = 0"
    using inv ls d by (simp_all add: log_inv_def log_wf_def logged_def LOGSIZE_def)
  note la = log_add_new [OF hd(1-3)]
  have v: "busy demo_tx = {}" "dset demo_tx = {50}" "disksize demo_tx = 100" "memdisk demo_tx = memdisk demo_up" "blk demo_tx 50 = replicate BSIZE 7"
    using t(3) u by (simp_all add: cv_def)
  show "log_inv demo_tx" "busy demo_tx = {}" "dset demo_tx = {50}" "disksize demo_tx = 100" "memdisk demo_tx = memdisk demo_up"
    "blk demo_tx 50 = replicate BSIZE 7" by (fact t v)+
  show l: "l_n (log demo_tx) = 1" "logged (log demo_tx) = [50]" unfolding lt using la hd(4) by (simp_all add: logged_def)
  show p: "l_start (log demo_tx) = 2" "l_size (log demo_tx) = 30" "l_outstanding (log demo_tx) = 1" "\<not> l_committing (log demo_tx)"
    unfolding lt using ls d by simp_all
  show "quiet demo_tx" using t v by (simp add: quiet_def log_inv_def)
  show "sb_placed demo_tx" using v u(7) l p by (simp add: sb_placed_def demo_sb_of log_region_def)
qed

section \<open>Properties\<close>

text \<open>
  C1. Crash atomicity of a commit. The block writes of \<^verbatim>\<open>commit\<close> can be cut short after any number
  \<open>k\<close> of them. A machine restarted on that disk (\<^verbatim>\<open>binit\<close>, \<^verbatim>\<open>initlog\<close>) comes up, and every block
  outside the log is the one from before the transaction if the log header had not been written
  yet, and the one of the transaction if it had: never a mixture.
\<close>

theorem commit_crash_atomic:
  fixes s :: "'x klog_scheme"
  assumes "quiet s" "0 < l_n (log s)" "get32 (memdisk s (l_start (log s))) 0 = 0" "sb_placed s"
  shows "runs commit s (\<lambda>_ s'. \<exists>ws. dwrites s' = dwrites s @ ws \<and> memdisk s' = writes_on (memdisk s) ws \<and>
     (\<forall>k t. restarted s (writes_on (memdisk s) (take k ws)) t \<longrightarrow>
        runs reboot t (\<lambda>_ u. \<forall>b. b \<notin> log_region (log s) \<longrightarrow>
          memdisk u b = (if nat (l_n (log s)) < k then blk s b else memdisk s b))))"
proof (rule runs_weaken [OF commit_law [OF assms(1,2)]])
  fix x s'
  assume s': "bthread s' \<and> bio_frame (upd_log (\<lambda>l. l\<lparr>l_n := 0\<rparr>) s) s' \<and> cv s' = writes_view (cv s) (commit_writes (log s) (blk s))"
  have v: "dwrites s' = dwrites s @ commit_writes (log s) (blk s)" "memdisk s' = writes_on (memdisk s) (commit_writes (log s) (blk s))"
    using s' by (simp_all add: cv_def writes_view_def)
  show "\<exists>ws. dwrites s' = dwrites s @ ws \<and> memdisk s' = writes_on (memdisk s) ws \<and>
     (\<forall>k t. restarted s (writes_on (memdisk s) (take k ws)) t \<longrightarrow>
        runs reboot t (\<lambda>_ u. \<forall>b. b \<notin> log_region (log s) \<longrightarrow>
          memdisk u b = (if nat (l_n (log s)) < k then blk s b else memdisk s b)))"
    using v reboot_after_crash [OF assms] by (intro exI [of _ "commit_writes (log s) (blk s)"]) (simp add: crash_disk_def committed_def)
qed

theorem commit_crash_atomic_witness:
  "quiet demo_tx \<and> blk demo_tx 50 \<noteq> memdisk demo_tx 50 \<and>
   runs commit demo_tx (\<lambda>_ s'. \<exists>ws. dwrites s' = dwrites demo_tx @ ws \<and> memdisk s' = writes_on (memdisk demo_tx) ws \<and>
     (\<forall>k t. restarted demo_tx (writes_on (memdisk demo_tx) (take k ws)) t \<longrightarrow>
        runs reboot t (\<lambda>_ u. \<forall>b. b \<notin> log_region (log demo_tx) \<longrightarrow>
          memdisk u b = (if nat (l_n (log demo_tx)) < k then blk demo_tx b else memdisk demo_tx b))))"
proof (intro conjI)
  note f = demo_tx_facts
  show "quiet demo_tx" by (rule f)
  show "blk demo_tx 50 \<noteq> memdisk demo_tx 50" using f demo_up_facts by (simp add: BSIZE_def)
  show "runs commit demo_tx (\<lambda>_ s'. \<exists>ws. dwrites s' = dwrites demo_tx @ ws \<and> memdisk s' = writes_on (memdisk demo_tx) ws \<and>
     (\<forall>k t. restarted demo_tx (writes_on (memdisk demo_tx) (take k ws)) t \<longrightarrow>
        runs reboot t (\<lambda>_ u. \<forall>b. b \<notin> log_region (log demo_tx) \<longrightarrow>
          memdisk u b = (if nat (l_n (log demo_tx)) < k then blk demo_tx b else memdisk demo_tx b))))"
    by (rule commit_crash_atomic) (use f demo_up_facts in simp_all)
qed

text \<open>
  C2. Recovery may itself be interrupted. If a restart is cut short after any number of its block
  writes and the machine is restarted again, the second recovery produces the same blocks outside
  the log as an uninterrupted one.
\<close>

theorem recovery_restartable:
  fixes t :: "'x klog_scheme"
  assumes "fresh_bio t" "1 < disksize t" "length (l_block (log t)) = LOGSIZE" "log_wf (disksize t) (boot_log t)"
    "1 \<notin> log_region (boot_log t)" "1 \<notin> set (logged (boot_log t))"
  shows "runs reboot t (\<lambda>_ u. \<exists>ws. dwrites u = dwrites t @ ws \<and> memdisk u = writes_on (memdisk t) ws \<and>
     (\<forall>k t'. restarted t (writes_on (memdisk t) (take k ws)) t' \<longrightarrow>
        runs reboot t' (\<lambda>_ u'. \<forall>b. b \<notin> log_region (boot_log t) \<longrightarrow> memdisk u' b = memdisk u b)))"
proof (rule runs_weaken [OF reboot_law [OF assms(1-4)]])
  fix x u
  let ?lg = "boot_log t" and ?D = "memdisk t"
  let ?ws = "recover_writes ?lg ?D" and ?sb = "sb_of (memdisk t 1)"
  assume "bthread u \<and> log u = ?lg\<lparr>l_n := 0\<rparr> \<and> cv u = writes_view (fresh_view t) ?ws"
  then have v: "dwrites u = dwrites t @ ?ws" "memdisk u = writes_on ?D ?ws"
    by (simp_all add: cv_def writes_view_def fresh_view_def)
  let ?g = "\<lambda>l::logstate. l\<lparr>l_start := sb_logstart ?sb, l_size := sb_nlog ?sb, l_dev := 1\<rparr>"
  note wf = log_wfD [OF assms(4)]
  have g: "l_start ?lg = sb_logstart ?sb" "l_size ?lg = sb_nlog ?sb" "?lg = get_head (?D (l_start ?lg)) (?g (log t))"
    using get_head_eq(4,5) [of "?g (log t)"] assms(3) by (simp_all add: boot_log_def Let_def)
  have "runs reboot t' (\<lambda>_ u'. \<forall>b. b \<notin> log_region ?lg \<longrightarrow> memdisk u' b = memdisk u b)"
    if t': "restarted t (writes_on ?D (take k ?ws)) t'" for k t'
  proof -
    let ?X = "writes_on ?D (take k ?ws)"
    have X1: "?X 1 = ?D 1"
    proof (rule take_writes_other)
      have "l_start ?lg \<noteq> 1" using assms(5) wf(3) by (auto simp: log_region_def)
      then show "1 \<notin> fst ` set ?ws" using set_home_writes [OF assms(4), of ?D] assms(6) by (auto simp: recover_writes_def)
    qed
    have bl: "boot_log t' = get_head (?X (l_start ?lg)) (?g (log t'))"
      using t' X1 g(1) by (simp add: boot_log_def Let_def restarted_def)
    have c: "log_wf (disksize t) (boot_log t') \<and> (\<forall>b. b \<notin> log_region ?lg \<longrightarrow>
        writes_on ?X (recover_writes (boot_log t') ?X) b = writes_on ?D ?ws b)"
    proof (rule interrupted_recovery [OF assms(4) g(3) _ _ _ refl bl])
      show "same_place ?lg (?g (log t))" "same_place ?lg (?g (log t'))"
        using g assms(3) t' by (simp_all add: same_place_def restarted_def)
      show "length (?D (l_start ?lg)) = BSIZE" using assms(1) wf(6) by (simp add: fresh_bio_def)
    qed
    have "runs reboot t' (\<lambda>_ u. bthread u \<and> log u = (boot_log t')\<lparr>l_n := 0\<rparr> \<and>
        cv u = writes_view (fresh_view t') (recover_writes (boot_log t') (memdisk t')))"
      by (rule reboot_law) (use t' c assms(2) in \<open>simp_all add: restarted_def\<close>)
    then show ?thesis
      by (rule runs_weaken) (use t' c v in \<open>simp add: cv_def writes_view_def fresh_view_def restarted_def\<close>)
  qed
  then show "\<exists>ws. dwrites u = dwrites t @ ws \<and> memdisk u = writes_on ?D ws \<and>
     (\<forall>k t'. restarted t (writes_on ?D (take k ws)) t' \<longrightarrow>
        runs reboot t' (\<lambda>_ u'. \<forall>b. b \<notin> log_region ?lg \<longrightarrow> memdisk u' b = memdisk u b))"
    using v by (intro exI [of _ ?ws]) blast
qed

theorem recovery_restartable_witness:
  "runs reboot (demo_machine demo_disk 100) (\<lambda>_ u. \<exists>ws. dwrites u = dwrites (demo_machine demo_disk 100) @ ws \<and>
     memdisk u = writes_on (memdisk (demo_machine demo_disk 100)) ws \<and>
     (\<forall>k t'. restarted (demo_machine demo_disk 100) (writes_on (memdisk (demo_machine demo_disk 100)) (take k ws)) t' \<longrightarrow>
        runs reboot t' (\<lambda>_ u'. \<forall>b. b \<notin> log_region (boot_log (demo_machine demo_disk 100)) \<longrightarrow> memdisk u' b = memdisk u b)))"
proof (rule recovery_restartable)
  note m = demo_machine_fresh [of 100 demo_disk, OF allI [OF impI [OF demo_disk_len]]]
  show "fresh_bio (demo_machine demo_disk 100)" "length (l_block (log (demo_machine demo_disk 100))) = LOGSIZE"
    "1 < disksize (demo_machine demo_disk 100)" using m by simp_all
  show "log_wf (disksize (demo_machine demo_disk 100)) (boot_log (demo_machine demo_disk 100))" using m demo_log_wf by simp
  show "1 \<notin> log_region (boot_log (demo_machine demo_disk 100))" "1 \<notin> set (logged (boot_log (demo_machine demo_disk 100)))"
    using demo_log_wf by (simp_all add: log_region_def logged_def)
qed

text \<open>
  C3. Durability. When the last outstanding operation ends, \<^verbatim>\<open>end_op\<close> returns with every block outside
  the log written to its home location, nothing pinned in the cache, and the log empty in memory
  and on disk.
\<close>

theorem end_op_durable:
  assumes "log_inv s" "busy s = {}" "l_outstanding (log s) = 1" "\<not> l_committing (log s)" "0 < l_n (log s)"
  shows "runs end_op s (\<lambda>_ t. (\<forall>b. b \<notin> log_region (log s) \<longrightarrow> memdisk t b = blk s b \<and> blk t b = blk s b) \<and>
     dset t = {} \<and> log t = (log s)\<lparr>l_n := 0, l_outstanding := 0\<rparr> \<and> get32 (memdisk t (l_start (log s))) 0 = 0)"
  by (rule runs_weaken [OF end_op_commit [OF assms]]) (simp add: flushed_def)

theorem end_op_durable_witness:
  "runs end_op demo_tx (\<lambda>_ t. (\<forall>b. b \<notin> log_region (log demo_tx) \<longrightarrow> memdisk t b = blk demo_tx b \<and> blk t b = blk demo_tx b) \<and>
     dset t = {} \<and> log t = (log demo_tx)\<lparr>l_n := 0, l_outstanding := 0\<rparr> \<and> get32 (memdisk t (l_start (log demo_tx))) 0 = 0)"
  by (rule end_op_durable) (use demo_tx_facts in simp_all)

text \<open>
  C4. A logged change inside a transaction (read, modify, \<^verbatim>\<open>log_write\<close>, release) changes exactly the
  contents of that block, leaves the disk alone, pins the block, and absorbs repeated writes: the
  block is listed in the log once. The invariant of the log is kept.
\<close>

theorem log_change_absorbs:
  assumes "log_inv s" "n \<notin> busy s" "n < disksize s" "n < 2 ^ 32" "n \<notin> log_region (log s)" "length (f (blk s n)) = BSIZE"
    "log_room (log s)" "card (insert n (busy s \<union> dset s)) \<le> NBUF"
  shows "runs (log_change n f) s (\<lambda>_ t. log_inv t \<and> blk t = (blk s)(n := f (blk s n)) \<and> memdisk t = memdisk s \<and>
     dwrites t = dwrites s \<and> logged (log t) = (if n \<in> set (logged (log s)) then logged (log s) else logged (log s) @ [n]))"
proof (rule runs_weaken [OF log_change_law [where f = f, OF assms]])
  fix x t
  assume t: "log_inv t \<and> bio_frame (upd_log (log_add n) s) t \<and>
     cv t = (cv s)\<lparr>c_blk := (blk s)(n := f (blk s n)), c_dirty := insert n (dset s)\<rparr>"
  have "log t = log_add n (log s)" using t bio_frame_log [of "upd_log (log_add n) s" t] by simp
  moreover have "head_ok (log s)" "l_n (log s) < int LOGSIZE"
    using assms(1,7) by (simp_all add: log_inv_def log_wf_def log_room_def)
  ultimately show "log_inv t \<and> blk t = (blk s)(n := f (blk s n)) \<and> memdisk t = memdisk s \<and> dwrites t = dwrites s \<and>
      logged (log t) = (if n \<in> set (logged (log s)) then logged (log s) else logged (log s) @ [n])"
    using t by (simp add: cv_def log_add_mem log_add_new)
qed

theorem log_change_absorbs_witness:
  "runs (log_change 50 (\<lambda>_. replicate BSIZE 9)) demo_tx (\<lambda>_ t. log_inv t \<and> blk t = (blk demo_tx)(50 := replicate BSIZE 9) \<and>
     memdisk t = memdisk demo_tx \<and> dwrites t = dwrites demo_tx \<and> logged (log t) = [50])"
  using log_change_absorbs [of demo_tx 50 "\<lambda>_. replicate BSIZE 9"] demo_tx_facts
  by (simp add: log_region_def log_room_def LOGSIZE_def NBUF_def)





text \<open>
  C9. \<^verbatim>\<open>begin_op\<close> never admits an operation during a commit or beyond the reservation: it then goes to
  sleep on the log, holding only \<^verbatim>\<open>ptable.lock\<close>; otherwise it counts itself and returns.
\<close>

theorem begin_op_admission:
  assumes "kthread s" "cpu_proc s = Some i"
  shows "begin_op s = (if op_fits (log s)
     then Ok () (upd_log (\<lambda>l. l\<lparr>l_outstanding := l_outstanding l + 1\<rparr>) s)
     else Suspend ((upd_proc i (\<lambda>p. p\<lparr>p_chan := Some CLog, p_state := SLEEPING\<rparr>) s)\<lparr>held := [L_ptable]\<rparr>))"
  using begin_op_waits [OF assms]
    runs_begin_op [OF assms(1), where Q = "\<lambda>_ t. t = upd_log (\<lambda>l. l\<lparr>l_outstanding := l_outstanding l + 1\<rparr>) s"]
  by (auto simp: runs_iff)

theorem begin_op_admission_witness:
  "begin_op demo_tx = Ok () (upd_log (\<lambda>l. l\<lparr>l_outstanding := l_outstanding l + 1\<rparr>) demo_tx) \<and> cpu_proc demo_tx \<noteq> None"
proof -
  have "kthread demo_tx" using demo_tx_facts by (simp add: log_inv_def bthread_def)
  moreover from this obtain i where i: "cpu_proc demo_tx = Some i" by (rule kthreadD)
  moreover have "op_fits (log demo_tx)" using demo_tx_facts by (simp add: op_fits_def LOGSIZE_def MAXOPBLOCKS_def)
  ultimately show ?thesis using begin_op_admission [of demo_tx i] by simp
qed

end
