(* ===== verification/Libc.thy ===== *)
theory Libc
  imports Memory
begin

text \<open>
  \<^verbatim>\<open>src/lib/libc/string.c\<close> over byte-addressed memory. A loop that counts \<^verbatim>\<open>n\<close> down recurses on
  \<open>n\<close> as a natural number; \<^verbatim>\<open>strcmp\<close>, which need not stop, is a partial function, and \<^verbatim>\<open>strlen\<close>
  ends without a result where its \<^verbatim>\<open>int\<close> counter would overflow. The specifications are in terms
  of \<open>mbytes\<close>, the list of bytes from an address on, \<open>mem_set\<close> and \<open>mem_move\<close>.
\<close>

section \<open>The functions\<close>

text \<open>\<^verbatim>\<open>rep stosb\<close> and \<^verbatim>\<open>rep stosl\<close>.\<close>

primrec stosb :: "memory \<Rightarrow> u32 \<Rightarrow> u8 \<Rightarrow> nat \<Rightarrow> memory" where
  "stosb m a c 0 = m"
| "stosb m a c (Suc n) = stosb (m(a := c)) (a + 1) c n"

primrec stosl :: "memory \<Rightarrow> u32 \<Rightarrow> u32 \<Rightarrow> nat \<Rightarrow> memory" where
  "stosl m a v 0 = m"
| "stosl m a v (Suc n) = stosl (store32 m a v) (a + 4) v n"

definition memset :: "memory \<Rightarrow> u32 \<Rightarrow> u32 \<Rightarrow> u32 \<Rightarrow> memory" where
  "memset m dst c n =
     (if sint dst mod 4 = 0 \<and> n mod 4 = 0 then
        (let c = c AND 0xFF in
         stosl m dst (push_bit 24 c OR push_bit 16 c OR push_bit 8 c OR c) (unat (n div 4)))
      else stosb m dst (ucast c) (unat n))"

primrec memcmp :: "memory \<Rightarrow> u32 \<Rightarrow> u32 \<Rightarrow> nat \<Rightarrow> int" where
  "memcmp m s1 s2 0 = 0"
| "memcmp m s1 s2 (Suc n) =
     (if m s1 \<noteq> m s2 then uint (m s1) - uint (m s2) else memcmp m (s1 + 1) (s2 + 1) n)"

primrec move_down :: "memory \<Rightarrow> u32 \<Rightarrow> u32 \<Rightarrow> nat \<Rightarrow> memory" where
  "move_down m d s 0 = m"
| "move_down m d s (Suc n) = move_down (m(d - 1 := m (s - 1))) (d - 1) (s - 1) n"

primrec move_up :: "memory \<Rightarrow> u32 \<Rightarrow> u32 \<Rightarrow> nat \<Rightarrow> memory" where
  "move_up m d s 0 = m"
| "move_up m d s (Suc n) = move_up (m(d := m s)) (d + 1) (s + 1) n"

definition memmove :: "memory \<Rightarrow> u32 \<Rightarrow> u32 \<Rightarrow> u32 \<Rightarrow> memory" where
  "memmove m dst src n =
     (if src < dst \<and> src + n > dst then move_down m (dst + n) (src + n) (unat n)
      else move_up m dst src (unat n))"

definition memcpy :: "memory \<Rightarrow> u32 \<Rightarrow> u32 \<Rightarrow> u32 \<Rightarrow> memory" where
  "memcpy m dst src n = memmove m dst src n"

primrec strncmp :: "memory \<Rightarrow> u32 \<Rightarrow> u32 \<Rightarrow> nat \<Rightarrow> int" where
  "strncmp m p q 0 = 0"
| "strncmp m p q (Suc n) =
     (if m p \<noteq> 0 \<and> m p = m q then strncmp m (p + 1) (q + 1) n else uint (m p) - uint (m q))"

text \<open>The two loops of \<^verbatim>\<open>strncpy\<close>; the first gives the memory, the pointer and what is left of \<^verbatim>\<open>n\<close>.\<close>

primrec strncpy_copy :: "memory \<Rightarrow> u32 \<Rightarrow> u32 \<Rightarrow> nat \<Rightarrow> memory \<times> u32 \<times> nat" where
  "strncpy_copy m s t 0 = (m, s, 0)"
| "strncpy_copy m s t (Suc n) =
     (let c = m t; m' = m(s := c) in
      if c \<noteq> 0 then strncpy_copy m' (s + 1) (t + 1) n else (m', s + 1, n))"

definition strncpy :: "memory \<Rightarrow> u32 \<Rightarrow> u32 \<Rightarrow> int \<Rightarrow> memory" where
  "strncpy m s t n = (case strncpy_copy m s t (nat n) of (m', s', k) \<Rightarrow> stosb m' s' 0 k)"

definition safestrcpy :: "memory \<Rightarrow> u32 \<Rightarrow> u32 \<Rightarrow> int \<Rightarrow> memory" where
  "safestrcpy m s t n =
     (if n \<le> 0 then m
      else case strncpy_copy m s t (nat (n - 1)) of (m', s', _) \<Rightarrow> m'(s' := 0))"

function strlen_from :: "memory \<Rightarrow> u32 \<Rightarrow> nat \<Rightarrow> nat option" where
  "strlen_from m s n =
     (if m (s + of_nat n) = 0 then Some n
      else if n \<ge> 2 ^ 31 - 1 then None else strlen_from m s (Suc n))"
  by pat_completeness auto
termination by (relation "measure (\<lambda>(m, s, n). 2 ^ 31 - n)") auto

definition strlen :: "memory \<Rightarrow> u32 \<Rightarrow> nat option" where
  "strlen m s = strlen_from m s 0"

partial_function (option) strcmp :: "memory \<Rightarrow> u32 \<Rightarrow> u32 \<Rightarrow> int option" where
  "strcmp m p1 p2 =
     (if m p1 \<noteq> 0 \<and> m p1 = m p2 then strcmp m (p1 + 1) (p2 + 1)
      else Some (of_bool (m p1 > m p2) - of_bool (m p2 > m p1)))"

declare strlen_from.simps [simp del]

section \<open>Offsets\<close>

text \<open>The offset of an address from a base, as a number: \<open>x\<close> is \<open>boff a x\<close> bytes after \<open>a\<close>.\<close>

definition boff :: "u32 \<Rightarrow> u32 \<Rightarrow> nat" where
  "boff a x = unat (x - a)"

lemma off_less [simp]: "boff a x < 4294967296"
  using unsigned_less [of "x - a", where ?'a = nat] by (simp add: boff_def)

lemma less_off: "x - a < w \<longleftrightarrow> boff a x < unat w"
  by (simp add: boff_def word_less_nat_alt)

lemma unat_of_nat32 [simp]: "k < 4294967296 \<Longrightarrow> unat (of_nat k :: u32) = k"
  by (simp add: unat_of_nat)

lemma off_eq: "k < 4294967296 \<Longrightarrow> boff a x = k \<longleftrightarrow> x = a + of_nat k"
proof -
  assume k: "k < 4294967296"
  have "boff a x = k \<longleftrightarrow> x - a = of_nat k"
    using k by (auto simp: boff_def word_unat_eq_iff)
  also have "\<dots> \<longleftrightarrow> x = a + of_nat k" by (auto simp: algebra_simps)
  finally show ?thesis .
qed

lemma off_add [simp]: "k < 4294967296 \<Longrightarrow> boff a (a + of_nat k) = k"
  by (simp add: off_eq)

lemma off_self [simp]: "boff a a = 0"
  by (simp add: boff_def)

lemma add_off [simp]: "a + of_nat (boff a x) = x"
  by (simp add: boff_def)

lemma off_Suc: "x \<noteq> a \<Longrightarrow> boff (a + 1) x = boff a x - 1"
proof -
  assume "x \<noteq> a"
  then have "x - a \<noteq> 0" by simp
  then have "unat (x - a - 1) = unat (x - a) - 1" by (rule unat_minus_one)
  moreover have "x - (a + 1) = x - a - 1" by simp
  ultimately show ?thesis unfolding boff_def by metis
qed

lemma off_pos: "x \<noteq> a \<longleftrightarrow> 0 < boff a x"
  by (simp add: boff_def unat_gt_0)

lemma less_Suc_off: "x = a \<or> boff (a + 1) x < n \<and> x \<noteq> a \<longleftrightarrow> boff a x < Suc n"
  by (cases "x = a") (auto simp: off_Suc off_pos)

definition mbytes :: "memory \<Rightarrow> u32 \<Rightarrow> nat \<Rightarrow> u8 list" where
  "mbytes m a n = map (\<lambda>i. m (a + of_nat i)) [0..<n]"

lemma bytes_0 [simp]: "mbytes m a 0 = []"
  by (simp add: mbytes_def)

lemma length_bytes [simp]: "length (mbytes m a n) = n"
  by (simp add: mbytes_def)

lemma nth_bytes [simp]: "i < n \<Longrightarrow> mbytes m a n ! i = m (a + of_nat i)"
  by (simp add: mbytes_def)

lemma bytes_Suc [simp]: "mbytes m a (Suc n) = m a # mbytes m (a + 1) n"
  by (simp add: list_eq_iff_nth_eq nth_Cons' algebra_simps)

lemma bytes_cong: "(\<And>i. i < n \<Longrightarrow> m (a + of_nat i) = m' (a + of_nat i)) \<Longrightarrow> mbytes m a n = mbytes m' a n"
  by (simp add: mbytes_def)

section \<open>Filling\<close>

lemma stosb_eq: "n < 4294967296 \<Longrightarrow> stosb m a c n x = (if boff a x < n then c else m x)"
proof (induction n arbitrary: m a)
  case (Suc n)
  then show ?case using less_Suc_off [of x a n] off_Suc [of x a] by (auto simp: off_pos)
qed simp

lemma stosb_full: "n < 4294967296 \<Longrightarrow> stosb m a c n = mem_set m a c (of_nat n)"
  by (simp add: fun_eq_iff stosb_eq mem_set_def less_off)

lemma to_le_4_word:
  "to_le 4 (unat v) = [ucast v, ucast (drop_bit 8 v), ucast (drop_bit 16 v), ucast (drop_bit 24 v)]" for v :: u32
proof -
  have u: "word_of_nat (unat w mod 256) = (ucast w :: u8)" for w :: u32
    by (simp add: word_unat_eq_iff unat_of_nat unsigned_ucast_eq take_bit_eq_mod)
  have d: "unat v div 256 = unat (drop_bit 8 v)" "unat (drop_bit 8 v) div 256 = unat (drop_bit 16 v)"
    "unat (drop_bit 16 v) div 256 = unat (drop_bit 24 v)"
    by (simp_all add: unat_drop_bit_eq drop_bit_nat_def div_mult2_eq [symmetric])
  have "4 = Suc (Suc (Suc (Suc 0)))" by simp
  then show ?thesis by (simp only: to_le.simps d u)
qed

lemma splat_bytes:
  fixes c :: u32
  defines "d \<equiv> c AND 0xFF"
  defines "v \<equiv> push_bit 24 d OR push_bit 16 d OR push_bit 8 d OR d"
  shows "to_le 4 (unat v) = replicate 4 (ucast c)"
proof -
  have d: "d = take_bit 8 c" by (simp add: d_def take_bit_eq_mask mask_eq_exp_minus_1)
  have "ucast v = (ucast c :: u8)" "ucast (drop_bit 8 v) = (ucast c :: u8)"
    "ucast (drop_bit 16 v) = (ucast c :: u8)" "ucast (drop_bit 24 v) = (ucast c :: u8)"
    unfolding v_def d
    by (rule bit_word_eqI; auto simp: bit_simps)+
  moreover have "replicate 4 (ucast c :: u8) = [ucast c, ucast c, ucast c, ucast c]" by (simp add: numeral_eq_Suc)
  ultimately show ?thesis by (simp only: to_le_4_word)
qed

lemma store32_splat:
  assumes "to_le 4 (unat v) = replicate 4 c"
  shows "store32 m a v = mem_set m a c 4"
  by (auto simp: store32_def mem_set_def assms fun_eq_iff less_off boff_def)

lemma off_plus:
  assumes "k < 4294967296"
  shows "boff (a + of_nat k) x = (if k \<le> boff a x then boff a x - k else 4294967296 + boff a x - k)"
proof -
  have "x - (a + of_nat k) = (x - a) - of_nat k" by simp
  then have "boff (a + of_nat k) x = unat ((x - a) - of_nat k)" by (simp only: boff_def)
  also have "\<dots> = (if k \<le> unat (x - a) then unat (x - a) - k else 4294967296 + unat (x - a) - k)"
    using unat_sub_if' [of "x - a" "of_nat k"] assms by (simp add: add.commute [of _ 4294967296])
  finally show ?thesis by (simp only: boff_def)
qed

lemma stosl_eq:
  assumes "to_le 4 (unat v) = replicate 4 c" "4 * n < 4294967296"
  shows "stosl m a v n x = (if boff a x < 4 * n then c else m x)"
  using assms(2)
proof (induction n arbitrary: m a)
  case (Suc n)
  have "boff (a + 4) x = (if 4 \<le> boff a x then boff a x - 4 else 4294967296 + boff a x - 4)"
    using off_plus [of 4 a x] by simp
  then show ?case using Suc
    by (auto simp: store32_splat [OF assms(1)] mem_set_def less_off)
qed simp

lemma memset_eq: "memset m dst c n = mem_set m dst (ucast c) n"
proof (cases "sint dst mod 4 = 0 \<and> n mod 4 = 0")
  case True
  have "unat n < 4294967296" using unsigned_less [of n, where ?'a = nat] by simp
  moreover have "unat (n mod 4) = unat n mod 4" by (simp add: unat_mod)
  then have "unat n mod 4 = 0" using True by simp
  moreover have "unat (n div 4) = unat n div 4" by (simp add: unat_div)
  ultimately have "4 * unat (n div 4) = unat n" "4 * unat (n div 4) < 4294967296" by auto
  then have "stosl m dst (push_bit 24 (c AND 0xFF) OR push_bit 16 (c AND 0xFF) OR push_bit 8 (c AND 0xFF) OR (c AND 0xFF))
      (unat (n div 4)) x = mem_set m dst (ucast c) n x" for x
    using stosl_eq [OF splat_bytes, of "unat (n div 4)"] by (simp only: mem_set_def less_off)
  then show ?thesis using True by (simp only: memset_def Let_def fun_eq_iff simp_thms if_True)
next
  case False
  have "unat n < 4294967296" using unsigned_less [of n, where ?'a = nat] by simp
  then show ?thesis using False by (auto simp: memset_def stosb_full)
qed

section \<open>Moving\<close>

lemma move_up_eq:
  assumes "n < 4294967296" "\<And>k. k < n \<Longrightarrow> \<not> boff d (s + of_nat k) < k"
  shows "move_up m d s n x = (if boff d x < n then m (s + of_nat (boff d x)) else m x)"
  using assms
proof (induction n arbitrary: m d s)
  case (Suc n)
  have ih: "move_up (m(d := m s)) (d + 1) (s + 1) n x =
     (if boff (d + 1) x < n then (m(d := m s)) (s + 1 + of_nat (boff (d + 1) x)) else (m(d := m s)) x)"
  proof (rule Suc.IH)
    fix k assume k: "k < n"
    then have "Suc k < Suc n" by simp
    then have "\<not> boff d (s + of_nat (Suc k)) < Suc k" by (rule Suc.prems(2))
    moreover have "boff (d + 1) (s + 1 + of_nat k) =
        (if 1 \<le> boff d (s + of_nat (Suc k)) then boff d (s + of_nat (Suc k)) - 1 else 4294967296 + boff d (s + of_nat (Suc k)) - 1)"
      using off_plus [of 1 d "s + of_nat (Suc k)"] by (simp add: algebra_simps)
    ultimately show "\<not> boff (d + 1) (s + 1 + of_nat k) < k" using k Suc.prems(1) by auto
  qed (use Suc.prems in simp)
  show ?case
  proof (cases "x = d")
    case True
    have "boff (d + 1) d = 4294967295" using off_plus [of 1 d d] by simp
    then show ?thesis using ih True Suc.prems(1) by simp
  next
    case False
    then have o: "boff (d + 1) x = boff d x - 1" "0 < boff d x" by (auto simp: off_Suc off_pos)
    then have "boff d x = Suc (boff (d + 1) x)" by simp
    then have e: "s + 1 + of_nat (boff (d + 1) x) = s + of_nat (boff d x)" by simp
    have "s + of_nat (boff d x) \<noteq> d" if "boff d x < Suc n"
    proof
      assume "s + of_nat (boff d x) = d"
      then have "boff d (s + of_nat (boff d x)) = 0" by simp
      then show False using Suc.prems(2) [OF that] o by simp
    qed
    then show ?thesis using ih e o False by auto
  qed
qed simp

lemma move_down_eq:
  assumes "n < 4294967296" "\<And>k. k < n \<Longrightarrow> boff D (S + of_nat k) \<le> k \<or> n \<le> boff D (S + of_nat k)"
  shows "move_down m (D + of_nat n) (S + of_nat n) n x = (if boff D x < n then m (S + of_nat (boff D x)) else m x)"
  using assms
proof (induction n arbitrary: m)
  case (Suc n)
  let ?m = "m(D + of_nat n := m (S + of_nat n))"
  have "move_down m (D + of_nat (Suc n)) (S + of_nat (Suc n)) (Suc n) x =
      move_down ?m (D + of_nat n) (S + of_nat n) n x" by (simp add: algebra_simps)
  also have "\<dots> = (if boff D x < n then ?m (S + of_nat (boff D x)) else ?m x)"
  proof (rule Suc.IH)
    fix k assume "k < n"
    then show "boff D (S + of_nat k) \<le> k \<or> n \<le> boff D (S + of_nat k)" using Suc.prems(2) [of k] by auto
  qed (use Suc.prems(1) in simp)
  finally have e: "move_down m (D + of_nat (Suc n)) (S + of_nat (Suc n)) (Suc n) x =
      (if boff D x < n then ?m (S + of_nat (boff D x)) else ?m x)" .
  have "S + of_nat (boff D x) \<noteq> D + of_nat n" if "boff D x < n"
  proof
    assume "S + of_nat (boff D x) = D + of_nat n"
    then have "boff D (S + of_nat (boff D x)) = n" using Suc.prems(1) by simp
    then show False using Suc.prems(2) [of "boff D x"] that by simp
  qed
  moreover have "x = D + of_nat n \<longleftrightarrow> boff D x = n" using off_eq [of n D x] Suc.prems(1) by auto
  ultimately show ?case using e by auto
qed simp

lemma off_unat: "boff d y = (if unat d \<le> unat y then unat y - unat d else 4294967296 + unat y - unat d)"
  using unat_sub_if' [of y d] by (simp add: boff_def add.commute [of _ 4294967296])

lemma unat_add_small: "unat a + k < 4294967296 \<Longrightarrow> unat (a + of_nat k) = unat a + k" for a :: u32
  by (simp add: unat_word_ariths)

lemma memmove_eq:
  assumes "unat dst + unat n \<le> 4294967296" "unat src + unat n \<le> 4294967296"
  shows "memmove m dst src n = mem_move m dst src n"
proof
  fix x
  have n: "unat n < 4294967296" using unsigned_less [of n, where ?'a = nat] by simp
  have a: "unat (src + of_nat k) = unat src + k" if "k < unat n" for k
    using that assms(2) by (intro unat_add_small) simp
  have r: "mem_move m dst src n x = (if boff dst x < unat n then m (src + of_nat (boff dst x)) else m x)"
    by (simp add: mem_move_def less_off) (simp add: boff_def)
  show "memmove m dst src n x = mem_move m dst src n x"
  proof (cases "src < dst \<and> src + n > dst")
    case True
    have "boff dst (src + of_nat k) \<le> k \<or> unat n \<le> boff dst (src + of_nat k)" if "k < unat n" for k
      using True assms that a [OF that] by (auto simp: off_unat word_less_nat_alt)
    then have "move_down m (dst + of_nat (unat n)) (src + of_nat (unat n)) (unat n) x = mem_move m dst src n x"
      unfolding r by (intro move_down_eq n)
    then show ?thesis using True by (simp add: memmove_def)
  next
    case False
    have "\<not> boff dst (src + of_nat k) < k" if k: "k < unat n" for k
    proof (cases "src < dst")
      case True
      then have l: "src + n \<le> dst" "unat src + unat n < 4294967296" "unat src < unat dst"
        using False assms by (auto simp: word_less_nat_alt word_le_nat_alt)
      then have "unat src + unat n \<le> unat dst"
        using unat_add_small [of src "unat n"] by (simp add: word_le_nat_alt)
      then show ?thesis using a [OF k] k l assms by (auto simp: off_unat)
    next
      case False
      then show ?thesis using a [OF k] by (auto simp: off_unat word_less_nat_alt)
    qed
    then have "move_up m dst src (unat n) x = mem_move m dst src n x"
      unfolding r by (intro move_up_eq n) 
    then show ?thesis using False by (auto simp: memmove_def)
  qed
qed

section \<open>Strings\<close>

text \<open>The string in a field of \<open>n\<close> bytes, padded with zeros: what \<^verbatim>\<open>strncpy\<close> leaves in the field.\<close>

definition zpad :: "nat \<Rightarrow> u8 list \<Rightarrow> u8 list" where
  "zpad n bs = (let w = takeWhile (\<lambda>c. c \<noteq> 0) bs in w @ replicate (n - length w) 0)"

lemma zpad_Nil [simp]: "zpad n [] = replicate n 0"
  by (simp add: zpad_def)

lemma zpad_Cons [simp]: "zpad (Suc n) (c # bs) = (if c = 0 then replicate (Suc n) 0 else c # zpad n bs)"
  by (simp add: zpad_def Let_def)

lemma length_zpad [simp]: "length bs \<le> n \<Longrightarrow> length (zpad n bs) = n"
  using length_takeWhile_le [of "\<lambda>c. c \<noteq> 0" bs] by (simp add: zpad_def Let_def)

lemma zpad_replicate: "zpad n (replicate k 0) = replicate n 0"
  by (cases k) (auto simp: zpad_def)

lemma zpad_zpad: "length bs = l \<Longrightarrow> zpad l (zpad l bs) = zpad l bs"
  by (induction bs arbitrary: l) (auto simp: zpad_replicate)

text \<open>No byte of the \<open>n\<close> from \<open>t\<close> on is one of the \<open>k\<close> from \<open>s\<close> on.\<close>

definition apart :: "u32 \<Rightarrow> nat \<Rightarrow> u32 \<Rightarrow> nat \<Rightarrow> bool" where
  "apart s k t n \<longleftrightarrow> (\<forall>j < n. k \<le> boff s (t + of_nat j))"

lemma apart_Suc:
  assumes "apart s (Suc k) t (Suc n)" "Suc k < 4294967296"
  shows "apart (s + 1) k (t + 1) n" "mbytes (m(s := c)) (t + 1) n = mbytes m (t + 1) n"
proof -
  have o: "Suc k \<le> boff s (t + 1 + of_nat j)" if "j < n" for j
    using assms(1) that unfolding apart_def by (metis Suc_less_eq add.assoc of_nat_Suc)
  have ne: "t + 1 + of_nat j \<noteq> s" if "j < n" for j
    using o [OF that] off_pos [of "t + 1 + of_nat j" s] by simp
  moreover have "k \<le> boff (s + 1) (t + 1 + of_nat j)" if "j < n" for j
    using o [OF that] off_Suc [OF ne [OF that]] by linarith
  ultimately show "apart (s + 1) k (t + 1) n" "mbytes (m(s := c)) (t + 1) n = mbytes m (t + 1) n"
    by (auto simp: apart_def intro!: bytes_cong)
qed

lemma strncpy_eq:
  assumes "n < 4294967296" "apart s n t n"
  shows "(case strncpy_copy m s t n of (m', s', k) \<Rightarrow> stosb m' s' 0 k) x =
    (if boff s x < n then zpad n (mbytes m t n) ! boff s x else m x)"
  using assms
proof (induction n arbitrary: m s t)
  case (Suc n)
  let ?m = "m(s := m t)"
  show ?case
  proof (cases "m t = 0")
    case True
    have "stosb m s 0 (Suc n) x = (if boff s x < Suc n then 0 else m x)" using Suc.prems(1) by (rule stosb_eq)
    then show ?thesis using True by (simp add: nth_Cons')
  next
    case False
    have "(case strncpy_copy ?m (s + 1) (t + 1) n of (m', s', k) \<Rightarrow> stosb m' s' 0 k) x =
        (if boff (s + 1) x < n then zpad n (mbytes ?m (t + 1) n) ! boff (s + 1) x else ?m x)"
      by (rule Suc.IH) (use Suc.prems(1) apart_Suc(1) [OF Suc.prems(2,1)] in simp_all)
    then have "(case strncpy_copy ?m (s + 1) (t + 1) n of (m', s', k) \<Rightarrow> stosb m' s' 0 k) x =
        (if boff (s + 1) x < n then zpad n (mbytes m (t + 1) n) ! boff (s + 1) x else ?m x)"
      unfolding apart_Suc(2) [OF Suc.prems(2,1)] .
    moreover have "boff (s + 1) s = 4294967295" using off_plus [of 1 s s] by simp
    ultimately show ?thesis using False Suc.prems(1) off_Suc [of x s] off_pos [of x s]
      by (cases "x = s") auto
  qed
qed simp

lemma strncpy_bytes:
  assumes "0 \<le> n" "n < 4294967296" "apart s (nat n) t (nat n)"
  shows "mbytes (strncpy m s t n) s (nat n) = zpad (nat n) (mbytes m t (nat n))"
    and "nat n \<le> boff s x \<Longrightarrow> strncpy m s t n x = m x"
proof -
  have n: "nat n < 4294967296" using assms(2) by simp
  have e: "strncpy m s t n x = (if boff s x < nat n then zpad (nat n) (mbytes m t (nat n)) ! boff s x else m x)" for x
    unfolding strncpy_def by (rule strncpy_eq [OF n assms(3)])
  show "mbytes (strncpy m s t n) s (nat n) = zpad (nat n) (mbytes m t (nat n))"
    by (rule nth_equalityI) (use n in \<open>simp_all add: e\<close>)
  show "nat n \<le> boff s x \<Longrightarrow> strncpy m s t n x = m x" by (simp add: e)
qed

lemma uint_diff_0: "uint a - uint b = 0 \<longleftrightarrow> a = b" for a b :: u8
  by (simp add: word_uint_eq_iff)

lemma strncmp_0_iff: "strncmp m p q n = 0 \<longleftrightarrow> zpad n (mbytes m p n) = zpad n (mbytes m q n)"
proof (induction n arbitrary: p q)
  case (Suc n)
  show ?case using Suc.IH [of "p + 1" "q + 1"] uint_diff_0 [of "m p" "m q"]
    by (cases "m p = m q"; cases "m p = 0"; simp)
qed simp

lemma memcmp_0_iff: "memcmp m p q n = 0 \<longleftrightarrow> mbytes m p n = mbytes m q n"
proof (induction n arbitrary: p q)
  case (Suc n)
  show ?case using Suc.IH [of "p + 1" "q + 1"] uint_diff_0 [of "m p" "m q"] by simp
qed simp

lemma strncpy_copy_str:
  assumes "n < 4294967295" "apart s n t n"
  shows "(case strncpy_copy m s t n of (m', s', k) \<Rightarrow> m'(s' := 0)) x =
    (let w = takeWhile (\<lambda>c. c \<noteq> 0) (mbytes m t n) in
     if boff s x < length w then w ! boff s x
     else if boff s x = length w \<or> length w < n \<and> boff s x = Suc (length w) then 0 else m x)"
  using assms
proof (induction n arbitrary: m s t)
  case 0
  have "boff s x = 0 \<longleftrightarrow> x = s" using off_eq [of 0 s x] by simp
  then show ?case by simp
next
  case (Suc n)
  let ?m = "m(s := m t)"
  have l: "Suc n < 4294967296" using Suc.prems(1) by simp
  show ?case
  proof (cases "m t = 0")
    case True
    have "boff s x = 0 \<longleftrightarrow> x = s" "boff s x = Suc 0 \<longleftrightarrow> x = s + 1"
      using off_eq [of 0 s x] off_eq [of 1 s x] by simp_all
    then show ?thesis using True by (simp add: Let_def)
  next
    case False
    have "(case strncpy_copy ?m (s + 1) (t + 1) n of (m', s', k) \<Rightarrow> m'(s' := 0)) x =
      (let w = takeWhile (\<lambda>c. c \<noteq> 0) (mbytes ?m (t + 1) n) in
       if boff (s + 1) x < length w then w ! boff (s + 1) x
       else if boff (s + 1) x = length w \<or> length w < n \<and> boff (s + 1) x = Suc (length w) then 0 else ?m x)"
      by (rule Suc.IH) (use Suc.prems(1) apart_Suc(1) [OF Suc.prems(2) l] in simp_all)
    then have "(case strncpy_copy ?m (s + 1) (t + 1) n of (m', s', k) \<Rightarrow> m'(s' := 0)) x =
      (let w = takeWhile (\<lambda>c. c \<noteq> 0) (mbytes m (t + 1) n) in
       if boff (s + 1) x < length w then w ! boff (s + 1) x
       else if boff (s + 1) x = length w \<or> length w < n \<and> boff (s + 1) x = Suc (length w) then 0 else ?m x)"
      unfolding apart_Suc(2) [OF Suc.prems(2) l] .
    moreover define w where "w = takeWhile (\<lambda>c. c \<noteq> 0) (mbytes m (t + 1) n)"
    moreover obtain m1 s1 k1 where r: "strncpy_copy ?m (s + 1) (t + 1) n = (m1, s1, k1)"
      by (cases "strncpy_copy ?m (s + 1) (t + 1) n") auto
    ultimately have ih: "(m1(s1 := 0)) x = (if boff (s + 1) x < length w then w ! boff (s + 1) x
       else if boff (s + 1) x = length w \<or> length w < n \<and> boff (s + 1) x = Suc (length w) then 0 else ?m x)"
      by (simp only: Let_def prod.case)
    have w: "length w \<le> n" "takeWhile (\<lambda>c. c \<noteq> 0) (mbytes m t (Suc n)) = m t # w"
      using length_takeWhile_le [of "\<lambda>c. c \<noteq> 0" "mbytes m (t + 1) n"] False by (simp_all add: w_def)
    have o: "boff (s + 1) s = 4294967295" using off_plus [of 1 s s] by simp
    have "strncpy_copy m s t (Suc n) = (m1, s1, k1)" using False r by (simp add: Let_def)
    then have e: "(case strncpy_copy m s t (Suc n) of (m', s', k) \<Rightarrow> m'(s' := 0)) x = (m1(s1 := 0)) x"
      by (simp only: prod.case)
    show ?thesis unfolding e w(2) Let_def ih
    proof (cases "x = s")
      case True
      then show "(if boff (s + 1) x < length w then w ! boff (s + 1) x
         else if boff (s + 1) x = length w \<or> length w < n \<and> boff (s + 1) x = Suc (length w) then 0 else ?m x) =
        (if boff s x < length (m t # w) then (m t # w) ! boff s x
         else if boff s x = length (m t # w) \<or> length (m t # w) < Suc n \<and> boff s x = Suc (length (m t # w)) then 0 else m x)"
        using o w(1) Suc.prems(1) by simp
    next
      case False
      then obtain k where "boff s x = Suc k" "boff (s + 1) x = k"
        using off_Suc [of x s] off_pos [of x s] by (cases "boff s x") auto
      then show "(if boff (s + 1) x < length w then w ! boff (s + 1) x
         else if boff (s + 1) x = length w \<or> length w < n \<and> boff (s + 1) x = Suc (length w) then 0 else ?m x) =
        (if boff s x < length (m t # w) then (m t # w) ! boff s x
         else if boff s x = length (m t # w) \<or> length (m t # w) < Suc n \<and> boff s x = Suc (length (m t # w)) then 0 else m x)"
        using False by simp
    qed
  qed
qed

lemma strlen_from_eq:
  assumes "n \<le> k" "k < 2 ^ 31" "m (s + of_nat k) = 0" "\<And>j. n \<le> j \<Longrightarrow> j < k \<Longrightarrow> m (s + of_nat j) \<noteq> 0"
  shows "strlen_from m s n = Some k"
  using assms
proof (induction "k - n" arbitrary: n)
  case 0
  then show ?case by (simp add: strlen_from.simps)
next
  case (Suc d)
  have "strlen_from m s n = strlen_from m s (Suc n)"
    using Suc.prems Suc.hyps(2) by (subst strlen_from.simps) auto
  also have "\<dots> = Some k" using Suc.prems Suc.hyps(2) by (intro Suc.hyps(1)) auto
  finally show ?case .
qed

lemma strcmp_eq:
  assumes "\<And>j. j < k \<Longrightarrow> m (p + of_nat j) \<noteq> 0 \<and> m (p + of_nat j) = m (q + of_nat j)"
    and "m (p + of_nat k) = 0 \<or> m (p + of_nat k) \<noteq> m (q + of_nat k)"
  shows "strcmp m p q = Some (of_bool (m (p + of_nat k) > m (q + of_nat k)) - of_bool (m (q + of_nat k) > m (p + of_nat k)))"
  using assms
proof (induction k arbitrary: p q)
  case 0
  then show ?case by (subst strcmp.simps) auto
next
  case (Suc k)
  have "m p \<noteq> 0" "m p = m q" using Suc.prems(1) [of 0] by auto
  then have "strcmp m p q = strcmp m (p + 1) (q + 1)" by (subst strcmp.simps) auto
  also have "\<dots> = Some (of_bool (m (p + 1 + of_nat k) > m (q + 1 + of_nat k)) - of_bool (m (q + 1 + of_nat k) > m (p + 1 + of_nat k)))"
  proof (rule Suc.IH)
    fix j assume "j < k"
    then show "m (p + 1 + of_nat j) \<noteq> 0 \<and> m (p + 1 + of_nat j) = m (q + 1 + of_nat j)"
      using Suc.prems(1) [of "Suc j"] by (auto simp: algebra_simps)
  qed (use Suc.prems(2) in \<open>simp add: algebra_simps\<close>)
  finally show ?case by (simp add: algebra_simps)
qed

section \<open>Properties\<close>

text \<open>
  C15. \<^verbatim>\<open>memmove\<close> moves a block of memory correctly whether or not source and destination overlap,
  as long as neither block wraps around the end of the address space: it has the effect of reading
  the whole source first, and touches nothing else.
\<close>

theorem memmove_correct:
  assumes "unat dst + unat n \<le> 2 ^ 32" "unat src + unat n \<le> 2 ^ 32"
  shows "mbytes (memmove m dst src n) dst (unat n) = mbytes m src (unat n) \<and>
    (\<forall>x. \<not> x - dst < n \<longrightarrow> memmove m dst src n x = m x)"
proof -
  have n: "unat n < 4294967296" using unsigned_less [of n, where ?'a = nat] by simp
  have e: "memmove m dst src n = mem_move m dst src n" using assms by (intro memmove_eq) simp_all
  have "i < unat n \<Longrightarrow> (of_nat i :: u32) < n" for i using n by (simp add: word_less_nat_alt)
  then show ?thesis by (auto simp: e list_eq_iff_nth_eq mem_move_def)
qed

theorem memmove_correct_witness:
  "mbytes (memmove (\<lambda>x. ucast x) 3 1 4) 3 4 = [1, 2, 3, 4] \<and> memmove (\<lambda>x. ucast x) 3 1 4 2 = 2"
proof -
  have "mbytes (\<lambda>x. ucast x) 1 4 = [1, 2, 3, 4]" by code_simp
  then show ?thesis using memmove_correct [of 3 4 1 "\<lambda>x. ucast x"] by simp
qed

text \<open>
  C16. \<^verbatim>\<open>memset\<close>: the word loop it takes for aligned blocks and the byte loop it takes for others have
  the same effect, that of storing the low byte of \<^verbatim>\<open>c\<close> into each byte of the block.
\<close>

theorem memset_correct: "memset m dst c n x = (if x - dst < n then ucast c else m x)"
  by (simp add: memset_eq mem_set_def)

text \<open>
  C17. \<^verbatim>\<open>safestrcpy\<close> of a string into a buffer of \<^verbatim>\<open>n > 0\<close> bytes leaves there the longest prefix of the
  string that fits together with a terminating zero, and writes nothing outside the buffer.
\<close>

theorem safestrcpy_terminated:
  assumes "0 < n" "n < 2 ^ 31" "apart s (nat (n - 1)) t (nat (n - 1))"
    and w_def: "w = takeWhile (\<lambda>c. c \<noteq> 0) (mbytes m t (nat (n - 1)))"
  shows "mbytes (safestrcpy m s t n) s (length w + 1) = w @ [0] \<and> length w + 1 \<le> nat n \<and>
    (\<forall>x. nat n \<le> boff s x \<longrightarrow> safestrcpy m s t n x = m x)"
proof -
  let ?k = "nat (n - 1)"
  have k: "?k < 4294967295" "nat n = Suc ?k" using assms(1,2) by simp_all
  have e: "safestrcpy m s t n x = (if boff s x < length w then w ! boff s x
     else if boff s x = length w \<or> length w < ?k \<and> boff s x = Suc (length w) then 0 else m x)" for x
    using strncpy_copy_str [OF k(1) assms(3), of m x] assms(1) by (simp add: safestrcpy_def w_def Let_def)
  have w: "length w \<le> ?k" using length_takeWhile_le [of "\<lambda>c. c \<noteq> 0" "mbytes m t ?k"] by (simp add: w_def)
  have "mbytes (safestrcpy m s t n) s (length w + 1) = w @ [0]"
  proof (rule nth_equalityI)
    fix i assume "i < length (mbytes (safestrcpy m s t n) s (length w + 1))"
    then have i: "i < length w + 1" "boff s (s + of_nat i) = i" using w k(1) by simp_all
    then have "mbytes (safestrcpy m s t n) s (length w + 1) ! i = safestrcpy m s t n (s + of_nat i)"
      by (simp only: nth_bytes)
    then show "mbytes (safestrcpy m s t n) s (length w + 1) ! i = (w @ [0]) ! i"
      using i by (auto simp: e nth_append less_Suc_eq)
  qed simp
  moreover have "safestrcpy m s t n x = m x" if "nat n \<le> boff s x" for x
  proof -
    have "\<not> boff s x < length w" "boff s x \<noteq> length w" "\<not> (length w < ?k \<and> boff s x = Suc (length w))"
      using that w unfolding k(2) by auto
    then show ?thesis unfolding e by auto
  qed
  moreover have "length w + 1 \<le> nat n" using w unfolding k(2) by simp
  ultimately show ?thesis by blast
qed

theorem safestrcpy_terminated_witness:
  "mbytes (safestrcpy ((\<lambda>x. 7)(2 := 0)) 100 0 16) 100 3 = [7, 7, 0]"
proof -
  let ?m = "(\<lambda>x. 7)(2 := 0) :: memory"
  have "apart 100 15 0 15"
    by (auto simp: apart_def off_unat)
  moreover have "takeWhile (\<lambda>c. c \<noteq> 0) (mbytes ?m 0 15) = [7, 7]"
    by code_simp
  ultimately show ?thesis using safestrcpy_terminated [of 16 100 0 "[7, 7]" ?m] by (simp add: numeral_3_eq_3)
qed

text \<open>
  C18. Fixed-width names. After \<^verbatim>\<open>strncpy(s, t, n)\<close> the field at \<^verbatim>\<open>s\<close> holds the string at \<^verbatim>\<open>t\<close> cut to \<^verbatim>\<open>n\<close>
  bytes and padded with zeros, nothing else has changed, and \<^verbatim>\<open>strncmp(s, t, n)\<close> reports equality.
  Two fields compare equal exactly if their padded strings are the same.
\<close>

theorem strncpy_strncmp:
  assumes "0 \<le> n" "n < 2 ^ 31" "apart s (nat n) t (nat n)"
  shows "mbytes (strncpy m s t n) s (nat n) = zpad (nat n) (mbytes m t (nat n)) \<and>
    (\<forall>x. nat n \<le> boff s x \<longrightarrow> strncpy m s t n x = m x) \<and>
    strncmp (strncpy m s t n) s t (nat n) = 0 \<and>
    (strncmp m p q k = 0 \<longleftrightarrow> zpad k (mbytes m p k) = zpad k (mbytes m q k))"
proof -
  have b: "mbytes (strncpy m s t n) s (nat n) = zpad (nat n) (mbytes m t (nat n))"
    and u: "nat n \<le> boff s x \<Longrightarrow> strncpy m s t n x = m x" for x
    using strncpy_bytes [where n = n and s = s and t = t and m = m] assms by simp_all
  have "mbytes (strncpy m s t n) t (nat n) = mbytes m t (nat n)"
    using u assms(3) by (auto simp: apart_def intro!: bytes_cong)
  moreover have "zpad (nat n) (zpad (nat n) (mbytes m t (nat n))) = zpad (nat n) (mbytes m t (nat n))"
    by (rule zpad_zpad) simp
  ultimately have "strncmp (strncpy m s t n) s t (nat n) = 0" by (simp add: strncmp_0_iff b)
  then show ?thesis using b u by (simp add: strncmp_0_iff)
qed

theorem strncpy_strncmp_witness:
  "mbytes (strncpy ((\<lambda>x. 7)(2 := 0)) 100 0 5) 100 5 = [7, 7, 0, 0, 0] \<and>
   strncmp (strncpy ((\<lambda>x. 7)(2 := 0)) 100 0 5) 100 0 5 = 0"
proof -
  have "apart 100 5 0 5" by (auto simp: apart_def off_unat)
  moreover have "zpad 5 (mbytes ((\<lambda>x. 7)(2 := 0)) 0 5) = [7, 7, 0, 0, 0]" by code_simp
  ultimately show ?thesis using strncpy_strncmp [where n = 5 and s = 100 and t = 0 and m = "(\<lambda>x. 7)(2 := 0)"] by simp
qed

text \<open>
  C19. \<^verbatim>\<open>strcmp\<close> returns exactly when the two strings differ somewhere or end: it then returns 0 if they
  are equal and the sign of the first difference otherwise; \<^verbatim>\<open>strlen\<close> returns the position of the
  first zero.
\<close>

theorem strcmp_strlen_correct:
  assumes "\<forall>j < k. m (p + of_nat j) \<noteq> 0 \<and> m (p + of_nat j) = m (q + of_nat j)"
  shows "(m (p + of_nat k) = 0 \<or> m (p + of_nat k) \<noteq> m (q + of_nat k) \<longrightarrow>
      strcmp m p q = Some (if m (p + of_nat k) = m (q + of_nat k) then 0
                           else if m (p + of_nat k) > m (q + of_nat k) then 1 else - 1)) \<and>
    (m (p + of_nat k) = 0 \<and> k < 2 ^ 31 \<longrightarrow> strlen m p = Some k)"
proof (intro conjI impI)
  assume "m (p + of_nat k) = 0 \<or> m (p + of_nat k) \<noteq> m (q + of_nat k)"
  then have "strcmp m p q = Some (of_bool (m (p + of_nat k) > m (q + of_nat k)) - of_bool (m (q + of_nat k) > m (p + of_nat k)))"
    using assms by (intro strcmp_eq) auto
  then show "strcmp m p q = Some (if m (p + of_nat k) = m (q + of_nat k) then 0
      else if m (p + of_nat k) > m (q + of_nat k) then 1 else - 1)" by auto
next
  assume "m (p + of_nat k) = 0 \<and> k < 2 ^ 31"
  then show "strlen m p = Some k" unfolding strlen_def using assms by (intro strlen_from_eq) auto
qed

theorem strcmp_strlen_correct_witness:
  "strcmp ((\<lambda>x. 7)(2 := 0)) 0 1 = Some 1 \<and> strlen ((\<lambda>x. 7)(2 := 0)) 0 = Some 2"
proof -
  let ?m = "(\<lambda>x. 7)(2 := 0) :: memory"
  have j: "\<forall>j < 2. ?m (0 + of_nat j) \<noteq> 0 \<and> ?m (0 + of_nat j) = ?m (0 + of_nat j)" by (auto dest: less_2_cases)
  have "strcmp ?m 0 1 = Some 1" using strcmp_strlen_correct [of 1 ?m 0 1] by simp
  moreover have "strlen ?m 0 = Some 2" using strcmp_strlen_correct [of 2 ?m 0 0] j by simp
  ultimately show ?thesis by simp
qed

end
