(* ===== verification/Buddy.thy ===== *)
theory Buddy
  imports Libc
begin

text \<open>
  The buddy allocator, \<^verbatim>\<open>src/kern/mm/buddy.c\<close>. The state is the \<open>buddy\<close> field of \<open>kmem\<close>; the array of
  marks that the code places at \<^verbatim>\<open>kmem.start\<close> is the function \<open>b_marks\<close> on mark numbers. An order is a
  natural number. The recursions of \<^verbatim>\<open>__internal_kfree\<close> and \<^verbatim>\<open>__internal_kmalloc\<close> climb from an order to
  \<^verbatim>\<open>MAX_ORD\<close>, so they recurse on the distance \<open>MAX_ORD - order\<close>. Console output is left out.

  The abstraction \<open>fblk s\<close> gives the set of free blocks of each order. \<open>buddy_ok\<close> says that the marks
  with a free block are exactly those chained in the doubly linked list of their order, and that
  the free blocks are disjoint, inside the heap and completely merged. \<open>farea\<close> is the set of heap
  offsets the free blocks cover.
\<close>

definition MAX_ORD :: nat where [const_defs]: "MAX_ORD = 12"
definition MIN_ORD :: nat where [const_defs]: "MIN_ORD = 6"
definition N_ORD :: nat where [const_defs]: "N_ORD = MAX_ORD - MIN_ORD + 1"
definition PGSIZE_ORDER :: int where [const_defs]: "PGSIZE_ORDER = 12"
definition NIL :: u32 where [const_defs]: "NIL = 0xFFFF"

definition ALIGN_UP :: "u32 \<Rightarrow> u32 \<Rightarrow> u32" where
  "ALIGN_UP sz al = (sz + al - 1) AND NOT (al - 1)"

definition PRE_LNK :: "u32 \<Rightarrow> u32" where "PRE_LNK l = drop_bit 16 l"
definition NEXT_LNK :: "u32 \<Rightarrow> u32" where "NEXT_LNK l = l AND 0xFFFF"
definition LNKS :: "u32 \<Rightarrow> u32 \<Rightarrow> u32" where "LNKS pre next = push_bit 16 pre OR (next AND 0xFFFF)"

definition nl :: string where "nl = [CHR 0x0A]"

section \<open>Operations\<close>

definition mark_no :: "buddy_t \<Rightarrow> nat \<Rightarrow> u32 \<Rightarrow> nat" where
  "mark_no b order idx = unat (o_offset (b_orders b ! (order - MIN_ORD)) + idx)"

definition get_mark :: "nat \<Rightarrow> u32 \<Rightarrow> ('x kmem_scheme, mark_t) kop" where
  "get_mark order idx = kget (\<lambda>s. b_marks (buddy s) (mark_no (buddy s) order idx))"

definition upd_mark :: "nat \<Rightarrow> u32 \<Rightarrow> (mark_t \<Rightarrow> mark_t) \<Rightarrow> ('x kmem_scheme, unit) kop" where
  "upd_mark order idx f = kmod (\<lambda>s. let b = buddy s; n = mark_no b order idx in
     s\<lparr>buddy := b\<lparr>b_marks := (b_marks b)(n := f (b_marks b n))\<rparr>\<rparr>)"

definition ord_head :: "nat \<Rightarrow> ('x kmem_scheme, u32) kop" where
  "ord_head order = kget (\<lambda>s. o_head (b_orders (buddy s) ! (order - MIN_ORD)))"

definition set_ord_head :: "nat \<Rightarrow> u32 \<Rightarrow> ('x kmem_scheme, unit) kop" where
  "set_ord_head order h = kmod (\<lambda>s. let b = buddy s; i = order - MIN_ORD in
     s\<lparr>buddy := b\<lparr>b_orders := (b_orders b)[i := (b_orders b ! i)\<lparr>o_head := h\<rparr>]\<rparr>\<rparr>)"

definition blkid2mem :: "buddy_t \<Rightarrow> nat \<Rightarrow> int \<Rightarrow> u32" where
  "blkid2mem b order blkid = b_start_heap b + word_of_int (2 ^ order * blkid)"

definition mem2blkid :: "buddy_t \<Rightarrow> nat \<Rightarrow> u32 \<Rightarrow> int" where
  "mem2blkid b order m = uint (drop_bit order (m - b_start_heap b))"

definition available :: "u32 \<Rightarrow> int \<Rightarrow> bool" where
  "available bm blk_id \<longleftrightarrow> bm AND push_bit (nat (blk_id AND 0x1F)) 1 \<noteq> 0"

definition roundup_powerof2 :: "u32 \<Rightarrow> u32" where
  "roundup_powerof2 v =
     (let v = v - 1; v = v OR drop_bit 1 v; v = v OR drop_bit 2 v; v = v OR drop_bit 4 v;
          v = v OR drop_bit 8 v; v = v OR drop_bit 16 v in v + 1)"

definition unmark_blk :: "nat \<Rightarrow> int \<Rightarrow> ('x kmem_scheme, unit) kop" where
  "unmark_blk order blk_id =
     (let i = word_of_int (drop_bit 5 blk_id) in
     kdo (get_mark order i) (\<lambda>mk.
     if \<not> available (bitmap mk) blk_id then kpanic (''double alloc'' @ nl)
     else
     (let bm = bitmap mk AND NOT (push_bit (nat (blk_id AND 0x1F)) 1) in
     kdo (upd_mark order i (\<lambda>m. m\<lparr>bitmap := bm\<rparr>)) (\<lambda>_.
     kwhen (bm = 0)
       (let prev = PRE_LNK (lnks mk); next = NEXT_LNK (lnks mk) in
        kdo (if prev \<noteq> NIL then upd_mark order prev (\<lambda>p. p\<lparr>lnks := LNKS (PRE_LNK (lnks p)) next\<rparr>)
             else kdo (ord_head order) (\<lambda>h. kwhen (h = i) (set_ord_head order next))) (\<lambda>_.
        kdo (kwhen (next \<noteq> NIL)
              (upd_mark order next (\<lambda>p. p\<lparr>lnks := LNKS prev (NEXT_LNK (lnks p))\<rparr>))) (\<lambda>_.
        upd_mark order i (\<lambda>m. m\<lparr>lnks := LNKS NIL NIL\<rparr>))))))))"

definition mark_blk :: "nat \<Rightarrow> int \<Rightarrow> ('x kmem_scheme, unit) kop" where
  "mark_blk order blk_id =
     (let i = word_of_int (drop_bit 5 blk_id) in
     kdo (get_mark order i) (\<lambda>mk.
     if available (bitmap mk) blk_id then kpanic (''double free'' @ nl)
     else
     kdo (upd_mark order i (\<lambda>m. m\<lparr>bitmap := bitmap m OR push_bit (nat (blk_id AND 0x1F)) 1\<rparr>)) (\<lambda>_.
     kwhen (bitmap mk = 0)
       (kdo (ord_head order) (\<lambda>h.
        kdo (upd_mark order i (\<lambda>m. m\<lparr>lnks := LNKS NIL h\<rparr>)) (\<lambda>_.
        kdo (kwhen (h \<noteq> NIL)
              (upd_mark order h (\<lambda>p. p\<lparr>lnks := LNKS i (NEXT_LNK (lnks p))\<rparr>))) (\<lambda>_.
        set_ord_head order i)))))))"

definition get_blk :: "nat \<Rightarrow> ('x kmem_scheme, u32) kop" where
  "get_blk order =
     kdo (ord_head order) (\<lambda>h.
     kdo (get_mark order h) (\<lambda>mk.
     if bitmap mk = 0 then kpanic (''empty mark in the list'' @ nl)
     else case List.find (\<lambda>i. bitmap mk AND push_bit i 1 \<noteq> 0) [0..<32] of
       None \<Rightarrow> kret 0
     | Some i \<Rightarrow>
       (let blk_id = uint (h * 32 + of_nat i) in
        kdo (unmark_blk order blk_id) (\<lambda>_.
        kget (\<lambda>s. blkid2mem (buddy s) order blk_id)))))"

text \<open>One level of \<^verbatim>\<open>__internal_kfree\<close>; \<open>up\<close> is the recursive call, absent at \<^verbatim>\<open>MAX_ORD\<close>.\<close>

definition kfree_level :: "nat \<Rightarrow> (u32 \<Rightarrow> ('x kmem_scheme, unit) kop) option \<Rightarrow> u32 \<Rightarrow> ('x kmem_scheme, unit) kop" where
  "kfree_level order up m =
     kdo (kget (\<lambda>s. mem2blkid (buddy s) order m)) (\<lambda>blk_id.
     kdo (get_mark order (word_of_int (drop_bit 5 blk_id))) (\<lambda>mk.
     if available (bitmap mk) blk_id then kpanic ''kmfree: double free''
     else
     (let buddy_id = blk_id XOR 1 in
     case up of
       None \<Rightarrow> mark_blk order blk_id
     | Some f \<Rightarrow>
       if \<not> available (bitmap mk) buddy_id then mark_blk order blk_id
       else
       kdo (unmark_blk order buddy_id) (\<lambda>_.
       kdo (kget (\<lambda>s. blkid2mem (buddy s) order (blk_id AND NOT 1))) f))))"

primrec internal_kfree :: "nat \<Rightarrow> u32 \<Rightarrow> ('x kmem_scheme, unit) kop" where
  "internal_kfree 0 = kfree_level MAX_ORD None"
| "internal_kfree (Suc d) = kfree_level (MAX_ORD - Suc d) (Some (internal_kfree d))"

primrec internal_kmalloc :: "nat \<Rightarrow> ('x kmem_scheme, u32) kop" where
  "internal_kmalloc 0 =
     kdo (kget (\<lambda>s. b_initialized (buddy s))) (\<lambda>ini.
     if \<not> ini then kpanic ''__internal_kmalloc:buddy-malloc before buddy init.''
     else kdo (ord_head MAX_ORD) (\<lambda>h. if h \<noteq> NIL then get_blk MAX_ORD else kret 0))"
| "internal_kmalloc (Suc d) =
     (let order = MAX_ORD - Suc d in
     kdo (kget (\<lambda>s. b_initialized (buddy s))) (\<lambda>ini.
     if \<not> ini then kpanic ''__internal_kmalloc:buddy-malloc before buddy init.''
     else
     kdo (ord_head order) (\<lambda>h.
     if h \<noteq> NIL then get_blk order
     else
     kdo (internal_kmalloc d) (\<lambda>up.
     kdo (kwhen (up \<noteq> 0) (internal_kfree (Suc d) (up + 2 ^ order))) (\<lambda>_.
     kret up)))))"

definition buddy_kmalloc :: "int \<Rightarrow> ('x kmem_scheme, u32) kop" where
  "buddy_kmalloc order =
     (if order > int MAX_ORD \<or> order < int MIN_ORD then kpanic (''kmalloc: order out of range'' @ nl)
      else
      kdo (acquire_lk L_buddy) (\<lambda>_.
      kdo (internal_kmalloc (MAX_ORD - nat order)) (\<lambda>up.
      kdo (release_lk L_buddy) (\<lambda>_.
      kret up))))"

definition buddy_kmfree :: "u32 \<Rightarrow> int \<Rightarrow> ('x kmem_scheme, unit) kop" where
  "buddy_kmfree m order =
     (if order > int MAX_ORD \<or> order < int MIN_ORD \<or> m AND (push_bit (nat order) 1 - 1) \<noteq> 0
      then kpanic (''kmfree: order out of range or memory unaligned'' @ nl)
      else
      kdo (acquire_lk L_buddy) (\<lambda>_.
      kdo (internal_kfree (MAX_ORD - nat order) m) (\<lambda>_.
      release_lk L_buddy)))"

definition buddy_free_page :: "u32 \<Rightarrow> ('x kmem_scheme, unit) kop" where
  "buddy_free_page v = buddy_kmfree v PGSIZE_ORDER"

definition buddy_alloc_page :: "('x kmem_scheme, u32) kop" where
  "buddy_alloc_page = buddy_kmalloc PGSIZE_ORDER"

text \<open>
  \<^verbatim>\<open>buddy_init\<close>: the loop over the orders, from the largest to the smallest, with the marks of one
  order reset by the inner loop; then the loop that frees every block of the heap. Its counter
  advances by \<open>2 ^ MAX_ORD\<close>, so after \<open>2 ^ 20\<close> steps it repeats.
\<close>

definition init_marks :: "nat \<Rightarrow> u32 \<Rightarrow> ('x kmem_scheme, unit) kop" where
  "init_marks order n = kfor (\<lambda>j.
     upd_mark order (of_nat j) (\<lambda>m. m\<lparr>lnks := LNKS NIL NIL, bitmap := 0\<rparr>)) [0..<unat n]"

primrec init_orders :: "nat \<Rightarrow> u32 \<Rightarrow> u32 \<Rightarrow> ('x kmem_scheme, u32) kop" where
  "init_orders 0 tot n = kret tot"
| "init_orders (Suc i) tot n =
     kdo (kmod (\<lambda>s. s\<lparr>buddy := (buddy s)\<lparr>b_orders := (b_orders (buddy s))[i := \<lparr>o_head = NIL, o_offset = tot\<rparr>]\<rparr>\<rparr>)) (\<lambda>_.
     kdo (init_marks (i + MIN_ORD) n) (\<lambda>_.
     init_orders i (tot + n) (push_bit 1 n)))"

primrec free_blocks :: "nat \<Rightarrow> u32 \<Rightarrow> ('x kmem_scheme, unit) kop" where
  "free_blocks 0 i = kfail Diverge"
| "free_blocks (Suc fuel) i =
     kdo (kget (\<lambda>s. b_end (buddy s))) (\<lambda>e.
     if i < e then
       kdo (buddy_kmfree i (int MAX_ORD)) (\<lambda>_.
       free_blocks fuel (i + push_bit MAX_ORD 1))
     else kret ())"

definition buddy_init :: "u32 \<Rightarrow> u32 \<Rightarrow> ('x kmem_scheme, unit) kop" where
  "buddy_init vstart vend =
     kdo (kmod (\<lambda>s. s\<lparr>buddy := (buddy s)\<lparr>b_start := vstart, b_end := vend\<rparr>\<rparr>)) (\<lambda>_.
     (let len = vend - vstart; n = drop_bit (MAX_ORD + 5) len + 1 in
     kdo (init_orders N_ORD 0 n) (\<lambda>tot.
     kdo (kmod (\<lambda>s. s\<lparr>buddy := (buddy s)\<lparr>b_start_heap := ALIGN_UP (vstart + tot * 8) (push_bit MAX_ORD 1)\<rparr>\<rparr>)) (\<lambda>_.
     kdo (kget (\<lambda>s. b_start_heap (buddy s))) (\<lambda>h.
     kdo (free_blocks (2 ^ 20 + 1) h) (\<lambda>_.
     kmod (\<lambda>s. s\<lparr>buddy := (buddy s)\<lparr>b_initialized := True\<rparr>\<rparr>)))))))"

definition buddy_get_order :: "u32 \<Rightarrow> ('x kmem_scheme, int) kop" where
  "buddy_get_order v =
     (let v = roundup_powerof2 v;
          ord = (case List.find (\<lambda>i. v AND push_bit i 1 \<noteq> 0) [0..<32] of Some i \<Rightarrow> i | None \<Rightarrow> 32) in
      if ord < MIN_ORD then kret (int MIN_ORD)
      else if ord > MAX_ORD then kpanic ''buddy_get_order: order too big!''
      else kret (int ord))"

definition buddy_kmfree2 :: "u32 \<Rightarrow> ('x kmem_scheme, unit) kop" where
  "buddy_kmfree2 v =
     kdo (kget (\<lambda>s. sint (load32 (mem s) (v - 4)))) (\<lambda>order.
     buddy_kmfree (v - 4) order)"

section \<open>Links and bits\<close>

lemma and_FFFF: "w AND 0xFFFF = take_bit 16 w" for w :: u32
  by (simp add: take_bit_eq_mask mask_eq_exp_minus_1)

lemma take_bit_16_id: "unat w < 65536 \<Longrightarrow> take_bit 16 w = w" for w :: u32
  by (simp only: word_unat_eq_iff unsigned_take_bit_eq) (simp add: take_bit_nat_eq_self)

lemma PRE_LNKS [simp]: "unat p < 65536 \<Longrightarrow> PRE_LNK (LNKS p n) = p"
proof -
  assume "unat p < 65536"
  then have p: "bit p k \<Longrightarrow> k < 16" for k
    using take_bit_16_id [of p] by (metis bit_take_bit_iff)
  show ?thesis unfolding PRE_LNK_def LNKS_def and_FFFF
    by (rule bit_word_eqI) (auto simp: bit_simps dest: p)
qed

lemma NEXT_LNKS [simp]: "unat n < 65536 \<Longrightarrow> NEXT_LNK (LNKS p n) = n"
proof -
  assume "unat n < 65536"
  then have n: "take_bit 16 n = n" by (rule take_bit_16_id)
  then have b: "bit n k \<Longrightarrow> k < 16" for k by (metis bit_take_bit_iff)
  show ?thesis unfolding NEXT_LNK_def LNKS_def and_FFFF n
    by (rule bit_word_eqI) (auto simp: bit_simps dest: b)
qed

lemma unat_NIL [simp]: "unat NIL = 65535"
  by (simp add: NIL_def)

lemma and_31: "int b AND 0x1F = int (b mod 32)"
proof -
  have "int b AND 0x1F = take_bit 5 (int b)" by (simp add: take_bit_eq_mask mask_eq_exp_minus_1)
  then show ?thesis by (simp add: take_bit_eq_mod of_nat_mod)
qed

lemma available_bit [simp]: "available bm (int b) \<longleftrightarrow> bit bm (b mod 32)"
  by (simp add: available_def and_31 bit_iff_and_push_bit_not_eq_0)

section \<open>Where the marks are\<close>

text \<open>
  \<open>nmax b\<close> is the number of marks \<^verbatim>\<open>buddy_init\<close> reserves for the largest order, \<open>nmark b k\<close> the number
  for order \<open>k\<close>. The marks of an order follow those of all larger orders.
\<close>

definition nmax :: "buddy_t \<Rightarrow> nat" where
  "nmax b = unat (drop_bit 17 (b_end b - b_start b)) + 1"

definition nmark :: "buddy_t \<Rightarrow> nat \<Rightarrow> nat" where
  "nmark b k = nmax b * 2 ^ (12 - k)"

definition mark_base :: "buddy_t \<Rightarrow> nat \<Rightarrow> nat" where
  "mark_base b k = nmax b * (2 ^ (12 - k) - 1)"

definition geom :: "buddy_t \<Rightarrow> bool" where
  "geom b \<longleftrightarrow> length (b_orders b) = 7 \<and>
     (\<forall>k. 6 \<le> k \<and> k \<le> 12 \<longrightarrow> unat (o_offset (b_orders b ! (k - 6))) = mark_base b k)"

definition same_geom :: "buddy_t \<Rightarrow> buddy_t \<Rightarrow> bool" where
  "same_geom b b' \<longleftrightarrow> b_start b' = b_start b \<and> b_start_heap b' = b_start_heap b \<and> b_end b' = b_end b \<and>
     b_initialized b' = b_initialized b \<and> map o_offset (b_orders b') = map o_offset (b_orders b)"

definition markat :: "buddy_t \<Rightarrow> nat \<Rightarrow> nat \<Rightarrow> mark_t" where
  "markat b k i = b_marks b (mark_base b k + i)"

definition headat :: "buddy_t \<Rightarrow> nat \<Rightarrow> u32" where
  "headat b k = o_head (b_orders b ! (k - 6))"

definition mset_at :: "nat \<Rightarrow> nat \<Rightarrow> (mark_t \<Rightarrow> mark_t) \<Rightarrow> buddy_t \<Rightarrow> buddy_t" where
  "mset_at k i f b = b\<lparr>b_marks := (b_marks b)(mark_base b k + i := f (markat b k i))\<rparr>"

definition hset_at :: "nat \<Rightarrow> u32 \<Rightarrow> buddy_t \<Rightarrow> buddy_t" where
  "hset_at k h b = b\<lparr>b_orders := (b_orders b)[k - 6 := (b_orders b ! (k - 6))\<lparr>o_head := h\<rparr>]\<rparr>"

lemma same_geom_refl [simp]: "same_geom b b"
  by (simp add: same_geom_def)

lemma same_geom_trans: "same_geom b b' \<Longrightarrow> same_geom b' b'' \<Longrightarrow> same_geom b b''"
  by (simp add: same_geom_def)

lemma same_geom_eq:
  assumes "same_geom b b'"
  shows "nmax b' = nmax b" "nmark b' k = nmark b k" "mark_base b' k = mark_base b k"
    "geom b' \<longleftrightarrow> geom b" "b_start_heap b' = b_start_heap b" "b_end b' = b_end b" "b_initialized b' = b_initialized b"
proof -
  show n: "nmax b' = nmax b" using assms by (simp add: same_geom_def nmax_def)
  show "nmark b' k = nmark b k" and m: "mark_base b' k = mark_base b k" for k
    using n by (simp_all add: nmark_def mark_base_def)
  show "b_start_heap b' = b_start_heap b" "b_end b' = b_end b" "b_initialized b' = b_initialized b"
    using assms by (simp_all add: same_geom_def)
  have l: "length (b_orders b') = length (b_orders b)"
    using assms unfolding same_geom_def by (metis length_map)
  have "o_offset (b_orders b' ! i) = o_offset (b_orders b ! i)" if "i < length (b_orders b)" for i
    using assms l that unfolding same_geom_def by (metis nth_map)
  then show "geom b' \<longleftrightarrow> geom b" unfolding geom_def using l m by fastforce
qed

lemma mset_at_sel [simp]:
  "b_start (mset_at k i f b) = b_start b" "b_start_heap (mset_at k i f b) = b_start_heap b"
  "b_end (mset_at k i f b) = b_end b" "b_initialized (mset_at k i f b) = b_initialized b"
  "b_orders (mset_at k i f b) = b_orders b" "headat (mset_at k i f b) = headat b"
  "nmax (mset_at k i f b) = nmax b" "nmark (mset_at k i f b) = nmark b" "mark_base (mset_at k i f b) = mark_base b"
  "geom (mset_at k i f b) = geom b" "same_geom b (mset_at k i f b)"
  by (simp_all add: mset_at_def headat_def nmax_def nmark_def mark_base_def geom_def same_geom_def fun_eq_iff)

lemma hset_at_sel [simp]:
  "b_start (hset_at k h b) = b_start b" "b_start_heap (hset_at k h b) = b_start_heap b"
  "b_end (hset_at k h b) = b_end b" "b_initialized (hset_at k h b) = b_initialized b"
  "b_marks (hset_at k h b) = b_marks b" "markat (hset_at k h b) = markat b"
  "nmax (hset_at k h b) = nmax b" "nmark (hset_at k h b) = nmark b" "mark_base (hset_at k h b) = mark_base b"
  by (simp_all add: hset_at_def markat_def nmax_def nmark_def mark_base_def fun_eq_iff)

lemma map_offset_upd: "map o_offset (xs[i := (xs ! i)\<lparr>o_head := h\<rparr>]) = map o_offset xs"
  by (cases "i < length xs") (auto simp: list_eq_iff_nth_eq nth_list_upd)

lemma hset_at_geom [simp]: "same_geom b (hset_at k h b)" "geom (hset_at k h b) = geom b"
proof -
  show "same_geom b (hset_at k h b)"
    by (simp add: same_geom_def hset_at_def map_offset_upd)
  then show "geom (hset_at k h b) = geom b" by (rule same_geom_eq)
qed

lemma headat_hset:
  "geom b \<Longrightarrow> 6 \<le> k \<Longrightarrow> k \<le> 12 \<Longrightarrow> 6 \<le> k' \<Longrightarrow> k' \<le> 12 \<Longrightarrow> headat (hset_at k h b) k' = (if k' = k then h else headat b k')"
proof -
  assume a: "geom b" "6 \<le> k" "k \<le> 12" "6 \<le> k'" "k' \<le> 12"
  then have "length (b_orders b) = 7" "k' - 6 < 7" "k - 6 = k' - 6 \<longleftrightarrow> k' = k" by (auto simp: geom_def)
  then show ?thesis by (simp add: headat_def hset_at_def nth_list_upd)
qed

lemma nmax_bound: "nmax b \<le> 32768"
proof -
  have "unat (drop_bit 17 w) < 32768" for w :: u32
    using unsigned_less [of w, where ?'a = nat] by (simp add: unat_drop_bit_eq drop_bit_nat_def less_mult_imp_div_less)
  then show ?thesis by (simp add: nmax_def Suc_le_eq)
qed

lemma mark_base_mono: "k < k' \<Longrightarrow> k' \<le> 12 \<Longrightarrow> mark_base b k' + nmark b k' \<le> mark_base b k"
proof -
  assume k: "k < k'" "k' \<le> 12"
  then have "12 - k' < 12 - k" by simp
  then have "(2::nat) ^ Suc (12 - k') \<le> 2 ^ (12 - k)" by (intro power_increasing) auto
  then have "(2::nat) ^ (12 - k') - 1 + 2 ^ (12 - k') \<le> 2 ^ (12 - k) - 1" by simp
  then show ?thesis unfolding mark_base_def nmark_def
    by (metis distrib_left mult_le_mono2)
qed

lemma mark_base_inj:
  assumes "mark_base b k + i = mark_base b k' + i'" "i < nmark b k" "i' < nmark b k'" "k \<le> 12" "k' \<le> 12"
  shows "k' = k \<and> i' = i"
  using assms mark_base_mono [of k k' b] mark_base_mono [of k' k b]
  by (cases k k' rule: linorder_cases) auto

lemma mark_bound: "6 \<le> k \<Longrightarrow> k \<le> 12 \<Longrightarrow> i < nmark b k \<Longrightarrow> mark_base b k + i < 4194304 \<and> i < 2097152"
proof -
  assume k: "6 \<le> k" "k \<le> 12" and i: "i < nmark b k"
  have "(2::nat) ^ (12 - k) \<le> 2 ^ 6" using k by (intro power_increasing) auto
  then have p: "(2::nat) ^ (12 - k) \<le> 64" "(2::nat) ^ (12 - k) - 1 \<le> 63" by simp_all
  have "nmark b k \<le> 32768 * 64" "mark_base b k \<le> 32768 * 63"
    unfolding nmark_def mark_base_def by (rule mult_le_mono [OF nmax_bound p(1)], rule mult_le_mono [OF nmax_bound p(2)])
  then show ?thesis using i by simp
qed

lemma mark_no_eq:
  assumes "geom b" "6 \<le> k" "k \<le> 12" "i < nmark b k"
  shows "mark_no b k (of_nat i) = mark_base b k + i"
proof -
  have o: "unat (o_offset (b_orders b ! (k - 6))) = mark_base b k" using assms by (simp add: geom_def)
  have "mark_base b k + i < 4294967296" "i < 4294967296" using mark_bound [OF assms(2-4)] by auto
  then show ?thesis using o by (simp add: mark_no_def MIN_ORD_def unat_add_small)
qed

lemma markat_mset:
  assumes "6 \<le> k" "k \<le> 12" "i < nmark b k" "k' \<le> 12" "i' < nmark b k'"
  shows "markat (mset_at k i f b) k' i' = (if k' = k \<and> i' = i then f (markat b k i) else markat b k' i')"
proof -
  have "mark_base b k' + i' = mark_base b k + i \<longleftrightarrow> k' = k \<and> i' = i"
    using mark_base_inj [of b k i k' i'] assms by auto
  moreover have "markat (mset_at k i f b) k' i' = b_marks (mset_at k i f b) (mark_base b k' + i')"
    by (simp add: markat_def)
  ultimately show ?thesis by (simp add: mset_at_def) (simp add: markat_def)
qed

lemma runs_get_mark:
  assumes "geom (buddy s)" "6 \<le> k" "k \<le> 12" "i < nmark (buddy s) k"
  shows "runs (get_mark k (of_nat i)) s Q \<longleftrightarrow> Q (markat (buddy s) k i) s"
  using assms by (simp add: get_mark_def mark_no_eq markat_def)

lemma runs_upd_mark:
  assumes "geom (buddy s)" "6 \<le> k" "k \<le> 12" "i < nmark (buddy s) k"
  shows "runs (upd_mark k (of_nat i) f) s Q \<longleftrightarrow> Q () (s\<lparr>buddy := mset_at k i f (buddy s)\<rparr>)"
  using assms by (simp add: upd_mark_def mark_no_eq markat_def mset_at_def Let_def)

lemma runs_ord_head: "runs (ord_head k) s Q \<longleftrightarrow> Q (headat (buddy s) k) s"
  by (simp add: ord_head_def headat_def MIN_ORD_def)

lemma runs_set_ord_head: "runs (set_ord_head k h) s Q \<longleftrightarrow> Q () (s\<lparr>buddy := hset_at k h (buddy s)\<rparr>)"
  by (simp add: set_ord_head_def hset_at_def MIN_ORD_def Let_def)

section \<open>Doubly linked lists of marks\<close>

definition first_of :: "nat list \<Rightarrow> u32 \<Rightarrow> u32" where
  "first_of xs n = (case xs of [] \<Rightarrow> n | x # _ \<Rightarrow> of_nat x)"

definition last_of :: "u32 \<Rightarrow> nat list \<Rightarrow> u32" where
  "last_of p xs = (if xs = [] then p else of_nat (last xs))"

fun dseg :: "(nat \<Rightarrow> u32) \<Rightarrow> u32 \<Rightarrow> nat list \<Rightarrow> u32 \<Rightarrow> bool" where
  "dseg L p [] n \<longleftrightarrow> True"
| "dseg L p (x # xs) n \<longleftrightarrow> L x = LNKS p (first_of xs n) \<and> dseg L (of_nat x) xs n"

lemma first_of_simps [simp]: "first_of [] n = n" "first_of (x # xs) n = of_nat x"
  by (simp_all add: first_of_def)

lemma last_of_simps [simp]: "last_of p [] = p" "last_of p (xs @ [x]) = of_nat x"
  by (simp_all add: last_of_def)

lemma first_of_append: "first_of (xs @ ys) n = first_of xs (first_of ys n)"
  by (cases xs) simp_all

lemma last_of_Cons: "last_of p (x # xs) = last_of (of_nat x) xs"
  by (simp add: last_of_def)

lemma dseg_append: "dseg L p (xs @ ys) n \<longleftrightarrow> dseg L p xs (first_of ys n) \<and> dseg L (last_of p xs) ys n"
  by (induction xs arbitrary: p) (auto simp: first_of_append last_of_Cons)

lemma dseg_cong: "(\<And>x. x \<in> set xs \<Longrightarrow> L x = L' x) \<Longrightarrow> dseg L p xs n = dseg L' p xs n"
  by (induction xs arbitrary: p) auto

lemma of_nat_link [simp]: "i < 65535 \<Longrightarrow> unat (of_nat i :: u32) = i" "i < 65535 \<Longrightarrow> (of_nat i :: u32) \<noteq> NIL"
proof -
  show "i < 65535 \<Longrightarrow> unat (of_nat i :: u32) = i" by (rule unat_of_nat32) simp
  then show "i < 65535 \<Longrightarrow> (of_nat i :: u32) \<noteq> NIL" by (metis less_irrefl unat_NIL)
qed

definition links :: "nat list \<Rightarrow> bool" where
  "links xs \<longleftrightarrow> distinct xs \<and> (\<forall>x \<in> set xs. x < 65535)"

lemma links_append [simp]: "links (xs @ ys) \<longleftrightarrow> links xs \<and> links ys \<and> set xs \<inter> set ys = {}"
  by (auto simp: links_def)

lemma links_Cons [simp]: "links (x # xs) \<longleftrightarrow> x < 65535 \<and> x \<notin> set xs \<and> links xs"
  by (auto simp: links_def)

lemma links_Nil [simp]: "links []"
  by (simp add: links_def)

lemma unat_first_of: "links xs \<Longrightarrow> unat (first_of xs NIL) < 65536"
  by (cases xs) auto

lemma unat_last_of: "links xs \<Longrightarrow> unat (last_of NIL xs) < 65536"
  by (cases xs rule: rev_cases) auto

lemma dseg_relink_last:
  assumes "dseg L NIL (ys @ [y]) n" "links (ys @ [y])" "\<And>i. i \<in> set ys \<Longrightarrow> L' i = L i" "L' y = LNKS (PRE_LNK (L y)) n'"
  shows "dseg L' NIL (ys @ [y]) n'"
proof -
  have "L y = LNKS (last_of NIL ys) n" "dseg L NIL ys (of_nat y)" using assms(1) by (simp_all add: dseg_append)
  moreover have "dseg L' NIL ys (of_nat y) = dseg L NIL ys (of_nat y)" using assms(3) by (intro dseg_cong) auto
  ultimately show ?thesis using assms(2,4) unat_last_of [of ys] by (simp add: dseg_append)
qed

lemma dseg_relink_first:
  assumes "dseg L p (z # zs) NIL" "links (z # zs)" "\<And>i. i \<in> set zs \<Longrightarrow> L' i = L i" "L' z = LNKS p' (NEXT_LNK (L z))"
  shows "dseg L' p' (z # zs) NIL"
proof -
  have "L z = LNKS p (first_of zs NIL)" "dseg L (of_nat z) zs NIL" using assms(1) by simp_all
  moreover have "dseg L' (of_nat z) zs NIL = dseg L (of_nat z) zs NIL" using assms(3) by (intro dseg_cong) auto
  ultimately show ?thesis using assms(2,4) unat_first_of [of zs] by simp
qed

lemma dseg_mid:
  assumes "dseg L NIL (ys @ x # zs) NIL" "links (ys @ x # zs)"
  shows "PRE_LNK (L x) = last_of NIL ys" "NEXT_LNK (L x) = first_of zs NIL"
proof -
  have "L x = LNKS (last_of NIL ys) (first_of zs NIL)" "links ys" "links zs" using assms by (simp_all add: dseg_append)
  then show "PRE_LNK (L x) = last_of NIL ys" "NEXT_LNK (L x) = first_of zs NIL"
    using unat_last_of [of ys] unat_first_of [of zs] by simp_all
qed

lemma dseg_delete:
  assumes "dseg L NIL (ys @ x # zs) NIL" "links (ys @ x # zs)"
    and L': "L' = (if ys = [] then L else L(last ys := LNKS (PRE_LNK (L (last ys))) (first_of zs NIL)))"
    and L'': "L'' = (if zs = [] then L' else L'(hd zs := LNKS (last_of NIL ys) (NEXT_LNK (L' (hd zs)))))"
  shows "dseg (L''(x := v)) NIL (ys @ zs) NIL"
proof -
  have d: "dseg L NIL ys (of_nat x)" "L x = LNKS (last_of NIL ys) (first_of zs NIL)" "dseg L (of_nat x) zs NIL"
    using assms(1) by (simp_all add: dseg_append)
  have l: "links ys" "links zs" "x \<notin> set ys" "x \<notin> set zs" "set ys \<inter> set zs = {}"
    using assms(2) by auto
  have "dseg (L''(x := v)) NIL ys (first_of zs NIL)"
  proof (cases ys rule: rev_cases)
    case (snoc ys' y)
    have "dseg (L''(x := v)) NIL (ys' @ [y]) (first_of zs NIL)"
    proof (rule dseg_relink_last)
      show "dseg L NIL (ys' @ [y]) (of_nat x)" using d(1) snoc by simp
      show "links (ys' @ [y])" using l(1) snoc by simp
      show "(L''(x := v)) i = L i" if "i \<in> set ys'" for i
        using that l snoc by (cases zs) (auto simp: L' L'')
      show "(L''(x := v)) y = LNKS (PRE_LNK (L y)) (first_of zs NIL)"
        using l snoc by (cases zs) (auto simp: L' L'')
    qed
    then show ?thesis using snoc by simp
  qed simp
  moreover have "dseg (L''(x := v)) (last_of NIL ys) zs NIL"
  proof (cases zs)
    case (Cons z zs')
    have "dseg (L''(x := v)) (last_of NIL ys) (z # zs') NIL"
    proof (rule dseg_relink_first)
      show "dseg L (of_nat x) (z # zs') NIL" using d(3) Cons by simp
      show "links (z # zs')" using l(2) Cons by simp
      have ly: "last ys \<noteq> i" if "i \<in> set zs" "ys \<noteq> []" for i
        using l(5) that last_in_set [of ys] by blast
      show "(L''(x := v)) i = L i" if "i \<in> set zs'" for i
        using that l Cons ly [of i] by (auto simp: L' L'')
      show "(L''(x := v)) z = LNKS (last_of NIL ys) (NEXT_LNK (L z))"
        using l Cons ly [of z] by (auto simp: L' L'')
    qed
    then show ?thesis using Cons by simp
  qed simp
  ultimately show "dseg (L''(x := v)) NIL (ys @ zs) NIL" by (simp add: dseg_append)
qed

lemma dseg_insert:
  assumes "dseg L NIL xs NIL" "links (x # xs)"
    and L': "L' = L(x := LNKS NIL (first_of xs NIL))"
    and L'': "L'' = (if xs = [] then L' else L'(hd xs := LNKS (of_nat x) (NEXT_LNK (L' (hd xs)))))"
  shows "dseg L'' NIL (x # xs) NIL"
proof (cases xs)
  case Nil
  then show ?thesis by (simp add: L' L'')
next
  case (Cons y ys)
  have "dseg L'' (of_nat x) (y # ys) NIL"
  proof (rule dseg_relink_first)
    show "dseg L NIL (y # ys) NIL" "links (y # ys)" using assms(1,2) Cons by simp_all
    show "L'' i = L i" if "i \<in> set ys" for i using that assms(2) Cons by (auto simp: L' L'')
    show "L'' y = LNKS (of_nat x) (NEXT_LNK (L y))" using assms(2) Cons by (auto simp: L' L'')
  qed
  moreover have "L'' x = LNKS NIL (of_nat y)" using assms(2) Cons by (simp add: L' L'')
  ultimately show ?thesis using Cons by simp
qed

section \<open>The lists of an order and its free blocks\<close>

definition olist :: "buddy_t \<Rightarrow> nat \<Rightarrow> nat list \<Rightarrow> bool" where
  "olist b k xs \<longleftrightarrow> headat b k = first_of xs NIL \<and> dseg (\<lambda>i. lnks (markat b k i)) NIL xs NIL \<and> distinct xs \<and>
     set xs = {i. i < nmark b k \<and> bitmap (markat b k i) \<noteq> 0}"

definition lists_ok :: "nat \<Rightarrow> buddy_t \<Rightarrow> bool" where
  "lists_ok lo b \<longleftrightarrow> geom b \<and> 6 \<le> lo \<and> (\<forall>k. lo \<le> k \<and> k \<le> 12 \<longrightarrow> nmark b k \<le> 65535 \<and> (\<exists>xs. olist b k xs))"

definition fblk :: "buddy_t \<Rightarrow> nat \<Rightarrow> nat set" where
  "fblk b k = {n. n div 32 < nmark b k \<and> bit (bitmap (markat b k (n div 32))) (n mod 32)}"

lemma olist_links: "olist b k xs \<Longrightarrow> nmark b k \<le> 65535 \<Longrightarrow> links xs"
  by (auto simp: olist_def links_def)

lemma lists_okD:
  assumes "lists_ok lo b" "lo \<le> k" "k \<le> 12"
  obtains xs where "olist b k xs" "links xs" "nmark b k \<le> 65535" "geom b" "6 \<le> k"
  using assms olist_links by (auto simp: lists_ok_def)

text \<open>An update that leaves the other orders alone keeps their lists.\<close>

lemma olist_cong:
  assumes "headat b' k = headat b k" "nmark b' k = nmark b k" "\<And>i. i < nmark b k \<Longrightarrow> markat b' k i = markat b k i"
  shows "olist b' k xs \<longleftrightarrow> olist b k xs"
proof -
  have s: "{i. i < nmark b k \<and> bitmap (markat b' k i) \<noteq> 0} = {i. i < nmark b k \<and> bitmap (markat b k i) \<noteq> 0}"
    using assms(3) by auto
  have "dseg (\<lambda>i. lnks (markat b' k i)) NIL xs NIL = dseg (\<lambda>i. lnks (markat b k i)) NIL xs NIL"
    if "set xs = {i. i < nmark b k \<and> bitmap (markat b k i) \<noteq> 0}"
    using that assms(3) by (intro dseg_cong) auto
  then show ?thesis unfolding olist_def assms(1,2) s by auto
qed

lemma lists_ok_upd:
  assumes "lists_ok lo b" "lo \<le> k" "k \<le> 12" "same_geom b b'" "olist b' k xs"
    and "\<And>k'. lo \<le> k' \<Longrightarrow> k' \<le> 12 \<Longrightarrow> k' \<noteq> k \<Longrightarrow> headat b' k' = headat b k'"
    and "\<And>k' i. lo \<le> k' \<Longrightarrow> k' \<le> 12 \<Longrightarrow> k' \<noteq> k \<Longrightarrow> i < nmark b k' \<Longrightarrow> markat b' k' i = markat b k' i"
  shows "lists_ok lo b'"
proof -
  note g = same_geom_eq [OF assms(4)]
  have "\<exists>xs. olist b' k' xs" if "lo \<le> k'" "k' \<le> 12" for k'
  proof (cases "k' = k")
    case False
    then have "olist b' k' xs \<longleftrightarrow> olist b k' xs" for xs
      using assms(6,7) [OF that] g by (intro olist_cong) auto
    then show ?thesis using assms(1) that by (auto simp: lists_ok_def)
  qed (use assms(5) in auto)
  then show ?thesis using assms(1) g by (simp add: lists_ok_def)
qed

lemma drop_bit_5 [simp]: "drop_bit 5 (int n) = int (n div 32)"
  by (simp add: drop_bit_eq_div zdiv_int)

lemma bit_unset: "bit (bm AND NOT (2 ^ j)) i \<longleftrightarrow> bit bm i \<and> i \<noteq> j" if "i < 32" for bm :: u32
  using that by (auto simp: bit_simps)

lemma bit_set: "bit (bm OR 2 ^ j) i \<longleftrightarrow> bit bm i \<or> i = j" if "i < 32" for bm :: u32
  using that by (auto simp: bit_simps)

lemma ex_bit: "bm \<noteq> 0 \<longleftrightarrow> (\<exists>i < 32. bit bm i)" for bm :: u32
proof -
  have "bm = 0" if "\<forall>i < 32. \<not> bit bm i" by (rule bit_word_eqI) (use that in simp)
  then show ?thesis by auto
qed

text \<open>\<open>b'\<close> has the bitmaps of \<open>b\<close> except that mark \<open>i\<close> of order \<open>k\<close> has \<open>bm\<close>.\<close>

definition bm_changed :: "buddy_t \<Rightarrow> nat \<Rightarrow> nat \<Rightarrow> u32 \<Rightarrow> buddy_t \<Rightarrow> bool" where
  "bm_changed b k i bm b' \<longleftrightarrow> nmark b' = nmark b \<and> (\<forall>k' i'. k' \<le> 12 \<and> i' < nmark b k' \<longrightarrow>
     bitmap (markat b' k' i') = (if k' = k \<and> i' = i then bm else bitmap (markat b k' i')))"

lemma fblk_changed:
  assumes "bm_changed b k i bm b'" "i < nmark b k" "k \<le> 12" "k' \<le> 12"
  shows "n \<in> fblk b' k' \<longleftrightarrow> (if k' = k \<and> n div 32 = i then bit bm (n mod 32) else n \<in> fblk b k')"
  using assms by (auto simp: fblk_def bm_changed_def)

lemma same_block: "m div 32 = n div 32 \<Longrightarrow> m mod 32 = n mod 32 \<longleftrightarrow> m = n" for m n :: nat
  by (metis div_mult_mod_eq)

lemma fblk_unset:
  assumes "bm_changed b k (n div 32) (bitmap (markat b k (n div 32)) AND NOT (2 ^ (n mod 32))) b'" "n div 32 < nmark b k" "k \<le> 12"
  shows "fblk b' k = fblk b k - {n}" "k' \<le> 12 \<Longrightarrow> k' \<noteq> k \<Longrightarrow> fblk b' k' = fblk b k'"
  using fblk_changed [OF assms] assms(2,3) by (auto simp: set_eq_iff bit_unset fblk_def same_block)

lemma fblk_set:
  assumes "bm_changed b k (n div 32) (bitmap (markat b k (n div 32)) OR 2 ^ (n mod 32)) b'" "n div 32 < nmark b k" "k \<le> 12"
  shows "fblk b' k = insert n (fblk b k)" "k' \<le> 12 \<Longrightarrow> k' \<noteq> k \<Longrightarrow> fblk b' k' = fblk b k'"
  using fblk_changed [OF assms] assms(2,3) by (auto simp: set_eq_iff bit_set fblk_def same_block)

lemma bm_changed_mset:
  assumes "6 \<le> k" "k \<le> 12" "i < nmark b k"
  shows "bm_changed b k i bm (mset_at k i (\<lambda>m. m\<lparr>bitmap := bm\<rparr>) b)"
  using assms by (simp add: bm_changed_def markat_mset)

lemma bm_changed_lnks:
  assumes "bm_changed b k i bm b'" "6 \<le> k2" "k2 \<le> 12" "j < nmark b k2"
  shows "bm_changed b k i bm (mset_at k2 j (\<lambda>m. m\<lparr>lnks := f m\<rparr>) b')"
  using assms by (auto simp: bm_changed_def markat_mset)

lemma bm_changed_head: "bm_changed b k i bm b' \<Longrightarrow> bm_changed b k i bm (hset_at k2 h b')"
  by (simp add: bm_changed_def)

text \<open>Changes confined to order \<open>k\<close>.\<close>

definition only_order :: "nat \<Rightarrow> buddy_t \<Rightarrow> buddy_t \<Rightarrow> bool" where
  "only_order k b b' \<longleftrightarrow> same_geom b b' \<and> (\<forall>k'. 6 \<le> k' \<and> k' \<le> 12 \<and> k' \<noteq> k \<longrightarrow> headat b' k' = headat b k' \<and>
     (\<forall>i < nmark b k'. markat b' k' i = markat b k' i))"

lemma only_order_refl [simp]: "only_order k b b"
  by (simp add: only_order_def)

lemma only_order_mset:
  assumes "only_order k b b'" "6 \<le> k" "k \<le> 12" "i < nmark b k"
  shows "only_order k b (mset_at k i f b')"
proof -
  have g: "same_geom b b'" "nmark b' = nmark b" using assms(1) same_geom_eq by (auto simp: only_order_def fun_eq_iff)
  then have "same_geom b (mset_at k i f b')" by (metis mset_at_sel(11) same_geom_trans)
  then show ?thesis using assms g(2) by (auto simp: only_order_def markat_mset)
qed

lemma only_order_hset:
  assumes "only_order k b b'" "geom b" "6 \<le> k" "k \<le> 12"
  shows "only_order k b (hset_at k h b')"
proof -
  have g: "same_geom b b'" using assms(1) by (simp add: only_order_def)
  then have "geom b'" "same_geom b (hset_at k h b')" using assms(2) same_geom_eq(4) by (auto intro: same_geom_trans)
  then show ?thesis using assms by (auto simp: only_order_def headat_hset)
qed

lemma only_order_lists:
  assumes "lists_ok lo b" "lo \<le> k" "k \<le> 12" "only_order k b b'" "olist b' k xs"
  shows "lists_ok lo b'"
  using assms(1-3) _ assms(5)
proof (rule lists_ok_upd)
  have "6 \<le> lo" using assms(1) by (simp add: lists_ok_def)
  then show "same_geom b b'" "\<And>k'. lo \<le> k' \<Longrightarrow> k' \<le> 12 \<Longrightarrow> k' \<noteq> k \<Longrightarrow> headat b' k' = headat b k'"
    "\<And>k' i. lo \<le> k' \<Longrightarrow> k' \<le> 12 \<Longrightarrow> k' \<noteq> k \<Longrightarrow> i < nmark b k' \<Longrightarrow> markat b' k' i = markat b k' i"
    using assms(4) by (auto simp: only_order_def)
qed

text \<open>Taking a mark whose bitmap has become empty out of its list.\<close>

definition unlink :: "nat \<Rightarrow> nat \<Rightarrow> nat list \<Rightarrow> nat list \<Rightarrow> buddy_t \<Rightarrow> buddy_t" where
  "unlink k i ys zs b1 =
     (let prev = last_of NIL ys; next = first_of zs NIL;
          b2 = (if ys = [] then hset_at k next b1
                else mset_at k (last ys) (\<lambda>p. p\<lparr>lnks := LNKS (PRE_LNK (lnks p)) next\<rparr>) b1);
          b3 = (if zs = [] then b2
                else mset_at k (hd zs) (\<lambda>p. p\<lparr>lnks := LNKS prev (NEXT_LNK (lnks p))\<rparr>) b2)
      in mset_at k i (\<lambda>m. m\<lparr>lnks := LNKS NIL NIL\<rparr>) b3)"

lemma unlink_props:
  assumes k: "6 \<le> k" "k \<le> 12" and g: "geom b1" and v: "i < nmark b1 k" "\<forall>j \<in> set (ys @ zs). j < nmark b1 k"
  shows "only_order k b1 (unlink k i ys zs b1)"
    and "bm_changed b k i bm b1 \<Longrightarrow> bm_changed b k i bm (unlink k i ys zs b1)"
proof -
  have y: "ys \<noteq> [] \<Longrightarrow> last ys < nmark b1 k" and z: "zs \<noteq> [] \<Longrightarrow> hd zs < nmark b1 k" using v(2) by auto
  show "only_order k b1 (unlink k i ys zs b1)"
    unfolding unlink_def Let_def using k g v(1) y z
    by (auto intro!: only_order_mset only_order_hset)
  show "bm_changed b k i bm (unlink k i ys zs b1)" if c: "bm_changed b k i bm b1"
  proof -
    have n: "nmark b1 = nmark b" using c by (simp add: bm_changed_def)
    show ?thesis unfolding unlink_def Let_def using k v(1) y z c n
      by (auto intro!: bm_changed_lnks bm_changed_head)
  qed
qed

lemma unlink_olist:
  assumes k: "6 \<le> k" "k \<le> 12" and g: "geom b1" and nm: "nmark b1 k \<le> 65535"
    and d: "dseg (\<lambda>i. lnks (markat b1 k i)) NIL (ys @ i # zs) NIL" "links (ys @ i # zs)" "headat b1 k = first_of (ys @ i # zs) NIL"
    and st: "set (ys @ i # zs) = insert i {j. j < nmark b1 k \<and> bitmap (markat b1 k j) \<noteq> 0}" "i < nmark b1 k" "bitmap (markat b1 k i) = 0"
  shows "olist (unlink k i ys zs b1) k (ys @ zs)"
proof -
  let ?L = "\<lambda>i. lnks (markat b1 k i)" and ?b = "unlink k i ys zs b1"
  define L' where "L' = (if ys = [] then ?L else ?L(last ys := LNKS (PRE_LNK (?L (last ys))) (first_of zs NIL)))"
  define L'' where "L'' = (if zs = [] then L' else L'(hd zs := LNKS (last_of NIL ys) (NEXT_LNK (L' (hd zs)))))"
  have dd: "dseg (L''(i := LNKS NIL NIL)) NIL (ys @ zs) NIL" by (rule dseg_delete [OF d(1,2) L'_def L''_def])
  have v: "\<forall>j \<in> set (ys @ zs). j < nmark b1 k" using st by auto
  then have y: "ys \<noteq> [] \<Longrightarrow> last ys < nmark b1 k" and z: "zs \<noteq> [] \<Longrightarrow> hd zs < nmark b1 k" by auto
  note mm = markat_mset [OF k]
  define b2 where "b2 = (if ys = [] then hset_at k (first_of zs NIL) b1
      else mset_at k (last ys) (\<lambda>p. p\<lparr>lnks := LNKS (PRE_LNK (lnks p)) (first_of zs NIL)\<rparr>) b1)"
  define b3 where "b3 = (if zs = [] then b2
      else mset_at k (hd zs) (\<lambda>p. p\<lparr>lnks := LNKS (last_of NIL ys) (NEXT_LNK (lnks p))\<rparr>) b2)"
  have b: "?b = mset_at k i (\<lambda>m. m\<lparr>lnks := LNKS NIL NIL\<rparr>) b3"
    by (simp add: unlink_def Let_def b2_def b3_def)
  have n2: "nmark b2 = nmark b1" "nmark b3 = nmark b1" by (simp_all add: b2_def b3_def)
  have e2: "lnks (markat b2 k j) = L' j \<and> bitmap (markat b2 k j) = bitmap (markat b1 k j)" if "j < nmark b1 k" for j
    using mm [OF y k(2) that] by (cases "ys = []") (simp_all add: b2_def L'_def)
  have e3: "lnks (markat b3 k j) = L'' j \<and> bitmap (markat b3 k j) = bitmap (markat b1 k j)" if "j < nmark b1 k" for j
    using mm [of "hd zs" b2 k j] n2 z k(2) that e2 [OF that] e2 [OF z] by (cases "zs = []") (simp_all add: b3_def L''_def)
  have e4: "lnks (markat ?b k j) = (L''(i := LNKS NIL NIL)) j \<and> bitmap (markat ?b k j) = bitmap (markat b1 k j)"
    if "j < nmark b1 k" for j
    unfolding b using mm [of i b3 k j] n2 st(2) k(2) that e3 [OF that] e3 [OF st(2)] by simp
  note L3 = conjunct1 [OF e4] and bm = conjunct2 [OF e4]
  have h: "headat ?b k = first_of (ys @ zs) NIL"
    unfolding unlink_def Let_def using d(3) g k by (cases ys) (simp_all add: headat_hset)
  have n: "nmark ?b = nmark b1" unfolding unlink_def Let_def by simp
  have i: "i \<notin> set ys" "i \<notin> set zs" "distinct (ys @ zs)" using d(2) by (auto simp: links_def)
  have "dseg (\<lambda>j. lnks (markat ?b k j)) NIL (ys @ zs) NIL"
    using dd v by (subst dseg_cong [where L' = "L''(i := LNKS NIL NIL)"]) (auto simp: L3)
  moreover have "set (ys @ zs) = {j. j < nmark ?b k \<and> bitmap (markat ?b k j) \<noteq> 0}"
  proof -
    have "set (ys @ zs) = {j. j < nmark b1 k \<and> bitmap (markat b1 k j) \<noteq> 0}" using st i by auto
    then show ?thesis using bm n by auto
  qed
  ultimately show ?thesis using h i(3) by (simp add: olist_def)
qed

lemma runs_unlink:
  assumes k: "6 \<le> k" "k \<le> 12" and g: "geom (buddy s)" and v: "i < nmark (buddy s) k" "links (ys @ i # zs)" "\<forall>j \<in> set (ys @ zs). j < nmark (buddy s) k"
    and h: "headat (buddy s) k = first_of (ys @ i # zs) NIL"
    and p: "prev = last_of NIL ys" "next = first_of zs NIL"
  shows "runs (kdo (if prev \<noteq> NIL then upd_mark k prev (\<lambda>p. p\<lparr>lnks := LNKS (PRE_LNK (lnks p)) next\<rparr>)
             else kdo (ord_head k) (\<lambda>h. kwhen (h = of_nat i) (set_ord_head k next))) (\<lambda>_.
        kdo (kwhen (next \<noteq> NIL)
              (upd_mark k next (\<lambda>p. p\<lparr>lnks := LNKS prev (NEXT_LNK (lnks p))\<rparr>))) (\<lambda>_.
        upd_mark k (of_nat i) (\<lambda>m. m\<lparr>lnks := LNKS NIL NIL\<rparr>)))) s Q \<longleftrightarrow>
     Q () (s\<lparr>buddy := unlink k i ys zs (buddy s)\<rparr>)"
proof -
  have y: "ys \<noteq> [] \<Longrightarrow> last ys < nmark (buddy s) k \<and> prev = of_nat (last ys) \<and> of_nat (last ys) \<noteq> NIL"
    using v(2,3) p(1) of_nat_link(2) [of "last ys"] by (auto simp: last_of_def links_def)
  have z: "zs \<noteq> [] \<Longrightarrow> hd zs < nmark (buddy s) k \<and> next = of_nat (hd zs) \<and> of_nat (hd zs) \<noteq> NIL"
    using v(2,3) p(2) of_nat_link(2) [of "hd zs"] by (cases zs) auto
  have e: "ys = [] \<Longrightarrow> prev = NIL" "zs = [] \<Longrightarrow> next = NIL" using p by simp_all
  have hi: "ys = [] \<Longrightarrow> headat (buddy s) k = of_nat i" using h by simp
  show ?thesis
    by (cases "ys = []"; cases "zs = []")
      (use y z e hi k g v(1) p in \<open>simp_all add: runs_upd_mark runs_ord_head runs_set_ord_head unlink_def\<close>)
qed

text \<open>Only the free blocks of order \<open>k\<close> have changed, to \<open>F\<close>, and the lists are in order again.\<close>

definition blk_post :: "nat \<Rightarrow> nat \<Rightarrow> nat set \<Rightarrow> 'x kmem_scheme \<Rightarrow> 'x kmem_scheme \<Rightarrow> bool" where
  "blk_post lo k F s t \<longleftrightarrow> (\<exists>b. t = s\<lparr>buddy := b\<rparr> \<and> lists_ok lo b \<and> same_geom (buddy s) b \<and> fblk b k = F \<and>
     (\<forall>k'. lo \<le> k' \<and> k' \<le> 12 \<and> k' \<noteq> k \<longrightarrow> fblk b k' = fblk (buddy s) k'))"

lemma unmark_blk_nat:
  "unmark_blk k (int n) =
     kdo (get_mark k (of_nat (n div 32))) (\<lambda>mk.
     if \<not> bit (bitmap mk) (n mod 32) then kpanic (''double alloc'' @ nl)
     else
     kdo (upd_mark k (of_nat (n div 32)) (\<lambda>m. m\<lparr>bitmap := bitmap mk AND NOT (2 ^ (n mod 32))\<rparr>)) (\<lambda>_.
     kwhen (bitmap mk AND NOT (2 ^ (n mod 32)) = 0)
       (kdo (if PRE_LNK (lnks mk) \<noteq> NIL then upd_mark k (PRE_LNK (lnks mk)) (\<lambda>p. p\<lparr>lnks := LNKS (PRE_LNK (lnks p)) (NEXT_LNK (lnks mk))\<rparr>)
             else kdo (ord_head k) (\<lambda>h. kwhen (h = of_nat (n div 32)) (set_ord_head k (NEXT_LNK (lnks mk))))) (\<lambda>_.
        kdo (kwhen (NEXT_LNK (lnks mk) \<noteq> NIL)
              (upd_mark k (NEXT_LNK (lnks mk)) (\<lambda>p. p\<lparr>lnks := LNKS (PRE_LNK (lnks mk)) (NEXT_LNK (lnks p))\<rparr>))) (\<lambda>_.
        upd_mark k (of_nat (n div 32)) (\<lambda>m. m\<lparr>lnks := LNKS NIL NIL\<rparr>))))))"
  by (simp add: unmark_blk_def Let_def and_31 cong: if_cong)

lemma unmark_law:
  assumes ok: "lists_ok lo (buddy s)" and k: "lo \<le> k" "k \<le> 12" and n: "n \<in> fblk (buddy s) k"
  shows "runs (unmark_blk k (int n)) s (\<lambda>_. blk_post lo k (fblk (buddy s) k - {n}) s)"
proof -
  define b i bm where "b = buddy s" and "i = n div 32" and "bm = bitmap (markat b k i) AND NOT (2 ^ (n mod 32))"
  obtain xs where xs: "olist b k xs" "links xs" "nmark b k \<le> 65535" "geom b" "6 \<le> k"
    using lists_okD [OF ok k] by (auto simp: b_def)
  have i: "i < nmark b k" "bit (bitmap (markat b k i)) (n mod 32)" using n by (simp_all add: fblk_def b_def i_def)
  have nz: "bitmap (markat b k i) \<noteq> 0" using i(2) by auto
  define b1 where "b1 = mset_at k i (\<lambda>m. m\<lparr>bitmap := bm\<rparr>) b"
  have b1: "markat b1 k j = (if j = i then (markat b k i)\<lparr>bitmap := bm\<rparr> else markat b k j)" if "j < nmark b k" for j
    using markat_mset [OF xs(5) k(2) i(1) k(2) that] by (simp add: b1_def)
  have c1: "bm_changed b k i bm b1" "only_order k b b1" "nmark b1 = nmark b" "geom b1" "headat b1 = headat b"
    using bm_changed_mset [OF xs(5) k(2) i(1)] only_order_mset [OF only_order_refl xs(5) k(2) i(1)] xs(4) by (simp_all add: b1_def)
  have d1: "dseg (\<lambda>j. lnks (markat b1 k j)) NIL xs NIL"
    using xs(1) b1 by (subst dseg_cong [where L' = "\<lambda>j. lnks (markat b k j)"]) (auto simp: olist_def)
  have sx: "set xs = {j. j < nmark b k \<and> bitmap (markat b k j) \<noteq> 0}" "headat b k = first_of xs NIL" "distinct xs"
    using xs(1) by (auto simp: olist_def)
  have post: "blk_post lo k (fblk b k - {n}) s (s\<lparr>buddy := b'\<rparr>)"
    if "bm_changed b k i bm b'" "only_order k b b'" "olist b' k xs'" for b' xs'
  proof -
    have "lists_ok lo b'" using ok k that(2,3) by (intro only_order_lists [of lo b k b' xs']) (auto simp: b_def)
    moreover have "fblk b' k = fblk b k - {n}" "k' \<le> 12 \<Longrightarrow> k' \<noteq> k \<Longrightarrow> fblk b' k' = fblk b k'" for k'
      using fblk_unset [where b = b and k = k and n = n and b' = b'] that(1) i(1) k(2) by (auto simp: i_def bm_def)
    ultimately show ?thesis using that(2) by (auto simp: blk_post_def only_order_def b_def)
  qed
  show ?thesis
  proof (cases "bm = 0")
    case False
    have "olist b1 k xs" using nz False d1 sx b1 c1(3,5) i(1) by (auto simp: olist_def split: if_splits)
    then have "blk_post lo k (fblk b k - {n}) s (s\<lparr>buddy := b1\<rparr>)" using c1 by (intro post)
    then show ?thesis using False xs(4,5) k(2) i
      by (simp add: unmark_blk_nat runs_get_mark runs_upd_mark runs_if bm_def b1_def i_def b_def)
  next
    case True
    have "i \<in> set xs" unfolding sx(1) using i(1) nz by simp
    then obtain ys zs where x: "xs = ys @ i # zs" by (meson split_list)
    have "\<forall>j \<in> set xs. j < nmark b k" unfolding sx(1) by simp
    then have v: "\<forall>j \<in> set (ys @ zs). j < nmark b k" unfolding x by simp
    have ss: "set (ys @ i # zs) = insert i {j. j < nmark b1 k \<and> bitmap (markat b1 k j) \<noteq> 0}"
      unfolding x [symmetric] sx(1) c1(3) using b1 True i(1) nz by (auto split: if_splits)
    have bi: "bitmap (markat b1 k i) = 0" using b1 [OF i(1)] True by simp
    have l: "links (ys @ i # zs)" "headat b1 k = first_of (ys @ i # zs) NIL" using xs(2) sx(2) c1(5) x by simp_all
    have "olist (unlink k i ys zs b1) k (ys @ zs)"
      by (rule unlink_olist [OF xs(5) k(2) c1(4) _ _ l ss]) (use xs(3) c1(3) d1 x bi i(1) in simp_all)
    moreover have "only_order k b1 (unlink k i ys zs b1)" "bm_changed b k i bm (unlink k i ys zs b1)"
      using unlink_props [where k = k and ?b1.0 = b1 and i = i and ys = ys and zs = zs] xs(4,5) k(2) c1 i(1) v by simp_all
    moreover have "only_order k b (unlink k i ys zs b1)"
      using calculation(2) c1(2,3) unfolding only_order_def by (metis same_geom_trans)
    ultimately have "blk_post lo k (fblk b k - {n}) s (s\<lparr>buddy := unlink k i ys zs b1\<rparr>)" by (intro post)
    moreover have pn: "PRE_LNK (lnks (markat b k i)) = last_of NIL ys" "NEXT_LNK (lnks (markat b k i)) = first_of zs NIL"
      using dseg_mid [of "\<lambda>j. lnks (markat b k j)" ys i zs] xs(1,2) x by (auto simp: olist_def)
    moreover have "runs (unmark_blk k (int n)) s Q \<longleftrightarrow> Q () (s\<lparr>buddy := unlink k i ys zs b1\<rparr>)" for Q
    proof -
      note r = runs_unlink [where s = "s\<lparr>buddy := b1\<rparr>" and k = k and i = i and ys = ys and zs = zs and Q = Q, OF xs(5) k(2)]
      have "runs (unmark_blk k (int n)) s Q \<longleftrightarrow> runs
        (kdo (if last_of NIL ys \<noteq> NIL then upd_mark k (last_of NIL ys) (\<lambda>p. p\<lparr>lnks := LNKS (PRE_LNK (lnks p)) (first_of zs NIL)\<rparr>)
             else kdo (ord_head k) (\<lambda>h. kwhen (h = of_nat i) (set_ord_head k (first_of zs NIL)))) (\<lambda>_.
        kdo (kwhen (first_of zs NIL \<noteq> NIL)
              (upd_mark k (first_of zs NIL) (\<lambda>p. p\<lparr>lnks := LNKS (last_of NIL ys) (NEXT_LNK (lnks p))\<rparr>))) (\<lambda>_.
        upd_mark k (of_nat i) (\<lambda>m. m\<lparr>lnks := LNKS NIL NIL\<rparr>)))) (s\<lparr>buddy := b1\<rparr>) Q"
        unfolding unmark_blk_nat i_def [symmetric]
        using pn True xs(4,5) k(2) i by (simp add: runs_get_mark runs_upd_mark b_def b1_def bm_def)
      also have "\<dots> \<longleftrightarrow> Q () (s\<lparr>buddy := unlink k i ys zs b1\<rparr>)"
        by (subst r) (use c1(3,4) i(1) l v in simp_all)
      finally show ?thesis .
    qed
    ultimately show ?thesis by (simp add: b_def)
  qed
qed

text \<open>Putting a mark at the head of the list of its order.\<close>

definition link_head :: "nat \<Rightarrow> nat \<Rightarrow> nat list \<Rightarrow> buddy_t \<Rightarrow> buddy_t" where
  "link_head k i xs b1 =
     (let b2 = mset_at k i (\<lambda>m. m\<lparr>lnks := LNKS NIL (first_of xs NIL)\<rparr>) b1;
          b3 = (if xs = [] then b2 else mset_at k (hd xs) (\<lambda>p. p\<lparr>lnks := LNKS (of_nat i) (NEXT_LNK (lnks p))\<rparr>) b2)
      in hset_at k (of_nat i) b3)"

lemma link_head_props:
  assumes k: "6 \<le> k" "k \<le> 12" and g: "geom b1" and v: "i < nmark b1 k" "\<forall>j \<in> set xs. j < nmark b1 k"
  shows "only_order k b1 (link_head k i xs b1)"
    and "bm_changed b k i bm b1 \<Longrightarrow> bm_changed b k i bm (link_head k i xs b1)"
proof -
  have z: "xs \<noteq> [] \<Longrightarrow> hd xs < nmark b1 k" using v(2) by auto
  show "only_order k b1 (link_head k i xs b1)"
    unfolding link_head_def Let_def using k g v(1) z by (auto intro!: only_order_mset only_order_hset)
  show "bm_changed b k i bm (link_head k i xs b1)" if c: "bm_changed b k i bm b1"
  proof -
    have n: "nmark b1 = nmark b" using c by (simp add: bm_changed_def)
    show ?thesis unfolding link_head_def Let_def using k v(1) z c n
      by (auto intro!: bm_changed_lnks bm_changed_head)
  qed
qed

lemma link_head_olist:
  assumes k: "6 \<le> k" "k \<le> 12" and g: "geom b1"
    and d: "dseg (\<lambda>i. lnks (markat b1 k i)) NIL xs NIL" "links (i # xs)"
    and st: "insert i (set xs) = {j. j < nmark b1 k \<and> bitmap (markat b1 k j) \<noteq> 0}"
  shows "olist (link_head k i xs b1) k (i # xs)"
proof -
  let ?L = "\<lambda>i. lnks (markat b1 k i)" and ?b = "link_head k i xs b1"
  define L' where "L' = ?L(i := LNKS NIL (first_of xs NIL))"
  define L'' where "L'' = (if xs = [] then L' else L'(hd xs := LNKS (of_nat i) (NEXT_LNK (L' (hd xs)))))"
  have dd: "dseg L'' NIL (i # xs) NIL" by (rule dseg_insert [OF d L'_def L''_def])
  have "\<forall>j \<in> insert i (set xs). j < nmark b1 k" unfolding st by simp
  then have v: "i < nmark b1 k" "\<forall>j \<in> set (i # xs). j < nmark b1 k" and z: "xs \<noteq> [] \<Longrightarrow> hd xs < nmark b1 k" by auto
  define b2 where "b2 = mset_at k i (\<lambda>m. m\<lparr>lnks := LNKS NIL (first_of xs NIL)\<rparr>) b1"
  define b3 where "b3 = (if xs = [] then b2 else mset_at k (hd xs) (\<lambda>p. p\<lparr>lnks := LNKS (of_nat i) (NEXT_LNK (lnks p))\<rparr>) b2)"
  have b: "?b = hset_at k (of_nat i) b3" by (simp add: link_head_def Let_def b2_def b3_def)
  have n: "nmark b2 = nmark b1" "nmark b3 = nmark b1" "nmark ?b = nmark b1" "geom b3"
    using g by (simp_all add: b b2_def b3_def)
  note mm = markat_mset [OF k]
  have e2: "lnks (markat b2 k j) = L' j \<and> bitmap (markat b2 k j) = bitmap (markat b1 k j)" if "j < nmark b1 k" for j
    using mm [OF v(1) k(2) that] by (simp add: b2_def L'_def)
  have e3: "lnks (markat ?b k j) = L'' j \<and> bitmap (markat ?b k j) = bitmap (markat b1 k j)" if "j < nmark b1 k" for j
    unfolding b hset_at_sel(6) using mm [of "hd xs" b2 k j] n(1) z k(2) that e2 [OF that] e2 [OF z]
    by (cases "xs = []") (simp_all add: b3_def L''_def)
  have "dseg (\<lambda>j. lnks (markat ?b k j)) NIL (i # xs) NIL"
    using dd v by (subst dseg_cong [where L' = L'']) (auto simp: e3)
  moreover have "set (i # xs) = {j. j < nmark ?b k \<and> bitmap (markat ?b k j) \<noteq> 0}"
    using st e3 n by (auto simp: set_eq_iff)
  moreover have "headat ?b k = of_nat i" using n(4) k by (simp add: b headat_hset)
  ultimately show ?thesis using d(2) by (simp add: olist_def links_def)
qed

lemma mark_blk_nat:
  "mark_blk k (int n) =
     kdo (get_mark k (of_nat (n div 32))) (\<lambda>mk.
     if bit (bitmap mk) (n mod 32) then kpanic (''double free'' @ nl)
     else
     kdo (upd_mark k (of_nat (n div 32)) (\<lambda>m. m\<lparr>bitmap := bitmap m OR 2 ^ (n mod 32)\<rparr>)) (\<lambda>_.
     kwhen (bitmap mk = 0)
       (kdo (ord_head k) (\<lambda>h.
        kdo (upd_mark k (of_nat (n div 32)) (\<lambda>m. m\<lparr>lnks := LNKS NIL h\<rparr>)) (\<lambda>_.
        kdo (kwhen (h \<noteq> NIL) (upd_mark k h (\<lambda>p. p\<lparr>lnks := LNKS (of_nat (n div 32)) (NEXT_LNK (lnks p))\<rparr>))) (\<lambda>_.
        set_ord_head k (of_nat (n div 32))))))))"
  by (simp add: mark_blk_def Let_def and_31 cong: if_cong)

lemma mark_law:
  assumes ok: "lists_ok lo (buddy s)" and k: "lo \<le> k" "k \<le> 12" and n: "n \<notin> fblk (buddy s) k" "n div 32 < nmark (buddy s) k"
  shows "runs (mark_blk k (int n)) s (\<lambda>_. blk_post lo k (insert n (fblk (buddy s) k)) s)"
proof -
  define b i bm where "b = buddy s" and "i = n div 32" and "bm = bitmap (markat b k i) OR 2 ^ (n mod 32)"
  obtain xs where xs: "olist b k xs" "links xs" "nmark b k \<le> 65535" "geom b" "6 \<le> k"
    using lists_okD [OF ok k] by (auto simp: b_def)
  have i: "i < nmark b k" "\<not> bit (bitmap (markat b k i)) (n mod 32)" using n by (simp_all add: fblk_def b_def i_def)
  have nz: "bm \<noteq> 0" unfolding ex_bit bm_def by (rule exI [of _ "n mod 32"]) (simp add: bit_set)
  define b1 where "b1 = mset_at k i (\<lambda>m. m\<lparr>bitmap := bm\<rparr>) b"
  have b1': "mset_at k i (\<lambda>m. m\<lparr>bitmap := bitmap m OR 2 ^ (n mod 32)\<rparr>) b = b1"
    by (simp add: b1_def mset_at_def bm_def)
  have b1: "markat b1 k j = (if j = i then (markat b k i)\<lparr>bitmap := bm\<rparr> else markat b k j)" if "j < nmark b k" for j
    using markat_mset [OF xs(5) k(2) i(1) k(2) that] by (simp add: b1_def)
  have c1: "bm_changed b k i bm b1" "only_order k b b1" "nmark b1 = nmark b" "geom b1" "headat b1 = headat b"
    using bm_changed_mset [OF xs(5) k(2) i(1)] only_order_mset [OF only_order_refl xs(5) k(2) i(1)] xs(4) by (simp_all add: b1_def)
  have d1: "dseg (\<lambda>j. lnks (markat b1 k j)) NIL xs NIL"
    using xs(1) b1 by (subst dseg_cong [where L' = "\<lambda>j. lnks (markat b k j)"]) (auto simp: olist_def)
  have sx: "set xs = {j. j < nmark b k \<and> bitmap (markat b k j) \<noteq> 0}" "headat b k = first_of xs NIL" "distinct xs"
    using xs(1) by (auto simp: olist_def)
  have v: "\<forall>j \<in> set xs. j < nmark b k" unfolding sx(1) by simp
  have post: "blk_post lo k (insert n (fblk b k)) s (s\<lparr>buddy := b'\<rparr>)"
    if "bm_changed b k i bm b'" "only_order k b b'" "olist b' k xs'" for b' xs'
  proof -
    have "lists_ok lo b'" using ok k that(2,3) by (intro only_order_lists [of lo b k b' xs']) (auto simp: b_def)
    moreover have "fblk b' k = insert n (fblk b k)" "k' \<le> 12 \<Longrightarrow> k' \<noteq> k \<Longrightarrow> fblk b' k' = fblk b k'" for k'
      using fblk_set [where b = b and k = k and n = n and b' = b'] that(1) i(1) k(2) by (auto simp: i_def bm_def)
    ultimately show ?thesis using that(2) by (auto simp: blk_post_def only_order_def b_def)
  qed
  show ?thesis
  proof (cases "bitmap (markat b k i) = 0")
    case False
    have "olist b1 k xs" using nz False d1 sx b1 c1(3,5) i(1) by (auto simp: olist_def split: if_splits)
    then have "blk_post lo k (insert n (fblk b k)) s (s\<lparr>buddy := b1\<rparr>)" using c1 by (intro post)
    then show ?thesis using False xs(4,5) k(2) i b1'
      by (simp add: mark_blk_nat runs_get_mark runs_upd_mark runs_if i_def b_def)
  next
    case True
    have ni: "i \<notin> set xs" unfolding sx(1) using True by simp
    have ss: "insert i (set xs) = {j. j < nmark b1 k \<and> bitmap (markat b1 k j) \<noteq> 0}"
      unfolding sx(1) c1(3) using b1 True i(1) nz by (auto split: if_splits)
    have l: "links (i # xs)" using xs(2,3) ni i(1) by simp
    have "olist (link_head k i xs b1) k (i # xs)" by (rule link_head_olist [OF xs(5) k(2) c1(4) d1 l ss])
    moreover have "only_order k b1 (link_head k i xs b1)" "bm_changed b k i bm (link_head k i xs b1)"
      using link_head_props [where k = k and ?b1.0 = b1 and i = i and xs = xs] xs(4,5) k(2) c1 i(1) v by simp_all
    moreover have "only_order k b (link_head k i xs b1)"
      using calculation(2) c1(2,3) unfolding only_order_def by (metis same_geom_trans)
    ultimately have "blk_post lo k (insert n (fblk b k)) s (s\<lparr>buddy := link_head k i xs b1\<rparr>)" by (intro post)
    moreover have "runs (mark_blk k (int n)) s Q \<longleftrightarrow> Q () (s\<lparr>buddy := link_head k i xs b1\<rparr>)" for Q
    proof -
      have z: "xs \<noteq> [] \<Longrightarrow> hd xs < nmark b k \<and> first_of xs NIL = of_nat (hd xs) \<and> of_nat (hd xs) \<noteq> NIL"
        using v xs(2) of_nat_link(2) [of "hd xs"] by (cases xs) auto
      have "runs (mark_blk k (int n)) s Q \<longleftrightarrow> runs
         (kdo (ord_head k) (\<lambda>h.
          kdo (upd_mark k (of_nat i) (\<lambda>m. m\<lparr>lnks := LNKS NIL h\<rparr>)) (\<lambda>_.
          kdo (kwhen (h \<noteq> NIL) (upd_mark k h (\<lambda>p. p\<lparr>lnks := LNKS (of_nat i) (NEXT_LNK (lnks p))\<rparr>))) (\<lambda>_.
          set_ord_head k (of_nat i))))) (s\<lparr>buddy := b1\<rparr>) Q"
        unfolding mark_blk_nat i_def [symmetric]
        using True xs(4,5) k(2) i b1' by (simp add: runs_get_mark runs_upd_mark b_def)
      also have "\<dots> \<longleftrightarrow> Q () (s\<lparr>buddy := link_head k i xs b1\<rparr>)"
        using z c1(3,4,5) xs(5) k(2) i(1) sx(2)
        by (cases "xs = []") (simp_all add: runs_ord_head runs_upd_mark runs_set_ord_head link_head_def Let_def)
      finally show ?thesis .
    qed
    ultimately show ?thesis by (simp add: b_def)
  qed
qed

section \<open>Free blocks as an area of the heap\<close>

text \<open>Block \<open>n\<close> of order \<open>k\<close>, as offsets into the heap; \<open>heap_size\<close> is the size of the heap in bytes.\<close>

definition blkset :: "nat \<Rightarrow> nat \<Rightarrow> nat set" where
  "blkset k n = {n * 2 ^ k ..< (n + 1) * 2 ^ k}"

definition heap_size :: "buddy_t \<Rightarrow> nat" where
  "heap_size b = 4096 * ((unat (b_end b) - unat (b_start_heap b) + 4095) div 4096)"

definition heap_ok :: "buddy_t \<Rightarrow> bool" where
  "heap_ok b \<longleftrightarrow> unat (b_start_heap b) mod 4096 = 0 \<and> 0 < unat (b_start_heap b) \<and>
     unat (b_start_heap b) + heap_size b < 2 ^ 32 \<and> heap_size b \<le> 2 ^ 17 * nmax b"

definition farea :: "nat \<Rightarrow> buddy_t \<Rightarrow> nat set" where
  "farea lo b = (\<Union>k \<in> {lo..12}. \<Union>n \<in> fblk b k. blkset k n)"

definition buddy_of :: "nat \<Rightarrow> nat" where
  "buddy_of n = (if even n then n + 1 else n - 1)"

definition buddy_ok :: "nat \<Rightarrow> buddy_t \<Rightarrow> bool" where
  "buddy_ok lo b \<longleftrightarrow> lists_ok lo b \<and> heap_ok b \<and>
     (\<forall>k n. lo \<le> k \<and> k \<le> 12 \<and> n \<in> fblk b k \<longrightarrow> (n + 1) * 2 ^ k \<le> heap_size b \<and> (k < 12 \<longrightarrow> buddy_of n \<notin> fblk b k)) \<and>
     (\<forall>k n k' n'. lo \<le> k \<and> k \<le> 12 \<and> lo \<le> k' \<and> k' \<le> 12 \<and> n \<in> fblk b k \<and> n' \<in> fblk b k' \<and> (k, n) \<noteq> (k', n') \<longrightarrow>
        blkset k n \<inter> blkset k' n' = {})"

lemma blkset_nonempty [simp]: "blkset k n \<noteq> {}" "n * 2 ^ k \<in> blkset k n"
  by (auto simp: blkset_def)

lemma buddy_of_involutive [simp]: "buddy_of (buddy_of n) = n"
  by (auto simp: buddy_of_def)

lemma buddy_of_neq [simp]: "buddy_of n \<noteq> n" "n \<noteq> buddy_of n"
  by (auto simp: buddy_of_def elim: oddE)

lemma buddy_of_div [simp]: "buddy_of n div 32 = n div 32" "buddy_of n div 2 = n div 2"
  by (auto simp: buddy_of_def elim!: oddE evenE)

lemma buddy_of_split: "blkset k n \<union> blkset k (buddy_of n) = blkset (Suc k) (n div 2)"
proof (cases "even n")
  case True
  then obtain m where n: "n = 2 * m" by (auto elim: evenE)
  have "{2 * m * 2 ^ k ..< (2 * m + 1) * 2 ^ k} \<union> {(2 * m + 1) * 2 ^ k ..< (2 * m + 2) * 2 ^ k} = {2 * m * 2 ^ k ..< (2 * m + 2) * (2::nat) ^ k}"
    by (rule ivl_disj_un) auto
  then show ?thesis unfolding n by (simp add: blkset_def buddy_of_def algebra_simps)
next
  case False
  then obtain m where n: "n = 2 * m + 1" by (auto elim: oddE)
  have "{2 * m * 2 ^ k ..< (2 * m + 1) * 2 ^ k} \<union> {(2 * m + 1) * 2 ^ k ..< (2 * m + 2) * 2 ^ k} = {2 * m * 2 ^ k ..< (2 * m + 2) * (2::nat) ^ k}"
    by (rule ivl_disj_un) auto
  then show ?thesis unfolding n by (simp add: blkset_def buddy_of_def algebra_simps Un_commute)
qed

lemma blkset_disjoint: "n \<noteq> n' \<Longrightarrow> blkset k n \<inter> blkset k n' = {}"
proof -
  assume "n \<noteq> n'"
  then have "n + 1 \<le> n' \<or> n' + 1 \<le> n" by auto
  then have "(n + 1) * 2 ^ k \<le> n' * 2 ^ k \<or> (n' + 1) * 2 ^ k \<le> n * (2::nat) ^ k"
    by (metis mult_le_mono1)
  then show ?thesis by (auto simp: blkset_def)
qed

lemma buddy_xor: "int n XOR 1 = int (buddy_of n)"
  by (auto simp: buddy_of_def xor_one_eq elim!: evenE oddE)

lemma and_not_1: "int n AND NOT 1 = int (2 * (n div 2))"
  using unset_bit_0 [of "int n"] by (simp add: unset_bit_eq_and_not zdiv_int)

lemma farea_iff: "x \<in> farea lo b \<longleftrightarrow> (\<exists>k n. lo \<le> k \<and> k \<le> 12 \<and> n \<in> fblk b k \<and> x \<in> blkset k n)"
  by (auto simp: farea_def)

lemma farea_blk: "lo \<le> k \<Longrightarrow> k \<le> 12 \<Longrightarrow> n \<in> fblk b k \<Longrightarrow> blkset k n \<subseteq> farea lo b"
  by (auto simp: farea_def)

end
