(* ===== verification/Buddy_Spec.thy ===== *)
theory Buddy_Spec
  imports Buddy
begin

text \<open>
  What the buddy allocator promises: \<^verbatim>\<open>__internal_kfree\<close> adds exactly the block to the free area of the
  heap, \<^verbatim>\<open>__internal_kmalloc\<close> takes exactly one block of the requested size out of it, and both keep
  the invariant. \<open>lo\<close> is the smallest order whose marks can be addressed by 16-bit links.
\<close>

section \<open>Changing the free blocks of one order\<close>

definition area_post :: "nat \<Rightarrow> nat set \<Rightarrow> 'x kmem_scheme \<Rightarrow> 'x kmem_scheme \<Rightarrow> bool" where
  "area_post lo A s t \<longleftrightarrow> (\<exists>b. t = s\<lparr>buddy := b\<rparr> \<and> buddy_ok lo b \<and> same_geom (buddy s) b \<and> farea lo b = A)"

lemma area_postD:
  assumes "area_post lo A s t"
  shows "buddy_ok lo (buddy t)" "farea lo (buddy t) = A" "same_geom (buddy s) (buddy t)" "t = s\<lparr>buddy := buddy t\<rparr>"
proof -
  obtain b where "t = s\<lparr>buddy := b\<rparr>" "buddy_ok lo b" "same_geom (buddy s) b" "farea lo b = A"
    using assms unfolding area_post_def by blast
  then show "buddy_ok lo (buddy t)" "farea lo (buddy t) = A" "same_geom (buddy s) (buddy t)" "t = s\<lparr>buddy := buddy t\<rparr>"
    by simp_all
qed

lemma heap_ok_geom: "same_geom b b' \<Longrightarrow> heap_ok b' \<longleftrightarrow> heap_ok b" "same_geom b b' \<Longrightarrow> heap_size b' = heap_size b"
  using same_geom_eq [of b b'] by (simp_all add: heap_ok_def heap_size_def)

lemma buddy_okD:
  assumes "buddy_ok lo b"
  shows "lists_ok lo b" "heap_ok b"
    and "lo \<le> k \<Longrightarrow> k \<le> 12 \<Longrightarrow> n \<in> fblk b k \<Longrightarrow> (n + 1) * 2 ^ k \<le> heap_size b"
    and "lo \<le> k \<Longrightarrow> k < 12 \<Longrightarrow> n \<in> fblk b k \<Longrightarrow> buddy_of n \<notin> fblk b k"
    and "lo \<le> k \<Longrightarrow> k \<le> 12 \<Longrightarrow> lo \<le> k' \<Longrightarrow> k' \<le> 12 \<Longrightarrow> n \<in> fblk b k \<Longrightarrow> n' \<in> fblk b k' \<Longrightarrow>
      (k, n) \<noteq> (k', n') \<Longrightarrow> blkset k n \<inter> blkset k' n' = {}"
proof -
  show "lists_ok lo b" "heap_ok b" using assms by (auto simp: buddy_ok_def)
  show "lo \<le> k \<Longrightarrow> k \<le> 12 \<Longrightarrow> n \<in> fblk b k \<Longrightarrow> (n + 1) * 2 ^ k \<le> heap_size b"
    using assms unfolding buddy_ok_def by blast
  show "lo \<le> k \<Longrightarrow> k < 12 \<Longrightarrow> n \<in> fblk b k \<Longrightarrow> buddy_of n \<notin> fblk b k"
    using assms unfolding buddy_ok_def by (meson less_imp_le)
  show "lo \<le> k \<Longrightarrow> k \<le> 12 \<Longrightarrow> lo \<le> k' \<Longrightarrow> k' \<le> 12 \<Longrightarrow> n \<in> fblk b k \<Longrightarrow> n' \<in> fblk b k' \<Longrightarrow>
      (k, n) \<noteq> (k', n') \<Longrightarrow> blkset k n \<inter> blkset k' n' = {}"
    using assms unfolding buddy_ok_def by meson
qed

lemma buddy_okI:
  assumes "lists_ok lo b" "heap_ok b"
    and "\<And>k n. lo \<le> k \<Longrightarrow> k \<le> 12 \<Longrightarrow> n \<in> fblk b k \<Longrightarrow> (n + 1) * 2 ^ k \<le> heap_size b"
    and "\<And>k n. lo \<le> k \<Longrightarrow> k < 12 \<Longrightarrow> n \<in> fblk b k \<Longrightarrow> buddy_of n \<notin> fblk b k"
    and "\<And>k n k' n'. lo \<le> k \<Longrightarrow> k \<le> 12 \<Longrightarrow> lo \<le> k' \<Longrightarrow> k' \<le> 12 \<Longrightarrow> n \<in> fblk b k \<Longrightarrow> n' \<in> fblk b k' \<Longrightarrow>
      (k, n) \<noteq> (k', n') \<Longrightarrow> blkset k n \<inter> blkset k' n' = {}"
  shows "buddy_ok lo b"
proof -
  have "\<forall>k n. lo \<le> k \<and> k \<le> 12 \<and> n \<in> fblk b k \<longrightarrow> (n + 1) * 2 ^ k \<le> heap_size b \<and> (k < 12 \<longrightarrow> buddy_of n \<notin> fblk b k)"
    using assms(3,4) by blast
  moreover have "\<forall>k n k' n'. lo \<le> k \<and> k \<le> 12 \<and> lo \<le> k' \<and> k' \<le> 12 \<and> n \<in> fblk b k \<and> n' \<in> fblk b k' \<and> (k, n) \<noteq> (k', n') \<longrightarrow>
      blkset k n \<inter> blkset k' n' = {}"
    using assms(5) by blast
  ultimately show ?thesis using assms(1,2) by (simp only: buddy_ok_def simp_thms)
qed

lemma remove_block:
  assumes ok: "buddy_ok lo b" and k: "lo \<le> k" "k \<le> 12" and n: "n \<in> fblk b k"
    and b': "lists_ok lo b'" "same_geom b b'" "fblk b' k = fblk b k - {n}" "\<And>k'. lo \<le> k' \<Longrightarrow> k' \<le> 12 \<Longrightarrow> k' \<noteq> k \<Longrightarrow> fblk b' k' = fblk b k'"
  shows "buddy_ok lo b'" "farea lo b' = farea lo b - blkset k n"
proof -
  have sub: "m \<in> fblk b' k' \<longleftrightarrow> m \<in> fblk b k' \<and> (k', m) \<noteq> (k, n)" if "lo \<le> k'" "k' \<le> 12" for k' m
    using b'(3,4) that by (cases "k' = k") auto
  note g = heap_ok_geom [OF b'(2)]
  show "buddy_ok lo b'"
  proof (rule buddy_okI)
    show "lists_ok lo b'" "heap_ok b'" using b'(1) g(1) buddy_okD(2) [OF ok] by simp_all
    show "(m + 1) * 2 ^ k' \<le> heap_size b'" if "lo \<le> k'" "k' \<le> 12" "m \<in> fblk b' k'" for k' m
      unfolding g(2) using that sub [OF that(1,2)] by (intro buddy_okD(3) [OF ok]) auto
    show "buddy_of m \<notin> fblk b' k'" if "lo \<le> k'" "k' < 12" "m \<in> fblk b' k'" for k' m
      using buddy_okD(4) [OF ok that(1,2)] sub [of k'] that by auto
    show "blkset k1 n1 \<inter> blkset k2 n2 = {}" if "lo \<le> k1" "k1 \<le> 12" "lo \<le> k2" "k2 \<le> 12" "n1 \<in> fblk b' k1" "n2 \<in> fblk b' k2"
      "(k1, n1) \<noteq> (k2, n2)" for k1 n1 k2 n2
      using buddy_okD(5) [OF ok that(1-4) _ _ that(7)] sub [OF that(1,2)] sub [OF that(3,4)] that(5,6) by auto
  qed
  have "x \<in> farea lo b' \<longleftrightarrow> x \<in> farea lo b \<and> x \<notin> blkset k n" for x
  proof
    assume "x \<in> farea lo b'"
    then obtain k' m where m: "lo \<le> k'" "k' \<le> 12" "m \<in> fblk b k'" "(k', m) \<noteq> (k, n)" "x \<in> blkset k' m"
      using sub by (auto simp: farea_iff)
    then have "blkset k' m \<inter> blkset k n = {}" using buddy_okD(5) [OF ok m(1,2) k m(3) n] by simp
    then show "x \<in> farea lo b \<and> x \<notin> blkset k n" using m by (auto simp: farea_iff)
  next
    assume x: "x \<in> farea lo b \<and> x \<notin> blkset k n"
    then obtain k' m where m: "lo \<le> k'" "k' \<le> 12" "m \<in> fblk b k'" "x \<in> blkset k' m" by (auto simp: farea_iff)
    then have "(k', m) \<noteq> (k, n)" using x by auto
    then show "x \<in> farea lo b'" using m sub by (auto simp: farea_iff)
  qed
  then show "farea lo b' = farea lo b - blkset k n" by auto
qed

lemma add_block:
  assumes ok: "buddy_ok lo b" and k: "lo \<le> k" "k \<le> 12" and n: "blkset k n \<inter> farea lo b = {}" "(n + 1) * 2 ^ k \<le> heap_size b"
    and m: "k = 12 \<or> buddy_of n \<notin> fblk b k"
    and b': "lists_ok lo b'" "same_geom b b'" "fblk b' k = insert n (fblk b k)" "\<And>k'. lo \<le> k' \<Longrightarrow> k' \<le> 12 \<Longrightarrow> k' \<noteq> k \<Longrightarrow> fblk b' k' = fblk b k'"
  shows "buddy_ok lo b'" "farea lo b' = farea lo b \<union> blkset k n"
proof -
  have sub: "j \<in> fblk b' k' \<longleftrightarrow> j \<in> fblk b k' \<or> (k', j) = (k, n)" if "lo \<le> k'" "k' \<le> 12" for k' j
    using b'(3,4) that by (cases "k' = k") auto
  have dj: "blkset k' j \<inter> blkset k n = {}" if "lo \<le> k'" "k' \<le> 12" "j \<in> fblk b k'" for k' j
    using farea_blk [OF that] n(1) by blast
  have "(j + 1) * 2 ^ k' \<le> heap_size b" if "lo \<le> k'" "k' \<le> 12" "j \<in> fblk b' k'" for k' j
    using sub [OF that(1,2)] that(3) n(2) buddy_okD(3) [OF ok that(1,2)] by blast
  moreover have "buddy_of j \<notin> fblk b' k'" if kj: "lo \<le> k'" "k' < 12" "j \<in> fblk b' k'" for k' j
  proof
    have s: "\<And>i. i \<in> fblk b' k' \<longleftrightarrow> i \<in> fblk b k' \<or> (k', i) = (k, n)" using kj by (intro sub) auto
    assume "buddy_of j \<in> fblk b' k'"
    then consider "j \<in> fblk b k'" "buddy_of j \<in> fblk b k'" | "k' = k" "j = n" "buddy_of n \<in> fblk b k"
      | "k' = k" "buddy_of j = n" "j \<in> fblk b k" | "k' = k" "j = n" "buddy_of j = n"
      using s [of j] s [of "buddy_of j"] kj(3) by auto
    then show False using buddy_okD(4) [OF ok kj(1,2)] m kj(2) by cases auto
  qed
  moreover have "blkset k1 n1 \<inter> blkset k2 n2 = {}"
    if "lo \<le> k1" "k1 \<le> 12" "lo \<le> k2" "k2 \<le> 12" "n1 \<in> fblk b' k1" "n2 \<in> fblk b' k2" "(k1, n1) \<noteq> (k2, n2)" for k1 n1 k2 n2
  proof (cases "(k1, n1) = (k, n)")
    case True
    then have "n2 \<in> fblk b k2" using sub that by auto
    then show ?thesis using dj [of k2 n2] that True by auto
  next
    case False
    then have n1: "n1 \<in> fblk b k1" using sub that by auto
    show ?thesis
    proof (cases "(k2, n2) = (k, n)")
      case True
      then show ?thesis using dj [of k1 n1] n1 that by auto
    next
      case False
      then have "n2 \<in> fblk b k2" using sub that by auto
      then show ?thesis using buddy_okD(5) [OF ok that(1-4) n1] that(7) by blast
    qed
  qed
  ultimately show "buddy_ok lo b'"
    using b'(1) heap_ok_geom [OF b'(2)] buddy_okD(2) [OF ok] by (intro buddy_okI) simp_all
  show "farea lo b' = farea lo b \<union> blkset k n"
  proof (intro equalityI subsetI)
    fix x assume "x \<in> farea lo b'"
    then obtain k' j where j: "lo \<le> k'" "k' \<le> 12" "j \<in> fblk b' k'" "x \<in> blkset k' j" by (auto simp: farea_iff)
    then show "x \<in> farea lo b \<union> blkset k n" using sub [OF j(1,2)] by (auto simp: farea_iff)
  next
    fix x assume "x \<in> farea lo b \<union> blkset k n"
    then obtain k' j where j: "lo \<le> k'" "k' \<le> 12" "j \<in> fblk b k' \<or> (k', j) = (k, n)" "x \<in> blkset k' j"
      using k by (auto simp: farea_iff)
    then show "x \<in> farea lo b'" using sub [OF j(1,2)] by (auto simp: farea_iff)
  qed
qed

section \<open>Addresses and block numbers\<close>

definition baddr :: "buddy_t \<Rightarrow> nat \<Rightarrow> nat \<Rightarrow> u32" where
  "baddr b k n = b_start_heap b + of_nat (2 ^ k * n)"

lemma blkid2mem_nat: "blkid2mem b k (int n) = baddr b k n"
  by (simp add: blkid2mem_def baddr_def)

lemma baddr_parent: "blkid2mem b k (int n AND NOT 1) = baddr b (Suc k) (n div 2)"
  unfolding and_not_1 blkid2mem_nat by (simp add: baddr_def algebra_simps)

lemma baddr_parent_num: "blkid2mem b k (int n AND - 2) = baddr b (Suc k) (n div 2)"
  using baddr_parent [of b k n] by simp

lemma mem2blkid_baddr:
  assumes "heap_ok b" "(n + 1) * 2 ^ k \<le> heap_size b"
  shows "mem2blkid b k (baddr b k n) = int n"
proof -
  have "2 ^ k * n < heap_size b" using assms(2) less_le_trans [of "2 ^ k * n" "(n + 1) * 2 ^ k" "heap_size b"] by simp
  then have "2 ^ k * n < 2 ^ 32" using assms(1) by (simp add: heap_ok_def)
  then have "unat (drop_bit k (of_nat (2 ^ k * n) :: u32)) = n"
    by (simp add: unat_drop_bit_eq drop_bit_nat_def del: of_nat_mult of_nat_power)
  then have "uint (drop_bit k (of_nat (2 ^ k * n) :: u32)) = int n" by (metis uint_nat)
  then show ?thesis by (simp add: mem2blkid_def baddr_def)
qed

lemma blk_mark:
  assumes "heap_ok b" "6 \<le> k" "k \<le> 12" "(n + 1) * 2 ^ k \<le> heap_size b"
  shows "n div 32 < nmark b k"
proof -
  have "(n + 1) * 2 ^ k \<le> 2 ^ 17 * nmax b" using assms(1,4) by (simp add: heap_ok_def)
  also have "(2::nat) ^ 17 = 32 * 2 ^ (12 - k) * 2 ^ k" using assms(3) by (simp add: power_add [symmetric] flip: power_Suc)
  finally have "(n + 1) * 2 ^ k \<le> (32 * (nmax b * 2 ^ (12 - k))) * 2 ^ k" by (simp only: mult_ac)
  then have "n + 1 \<le> 32 * (nmax b * 2 ^ (12 - k))" by (subst (asm) mult_le_cancel2) simp
  then show ?thesis unfolding nmark_def by (simp add: less_mult_imp_div_less algebra_simps)
qed

section \<open>Freeing\<close>

lemma kfree_mark:
  assumes ok: "buddy_ok lo (buddy s)" and k: "lo \<le> k" "k \<le> 12"
    and n: "blkset k n \<inter> farea lo (buddy s) = {}" "(n + 1) * 2 ^ k \<le> heap_size (buddy s)" "k = 12 \<or> buddy_of n \<notin> fblk (buddy s) k"
  shows "runs (mark_blk k (int n)) s (\<lambda>_. area_post lo (farea lo (buddy s) \<union> blkset k n) s)"
proof -
  note d = buddy_okD(1,2) [OF ok]
  have k6: "6 \<le> k" using d(1) k by (simp add: lists_ok_def)
  have "n \<notin> fblk (buddy s) k" using farea_blk [OF k, of n "buddy s"] n(1) blkset_nonempty(2) [of n k] by blast
  from mark_law [OF d(1) k this blk_mark [OF d(2) k6 k(2) n(2)]] show ?thesis
  proof (rule runs_weaken)
    fix x t
    assume "blk_post lo k (insert n (fblk (buddy s) k)) s t"
    then obtain b where b: "t = s\<lparr>buddy := b\<rparr>" "lists_ok lo b" "same_geom (buddy s) b" "fblk b k = insert n (fblk (buddy s) k)"
      "\<And>k'. lo \<le> k' \<Longrightarrow> k' \<le> 12 \<Longrightarrow> k' \<noteq> k \<Longrightarrow> fblk b k' = fblk (buddy s) k'"
      by (auto simp: blk_post_def)
    then show "area_post lo (farea lo (buddy s) \<union> blkset k n) s t"
      using add_block [OF ok k n b(2-5)] by (auto simp: area_post_def)
  qed
qed

lemma kfree_unmark:
  assumes ok: "buddy_ok lo (buddy s)" and k: "lo \<le> k" "k \<le> 12" and n: "n \<in> fblk (buddy s) k"
  shows "runs (unmark_blk k (int n)) s (\<lambda>_. area_post lo (farea lo (buddy s) - blkset k n) s)"
  using unmark_law [OF buddy_okD(1) [OF ok] k n]
proof (rule runs_weaken)
  fix x t
  assume "blk_post lo k (fblk (buddy s) k - {n}) s t"
  then obtain b where b: "t = s\<lparr>buddy := b\<rparr>" "lists_ok lo b" "same_geom (buddy s) b" "fblk b k = fblk (buddy s) k - {n}"
    "\<And>k'. lo \<le> k' \<Longrightarrow> k' \<le> 12 \<Longrightarrow> k' \<noteq> k \<Longrightarrow> fblk b k' = fblk (buddy s) k'"
    by (auto simp: blk_post_def)
  then show "area_post lo (farea lo (buddy s) - blkset k n) s t"
    using remove_block [OF ok k n b(2-5)] by (auto simp: area_post_def)
qed

lemma area_post_trans:
  "area_post lo A s t \<Longrightarrow> area_post lo B t u \<Longrightarrow> area_post lo B s u"
proof -
  assume "area_post lo A s t" "area_post lo B t u"
  then obtain b b' where "t = s\<lparr>buddy := b\<rparr>" "same_geom (buddy s) b" "u = t\<lparr>buddy := b'\<rparr>" "buddy_ok lo b'" "same_geom b b'" "farea lo b' = B"
    by (auto simp: area_post_def)
  then show "area_post lo B s u" unfolding area_post_def by (intro exI [of _ b']) (auto intro: same_geom_trans)
qed

lemma buddy_bound:
  assumes ok: "buddy_ok lo b" and k: "lo \<le> k" "k < 12" and n: "(n + 1) * 2 ^ k \<le> heap_size b" "buddy_of n \<in> fblk b k"
  shows "(n div 2 + 1) * 2 ^ Suc k \<le> heap_size b"
proof -
  have "(buddy_of n + 1) * 2 ^ k \<le> heap_size b" using buddy_okD(3) [OF ok k(1) _ n(2)] k(2) by simp
  moreover have "(n div 2 + 1) * 2 = max n (buddy_of n) + 1" by (auto simp: buddy_of_def max_def elim!: evenE oddE)
  then have "(n div 2 + 1) * 2 ^ Suc k = (max n (buddy_of n) + 1) * 2 ^ k" by (metis mult.assoc power_Suc)
  moreover have "(max n (buddy_of n) + 1) * 2 ^ k \<le> heap_size b" using calculation(1) n(1) by (cases "n \<le> buddy_of n") (simp_all only: max_def if_True if_False simp_thms)
  ultimately show ?thesis by (simp only:)
qed

lemma kfree_law:
  assumes "buddy_ok lo (buddy s)" "lo \<le> 12 - d" "d \<le> 12"
    and "blkset (12 - d) n \<inter> farea lo (buddy s) = {}" "(n + 1) * 2 ^ (12 - d) \<le> heap_size (buddy s)"
  shows "runs (internal_kfree d (baddr (buddy s) (12 - d) n)) s (\<lambda>_. area_post lo (farea lo (buddy s) \<union> blkset (12 - d) n) s)"
  using assms
proof (induction d arbitrary: s n)
  case 0
  note ok = buddy_okD(1,2) [OF 0(1)]
  have 6: "6 \<le> lo" "geom (buddy s)" using ok(1) by (auto simp: lists_ok_def)
  have "n \<notin> fblk (buddy s) 12" using farea_blk [of lo 12 n "buddy s"] 0 blkset_nonempty(2) [of n 12] by auto
  moreover have "n div 32 < nmark (buddy s) 12" using blk_mark [OF ok(2), of 12 n] 0(5) by simp
  ultimately show ?case using 0 kfree_mark [of lo s 12 n] 6 mem2blkid_baddr [OF ok(2), of n 12]
    by (simp add: kfree_level_def MAX_ORD_def runs_get_mark fblk_def)
next
  case (Suc d)
  define k where "k = 12 - Suc d"
  have k: "lo \<le> k" "k < 12" "k \<le> 12" "12 - d = Suc k" "6 \<le> k" and gm: "geom (buddy s)"
    using Suc.prems(1-3) by (auto simp: k_def buddy_ok_def lists_ok_def)
  note n = Suc.prems(4,5) [folded k_def] and ok = buddy_okD(1,2) [OF Suc.prems(1)]
  have nf: "n \<notin> fblk (buddy s) k" using farea_blk [OF k(1,3), of n "buddy s"] n(1) blkset_nonempty(2) [of n k] by blast
  have nm: "n div 32 < nmark (buddy s) k" using blk_mark [OF ok(2) k(5,3) n(2)] .
  have bit: "bit (bitmap (markat (buddy s) k (n div 32))) (m mod 32) \<longleftrightarrow> m \<in> fblk (buddy s) k" if "m div 32 = n div 32" for m
    using that nm by (simp add: fblk_def)
  have lv: "internal_kfree (Suc d) = kfree_level k (Some (internal_kfree d))"
    by (simp only: internal_kfree.simps MAX_ORD_def k_def)
  have r: "runs (internal_kfree (Suc d) (baddr (buddy s) k n)) s Q \<longleftrightarrow>
     (if buddy_of n \<notin> fblk (buddy s) k then runs (mark_blk k (int n)) s Q
      else runs (unmark_blk k (int (buddy_of n))) s (\<lambda>_ t. runs (internal_kfree d (baddr (buddy t) (Suc k) (n div 2))) t Q))" for Q
    unfolding lv using nf bit [of n] bit [of "buddy_of n"] nm k(3,5) gm mem2blkid_baddr [OF ok(2) n(2)]
    by (simp add: kfree_level_def runs_get_mark buddy_xor baddr_parent_num Let_def)
  show ?case
  proof (cases "buddy_of n \<in> fblk (buddy s) k")
    case False
    then show ?thesis unfolding k_def [symmetric] using kfree_mark [OF Suc.prems(1) k(1,3) n] r by simp
  next
    case True
    have "runs (unmark_blk k (int (buddy_of n))) s (\<lambda>_ t. runs (internal_kfree d (baddr (buddy t) (Suc k) (n div 2))) t
        (\<lambda>_. area_post lo (farea lo (buddy s) \<union> blkset k n) s))"
      using kfree_unmark [OF Suc.prems(1) k(1,3) True]
    proof (rule runs_weaken)
      fix x t
      assume t: "area_post lo (farea lo (buddy s) - blkset k (buddy_of n)) s t"
      have par: "blkset (Suc k) (n div 2) = blkset k n \<union> blkset k (buddy_of n)" by (simp add: buddy_of_split)
      have bf: "blkset k (buddy_of n) \<subseteq> farea lo (buddy s)" using farea_blk [OF k(1,3) True] .
      have ft: "farea lo (buddy t) = farea lo (buddy s) - blkset k (buddy_of n)" "buddy_ok lo (buddy t)" "heap_size (buddy t) = heap_size (buddy s)"
        using area_postD [OF t] heap_ok_geom(2) [of "buddy s" "buddy t"] by simp_all
      have "runs (internal_kfree d (baddr (buddy t) (12 - d) (n div 2))) t
         (\<lambda>_. area_post lo (farea lo (buddy t) \<union> blkset (12 - d) (n div 2)) t)"
        by (rule Suc.IH) (use ft k n par Suc.prems(3) buddy_bound [OF Suc.prems(1) k(1,2) n(2) True] in \<open>auto\<close>)
      then have "runs (internal_kfree d (baddr (buddy t) (Suc k) (n div 2))) t
         (\<lambda>_. area_post lo (farea lo (buddy s) \<union> blkset k n) t)"
      proof -
        have "farea lo (buddy t) \<union> blkset (12 - d) (n div 2) = farea lo (buddy s) \<union> blkset k n"
          unfolding ft(1) k(4) par using bf by blast
        with \<open>runs (internal_kfree d _) t _\<close> show ?thesis unfolding k(4) by simp
      qed
      then show "runs (internal_kfree d (baddr (buddy t) (Suc k) (n div 2))) t
         (\<lambda>_. area_post lo (farea lo (buddy s) \<union> blkset k n) s)"
        by (rule runs_weaken) (rule area_post_trans [OF t])
    qed
    then show ?thesis unfolding k_def [symmetric] using True r by simp
  qed
qed

section \<open>Allocating\<close>

lemma find_bit:
  assumes "bm \<noteq> (0 :: u32)"
  obtains i where "List.find (\<lambda>i. bm AND push_bit i 1 \<noteq> 0) [0..<32] = Some i" "i < 32" "bit bm i"
proof -
  obtain j where j: "j < 32" "bit bm j" using assms ex_bit [of bm] by auto
  then obtain i where i: "List.find (\<lambda>i. bm AND push_bit i 1 \<noteq> 0) [0..<32] = Some i"
    using find_ex [of "\<lambda>i. bm AND push_bit i 1 \<noteq> 0" j "[0..<32]"] by (auto simp only: bit_iff_and_push_bit_not_eq_0 set_upt atLeastLessThan_iff)
  have "bm AND push_bit i 1 \<noteq> 0" "i < 32" using find_SomeD [OF i] by auto
  then show thesis using that [OF i] by (auto simp only: bit_iff_and_push_bit_not_eq_0)
qed

lemma head_NIL_iff:
  assumes "lists_ok lo b" "lo \<le> k" "k \<le> 12"
  shows "headat b k = NIL \<longleftrightarrow> fblk b k = {}"
proof -
  obtain xs where xs: "olist b k xs" "links xs" "nmark b k \<le> 65535" using lists_okD [OF assms] by metis
  have s: "set xs = {i. i < nmark b k \<and> bitmap (markat b k i) \<noteq> 0}" using xs(1) by (simp add: olist_def)
  have "headat b k = NIL \<longleftrightarrow> xs = []" using xs(1,2) by (cases xs) (auto simp: olist_def)
  also have "\<dots> \<longleftrightarrow> fblk b k = {}"
  proof
    assume "xs = []"
    then have "bitmap (markat b k i) = 0" if "i < nmark b k" for i using s that by auto
    then show "fblk b k = {}" by (auto simp: fblk_def)
  next
    assume e: "fblk b k = {}"
    have False if "x \<in> set xs" for x
    proof -
      from that obtain j where "x < nmark b k" "j < 32" "bit (bitmap (markat b k x)) j" using s ex_bit by auto
      then have "32 * x + j \<in> fblk b k" by (simp add: fblk_def)
      then show False using e by simp
    qed
    then show "xs = []" by (cases xs) auto
  qed
  finally show ?thesis .
qed

lemma get_blk_law:
  assumes ok: "buddy_ok lo (buddy s)" and k: "lo \<le> k" "k \<le> 12" and h: "fblk (buddy s) k \<noteq> {}"
  shows "runs (get_blk k) s (\<lambda>p t. \<exists>n \<in> fblk (buddy s) k. p = baddr (buddy s) k n \<and> area_post lo (farea lo (buddy s) - blkset k n) s t)"
proof -
  obtain xs where xs: "olist (buddy s) k xs" "links xs" "nmark (buddy s) k \<le> 65535" "geom (buddy s)" "6 \<le> k"
    using lists_okD [OF buddy_okD(1) [OF ok] k] by metis
  have "headat (buddy s) k \<noteq> NIL" using head_NIL_iff [OF buddy_okD(1) [OF ok] k] h by simp
  then obtain x xs' where x: "xs = x # xs'" "headat (buddy s) k = of_nat x" using xs(1) by (cases xs) (auto simp: olist_def)
  have "x \<in> set xs" using x by simp
  then have m: "x < nmark (buddy s) k" "bitmap (markat (buddy s) k x) \<noteq> 0" using xs(1) unfolding olist_def by auto
  obtain i where i: "List.find (\<lambda>i. bitmap (markat (buddy s) k x) AND push_bit i 1 \<noteq> 0) [0..<32] = Some i" "i < 32" "bit (bitmap (markat (buddy s) k x)) i"
    using find_bit [OF m(2)] .
  let ?n = "x * 32 + i"
  have n: "?n \<in> fblk (buddy s) k" using m i by (simp add: fblk_def)
  have "x < 65535" using m xs(3) by simp
  then have "(of_nat x * 32 + of_nat i :: u32) = of_nat ?n" "?n < 4294967296" using i(2) by simp_all
  then have u: "uint (of_nat x * 32 + of_nat i :: u32) = int ?n" by (simp only: uint_nat unat_of_nat32)
  have g: "area_post lo A s t \<Longrightarrow> blkid2mem (buddy t) k (int ?n) = baddr (buddy s) k ?n" for A t
    unfolding blkid2mem_nat using same_geom_eq(5) by (auto simp: area_post_def baddr_def)
  have "runs (unmark_blk k (int ?n)) s (\<lambda>_ t. \<exists>n \<in> fblk (buddy s) k. blkid2mem (buddy t) k (int ?n) = baddr (buddy s) k n \<and>
      area_post lo (farea lo (buddy s) - blkset k n) s t)"
    by (rule runs_weaken [OF kfree_unmark [OF ok k n]]) (use n g in blast)
  then show ?thesis using m i xs(4,5) k(2) x(2) u
    by (simp add: get_blk_def runs_ord_head runs_get_mark Let_def)
qed

text \<open>
  The result of an allocation at order \<open>k\<close>: a block of the free area, which is then no longer free, or
  no block, with nothing changed, and then no block of the order or a larger one was free.
\<close>

definition malloc_post :: "nat \<Rightarrow> nat \<Rightarrow> 'x kmem_scheme \<Rightarrow> u32 \<Rightarrow> 'x kmem_scheme \<Rightarrow> bool" where
  "malloc_post lo k s p t \<longleftrightarrow>
     (p = 0 \<and> t = s \<and> (\<forall>k'. k \<le> k' \<and> k' \<le> 12 \<longrightarrow> fblk (buddy s) k' = {})) \<or>
     (\<exists>n. p = baddr (buddy s) k n \<and> p \<noteq> 0 \<and> blkset k n \<subseteq> farea lo (buddy s) \<and> (n + 1) * 2 ^ k \<le> heap_size (buddy s) \<and>
        area_post lo (farea lo (buddy s) - blkset k n) s t)"

lemma baddr_nonzero:
  assumes "heap_ok b" "(n + 1) * 2 ^ k \<le> heap_size b"
  shows "baddr b k n \<noteq> 0" "unat (baddr b k n) = unat (b_start_heap b) + 2 ^ k * n"
proof -
  have "2 ^ k * n < heap_size b" using assms(2) less_le_trans [of "2 ^ k * n" "(n + 1) * 2 ^ k" "heap_size b"] by simp
  then have "unat (b_start_heap b) + 2 ^ k * n < 4294967296" using assms(1) by (simp add: heap_ok_def)
  then show u: "unat (baddr b k n) = unat (b_start_heap b) + 2 ^ k * n"
    unfolding baddr_def by (rule unat_add_small)
  then show "baddr b k n \<noteq> 0" using assms(1) by (metis add_is_0 heap_ok_def less_numeral_extra(3) unat_0)
qed

lemma get_blk_malloc:
  assumes ok: "buddy_ok lo (buddy s)" and k: "lo \<le> k" "k \<le> 12" and h: "fblk (buddy s) k \<noteq> {}"
  shows "runs (get_blk k) s (malloc_post lo k s)"
  using get_blk_law [OF assms]
proof (rule runs_weaken)
  fix p t
  assume "\<exists>n \<in> fblk (buddy s) k. p = baddr (buddy s) k n \<and> area_post lo (farea lo (buddy s) - blkset k n) s t"
  then obtain n where n: "n \<in> fblk (buddy s) k" "p = baddr (buddy s) k n" "area_post lo (farea lo (buddy s) - blkset k n) s t" by auto
  moreover have "(n + 1) * 2 ^ k \<le> heap_size (buddy s)" using buddy_okD(3) [OF ok k n(1)] .
  ultimately show "malloc_post lo k s p t"
    using farea_blk [OF k n(1)] baddr_nonzero(1) [OF buddy_okD(2) [OF ok]] unfolding malloc_post_def by metis
qed

lemma kmalloc_law:
  assumes "buddy_ok lo (buddy s)" "lo \<le> 12 - d" "d \<le> 12" "b_initialized (buddy s)"
  shows "runs (internal_kmalloc d) s (malloc_post lo (12 - d) s)"
  using assms
proof (induction d arbitrary: s)
  case 0
  have h: "headat (buddy s) 12 = NIL \<longleftrightarrow> fblk (buddy s) 12 = {}"
    using head_NIL_iff [OF buddy_okD(1) [OF 0(1)]] 0(2) by simp
  have "malloc_post lo 12 s 0 s" if "fblk (buddy s) 12 = {}"
    using that by (auto simp: malloc_post_def dest: le_antisym)
  then show ?case using 0 h get_blk_malloc [OF 0(1), of 12] by (simp add: runs_ord_head MAX_ORD_def)
next
  case (Suc d)
  define k where "k = 12 - Suc d"
  have k: "lo \<le> k" "k < 12" "k \<le> 12" "12 - d = Suc k" using Suc.prems(2,3) by (auto simp: k_def)
  note ok = buddy_okD(1,2) [OF Suc.prems(1)]
  have h: "headat (buddy s) k = NIL \<longleftrightarrow> fblk (buddy s) k = {}" using head_NIL_iff [OF ok(1) k(1,3)] .
  have m: "MAX_ORD - Suc d = k" by (simp add: MAX_ORD_def k_def)
  show ?case
  proof (cases "fblk (buddy s) k = {}")
    case False
    then show ?thesis unfolding k_def [symmetric] using h Suc.prems(4) get_blk_malloc [OF Suc.prems(1) k(1,3)]
      by (simp add: runs_ord_head m Let_def)
  next
    case True
    have "runs (internal_kmalloc d) s (malloc_post lo (Suc k) s)"
      using Suc.IH [of s] Suc.prems k(1,4) by simp
    then have "runs (internal_kmalloc d) s (\<lambda>up t.
        runs (kdo (kwhen (up \<noteq> 0) (internal_kfree (Suc d) (up + 2 ^ k))) (\<lambda>_. kret up)) t (malloc_post lo k s))"
    proof (rule runs_weaken)
      fix up t
      assume "malloc_post lo (Suc k) s up t"
      then consider "up = 0" "t = s" "\<forall>k'. Suc k \<le> k' \<and> k' \<le> 12 \<longrightarrow> fblk (buddy s) k' = {}"
        | n where "up = baddr (buddy s) (Suc k) n" "up \<noteq> 0" "blkset (Suc k) n \<subseteq> farea lo (buddy s)"
          "(n + 1) * 2 ^ Suc k \<le> heap_size (buddy s)" "area_post lo (farea lo (buddy s) - blkset (Suc k) n) s t"
        by (auto simp: malloc_post_def)
      then show "runs (kdo (kwhen (up \<noteq> 0) (internal_kfree (Suc d) (up + 2 ^ k))) (\<lambda>_. kret up)) t (malloc_post lo k s)"
      proof cases
        case 1
        then have "\<forall>k'. k \<le> k' \<and> k' \<le> 12 \<longrightarrow> fblk (buddy s) k' = {}" using True by (metis Suc_leI le_neq_implies_less)
        then show ?thesis using 1 by (simp add: malloc_post_def)
      next
        case (2 n)
        have sp: "blkset (Suc k) n = blkset k (2 * n) \<union> blkset k (2 * n + 1)"
          using buddy_of_split [of k "2 * n"] by (simp add: buddy_of_def)
        have dj: "blkset k (2 * n) \<inter> blkset k (2 * n + 1) = {}" by (rule blkset_disjoint) simp
        have bt: "buddy_ok lo (buddy t)" "farea lo (buddy t) = farea lo (buddy s) - blkset (Suc k) n" "same_geom (buddy s) (buddy t)"
          using area_postD [OF 2(5)] by simp_all
        have hs: "heap_size (buddy t) = heap_size (buddy s)" "b_start_heap (buddy t) = b_start_heap (buddy s)"
          using heap_ok_geom(2) [OF bt(3)] same_geom_eq(5) [OF bt(3)] by simp_all
        have up: "up = baddr (buddy s) k (2 * n)" "up + 2 ^ k = baddr (buddy t) k (2 * n + 1)"
          using 2(1) hs(2) by (simp_all add: baddr_def algebra_simps)
        have bd: "(2 * n + 1 + 1) * 2 ^ k \<le> heap_size (buddy s)" "(2 * n + 1) * 2 ^ k \<le> heap_size (buddy s)"
          using 2(4) by (simp_all add: algebra_simps)
        have "blkset k (2 * n + 1) \<inter> farea lo (buddy t) = {}" unfolding bt(2) sp by blast
        then have "runs (internal_kfree (Suc d) (baddr (buddy t) k (2 * n + 1))) t
            (\<lambda>_. area_post lo (farea lo (buddy t) \<union> blkset k (2 * n + 1)) t)"
          using bd(1) hs(1) by (intro kfree_law [where d = "Suc d", folded k_def, OF bt(1) k(1) Suc.prems(3)]) simp_all
        moreover have "farea lo (buddy t) \<union> blkset k (2 * n + 1) = farea lo (buddy s) - blkset k (2 * n)"
          unfolding bt(2) sp using dj 2(3) sp by blast
        ultimately have "runs (internal_kfree (Suc d) (up + 2 ^ k)) t (\<lambda>_. area_post lo (farea lo (buddy s) - blkset k (2 * n)) t)"
          unfolding up(2) by simp
        then have "runs (internal_kfree (Suc d) (up + 2 ^ k)) t (\<lambda>_. malloc_post lo k s up)"
        proof (rule runs_weaken)
          fix v u
          assume "area_post lo (farea lo (buddy s) - blkset k (2 * n)) t u"
          then have "area_post lo (farea lo (buddy s) - blkset k (2 * n)) s u" by (rule area_post_trans [OF 2(5)])
          moreover have "blkset k (2 * n) \<subseteq> farea lo (buddy s)" using 2(3) sp by auto
          ultimately show "malloc_post lo k s up u" using 2(2) up(1) bd(2) unfolding malloc_post_def by blast
        qed
        then show ?thesis using 2(2) by simp
      qed
    qed
    then show ?thesis unfolding k_def [symmetric] using True h Suc.prems(4) by (simp add: runs_ord_head m Let_def)
  qed
qed

section \<open>The entry points\<close>

lemma mask_aligned: "heap_ok b \<Longrightarrow> k \<le> 12 \<Longrightarrow> (n + 1) * 2 ^ k \<le> heap_size b \<Longrightarrow> baddr b k n AND (push_bit k 1 - 1) = 0"
proof -
  assume a: "heap_ok b" "k \<le> 12" "(n + 1) * 2 ^ k \<le> heap_size b"
  have "baddr b k n AND (push_bit k 1 - 1) = take_bit k (baddr b k n)"
    by (simp add: take_bit_eq_mask mask_eq_exp_minus_1)
  moreover have "(4096::nat) = 2 ^ k * 2 ^ (12 - k)" using a(2) by (simp flip: power_add)
  then have "2 ^ k dvd (4096::nat)" by (metis dvd_triv_left)
  then have "2 ^ k dvd unat (b_start_heap b)" using a(1) dvd_trans unfolding heap_ok_def by (metis mod_0_imp_dvd)
  then have "2 ^ k dvd unat (baddr b k n)" using baddr_nonzero(2) [OF a(1,3)] by simp
  then have "unat (take_bit k (baddr b k n)) = 0" 
    by (simp only: unsigned_take_bit_eq) (simp add: take_bit_eq_mod)
  ultimately show ?thesis by (simp add: unat_eq_0)
qed

lemma buddy_kmfree_law:
  assumes "L_buddy \<notin> set (held s)" "buddy_ok lo (buddy s)" "lo \<le> k" "k \<le> 12"
    and "blkset k n \<inter> farea lo (buddy s) = {}" "(n + 1) * 2 ^ k \<le> heap_size (buddy s)"
  shows "runs (buddy_kmfree (baddr (buddy s) k n) (int k)) s (\<lambda>_. area_post lo (farea lo (buddy s) \<union> blkset k n) s)"
proof -
  have k: "6 \<le> k" "MAX_ORD - k \<le> 12" "12 - (MAX_ORD - k) = k" using assms(2-4) by (auto simp: buddy_ok_def lists_ok_def MAX_ORD_def)
  let ?s = "s\<lparr>held := L_buddy # held s\<rparr>"
  have "runs (internal_kfree (MAX_ORD - k) (baddr (buddy s) k n)) ?s (\<lambda>_. area_post lo (farea lo (buddy s) \<union> blkset k n) ?s)"
    using kfree_law [of lo ?s "MAX_ORD - k" n] assms k by simp
  then have "runs (internal_kfree (MAX_ORD - k) (baddr (buddy s) k n)) ?s
      (\<lambda>_ t. runs (release_lk L_buddy) t (\<lambda>_. area_post lo (farea lo (buddy s) \<union> blkset k n) s))"
  proof (rule runs_weaken)
    fix x t
    assume "area_post lo (farea lo (buddy s) \<union> blkset k n) ?s t"
    then show "runs (release_lk L_buddy) t (\<lambda>_. area_post lo (farea lo (buddy s) \<union> blkset k n) s)"
      by (auto simp: area_post_def)
  qed
  moreover have "baddr (buddy s) k n AND (push_bit k 1 - 1) = 0"
    using mask_aligned [OF buddy_okD(2) [OF assms(2)] assms(4,6)] .
  ultimately show ?thesis using assms(1) k(1) assms(4)
    by (simp add: buddy_kmfree_def MAX_ORD_def MIN_ORD_def)
qed

lemma buddy_kmalloc_law:
  assumes "L_buddy \<notin> set (held s)" "buddy_ok lo (buddy s)" "lo \<le> k" "k \<le> 12" "b_initialized (buddy s)"
  shows "runs (buddy_kmalloc (int k)) s (malloc_post lo k s)"
proof -
  have k: "6 \<le> k" "MAX_ORD - k \<le> 12" "12 - (MAX_ORD - k) = k" using assms(2-4) by (auto simp: buddy_ok_def lists_ok_def MAX_ORD_def)
  let ?s = "s\<lparr>held := L_buddy # held s\<rparr>"
  have "runs (internal_kmalloc (MAX_ORD - k)) ?s (malloc_post lo k ?s)"
    using kmalloc_law [of lo ?s "MAX_ORD - k"] assms k by simp
  then have "runs (internal_kmalloc (MAX_ORD - k)) ?s (\<lambda>p t. runs (kdo (release_lk L_buddy) (\<lambda>_. kret p)) t (malloc_post lo k s))"
  proof (rule runs_weaken)
    fix p t
    assume "malloc_post lo k ?s p t"
    then consider "p = 0" "t = ?s" "\<forall>k'. k \<le> k' \<and> k' \<le> 12 \<longrightarrow> fblk (buddy s) k' = {}"
      | n where "p = baddr (buddy s) k n" "p \<noteq> 0" "blkset k n \<subseteq> farea lo (buddy s)"
        "(n + 1) * 2 ^ k \<le> heap_size (buddy s)" "area_post lo (farea lo (buddy s) - blkset k n) ?s t"
      by (auto simp: malloc_post_def)
    then show "runs (kdo (release_lk L_buddy) (\<lambda>_. kret p)) t (malloc_post lo k s)"
    proof cases
      case 1
      then show ?thesis by (simp add: malloc_post_def)
    next
      case (2 n)
      obtain b where b: "t = ?s\<lparr>buddy := b\<rparr>" "buddy_ok lo b" "same_geom (buddy s) b" "farea lo b = farea lo (buddy s) - blkset k n"
        using 2(5) unfolding area_post_def by auto
      have "area_post lo (farea lo (buddy s) - blkset k n) s (s\<lparr>buddy := b\<rparr>)"
        unfolding area_post_def using b(2-4) by blast
      then have "malloc_post lo k s p (s\<lparr>buddy := b\<rparr>)" unfolding malloc_post_def using 2(1-4) by blast
      then show ?thesis using b(1) by simp
    qed
  qed
  then show ?thesis using assms(1,4) k(1) by (simp add: buddy_kmalloc_def MAX_ORD_def MIN_ORD_def)
qed

section \<open>Initialisation\<close>

definition reset_mark :: mark_t where
  "reset_mark = \<lparr>lnks = LNKS NIL NIL, bitmap = 0\<rparr>"

definition reset_marks :: "nat \<Rightarrow> nat \<Rightarrow> (nat \<Rightarrow> mark_t) \<Rightarrow> nat \<Rightarrow> mark_t" where
  "reset_marks a n f = (\<lambda>m. if a \<le> m \<and> m < a + n then reset_mark else f m)"

lemma init_marks_law:
  assumes "o_offset (b_orders (buddy s) ! i) = of_nat a" "a + n < 2 ^ 32"
  shows "runs (init_marks (i + MIN_ORD) (of_nat n)) s (\<lambda>_ t. t = s\<lparr>buddy := (buddy s)\<lparr>b_marks := reset_marks a n (b_marks (buddy s))\<rparr>\<rparr>)"
proof -
  have n: "unat (of_nat n :: u32) = n" using assms(2) by (intro unat_of_nat32) simp
  let ?t = "\<lambda>j. s\<lparr>buddy := (buddy s)\<lparr>b_marks := reset_marks a j (b_marks (buddy s))\<rparr>\<rparr>"
  show ?thesis unfolding init_marks_def n
  proof (rule runs_kfor_upt [where I = "\<lambda>j t. t = ?t j"])
    have "reset_marks a 0 f = f" for f by (auto simp: reset_marks_def fun_eq_iff)
    then show "s = ?t 0" by simp
  next
    fix j t assume j: "0 \<le> j" "j < n" "t = ?t j"
    have "unat (of_nat a :: u32) + j < 4294967296" using assms(2) j by simp
    then have m: "mark_no (buddy t) (i + MIN_ORD) (of_nat j) = a + j"
      using j(3) assms by (simp add: mark_no_def unat_add_small)
    have "(m\<lparr>lnks := LNKS NIL NIL, bitmap := 0\<rparr> :: mark_t) = reset_mark" for m by (simp add: reset_mark_def)
    moreover have "(reset_marks a j f)(a + j := reset_mark) = reset_marks a (Suc j) f" for f
      by (auto simp: reset_marks_def fun_eq_iff)
    ultimately show "runs (upd_mark (i + MIN_ORD) (of_nat j) (\<lambda>m. m\<lparr>lnks := LNKS NIL NIL, bitmap := 0\<rparr>)) t (\<lambda>_ u. u = ?t (Suc j))"
      using m j(3) by (simp add: upd_mark_def Let_def)
  qed simp_all
qed

lemma init_orders_law:
  assumes "i \<le> 7" "length (b_orders (buddy s)) = 7" "N * 127 < 2 ^ 32"
  shows "runs (init_orders i (of_nat (N * (2 ^ (7 - i) - 1))) (of_nat (N * 2 ^ (7 - i)))) s (\<lambda>r t.
     r = of_nat (N * 127) \<and> (\<exists>os ms. t = s\<lparr>buddy := (buddy s)\<lparr>b_orders := os, b_marks := ms\<rparr>\<rparr> \<and> length os = 7 \<and>
       (\<forall>j < i. os ! j = \<lparr>o_head = NIL, o_offset = of_nat (N * (2 ^ (6 - j) - 1))\<rparr>) \<and>
       (\<forall>j. i \<le> j \<and> j < 7 \<longrightarrow> os ! j = b_orders (buddy s) ! j) \<and>
       (\<forall>m. N * (2 ^ (7 - i) - 1) \<le> m \<and> m < N * 127 \<longrightarrow> ms m = reset_mark) \<and>
       (\<forall>m < N * (2 ^ (7 - i) - 1). ms m = b_marks (buddy s) m)))"
  using assms
proof (induction i arbitrary: s)
  case 0
  have "s = s\<lparr>buddy := (buddy s)\<lparr>b_orders := b_orders (buddy s), b_marks := b_marks (buddy s)\<rparr>\<rparr>" by simp
  then show ?case using 0(2) by (auto intro!: exI [of _ "b_orders (buddy s)"] exI [of _ "b_marks (buddy s)"])
next
  case (Suc i)
  define a n where "a = N * (2 ^ (7 - Suc i) - 1)" and "n = N * 2 ^ (7 - Suc i)"
  have p: "7 - i = Suc (7 - Suc i)" "6 - i = 7 - Suc i" using Suc.prems(1) by auto
  have an: "a + n = N * (2 ^ (7 - i) - 1)" "2 * n = N * 2 ^ (7 - i)"
    unfolding p(1) a_def n_def by (simp_all add: algebra_simps)
  have "(2::nat) ^ (7 - i) \<le> 2 ^ 7" by (rule power_increasing) auto
  then have "a + n \<le> N * 127" unfolding an(1) by (intro mult_le_mono2) simp
  then have b: "a + n < 2 ^ 32" "a + n \<le> N * 127" using Suc.prems(3) by simp_all
  let ?os = "(b_orders (buddy s))[i := \<lparr>o_head = NIL, o_offset = of_nat a\<rparr>]"
  let ?s = "s\<lparr>buddy := (buddy s)\<lparr>b_orders := ?os\<rparr>\<rparr>"
  have i: "i < 7" "?os ! i = \<lparr>o_head = NIL, o_offset = of_nat a\<rparr>" using Suc.prems(1,2) by simp_all
  have w: "of_nat a + of_nat n = (of_nat (N * (2 ^ (7 - i) - 1)) :: u32)" "push_bit 1 (of_nat n) = (of_nat (N * 2 ^ (7 - i)) :: u32)"
    unfolding an [symmetric] by simp_all
  have "runs (init_marks (i + MIN_ORD) (of_nat n)) ?s (\<lambda>_ t. t = ?s\<lparr>buddy := (buddy ?s)\<lparr>b_marks := reset_marks a n (b_marks (buddy ?s))\<rparr>\<rparr>)"
    using i(2) b(1) by (intro init_marks_law) simp_all
  then have "runs (init_marks (i + MIN_ORD) (of_nat n)) ?s (\<lambda>_ t. runs (init_orders i (of_nat a + of_nat n) (push_bit 1 (of_nat n))) t (\<lambda>r t.
     r = of_nat (N * 127) \<and> (\<exists>os ms. t = s\<lparr>buddy := (buddy s)\<lparr>b_orders := os, b_marks := ms\<rparr>\<rparr> \<and> length os = 7 \<and>
       (\<forall>j < Suc i. os ! j = \<lparr>o_head = NIL, o_offset = of_nat (N * (2 ^ (6 - j) - 1))\<rparr>) \<and>
       (\<forall>j. Suc i \<le> j \<and> j < 7 \<longrightarrow> os ! j = b_orders (buddy s) ! j) \<and>
       (\<forall>m. a \<le> m \<and> m < N * 127 \<longrightarrow> ms m = reset_mark) \<and>
       (\<forall>m < a. ms m = b_marks (buddy s) m))))"
  proof (rule runs_weaken)
    fix x t
    assume t: "t = ?s\<lparr>buddy := (buddy ?s)\<lparr>b_marks := reset_marks a n (b_marks (buddy ?s))\<rparr>\<rparr>"
    have bt: "b_orders (buddy t) = ?os" "b_marks (buddy t) = reset_marks a n (b_marks (buddy s))" using t by simp_all
    have "i \<le> 7" "length (b_orders (buddy t)) = 7" using i(1) Suc.prems(2) bt by simp_all
    from Suc.IH [OF this Suc.prems(3)]
    show "runs (init_orders i (of_nat a + of_nat n) (push_bit 1 (of_nat n))) t (\<lambda>r t.
     r = of_nat (N * 127) \<and> (\<exists>os ms. t = s\<lparr>buddy := (buddy s)\<lparr>b_orders := os, b_marks := ms\<rparr>\<rparr> \<and> length os = 7 \<and>
       (\<forall>j < Suc i. os ! j = \<lparr>o_head = NIL, o_offset = of_nat (N * (2 ^ (6 - j) - 1))\<rparr>) \<and>
       (\<forall>j. Suc i \<le> j \<and> j < 7 \<longrightarrow> os ! j = b_orders (buddy s) ! j) \<and>
       (\<forall>m. a \<le> m \<and> m < N * 127 \<longrightarrow> ms m = reset_mark) \<and>
       (\<forall>m < a. ms m = b_marks (buddy s) m)))"
      unfolding w
    proof (rule runs_weaken, elim conjE exE)
      fix r :: u32 and u os ms
      assume r: "r = of_nat (N * 127)" and u: "u = t\<lparr>buddy := (buddy t)\<lparr>b_orders := os, b_marks := ms\<rparr>\<rparr>" "length os = 7"
        and o1: "\<forall>j < i. os ! j = \<lparr>o_head = NIL, o_offset = of_nat (N * (2 ^ (6 - j) - 1))\<rparr>"
        and o2: "\<forall>j. i \<le> j \<and> j < 7 \<longrightarrow> os ! j = b_orders (buddy t) ! j"
        and m1: "\<forall>m. N * (2 ^ (7 - i) - 1) \<le> m \<and> m < N * 127 \<longrightarrow> ms m = reset_mark"
        and m2: "\<forall>m < N * (2 ^ (7 - i) - 1). ms m = b_marks (buddy t) m"
      have "u = s\<lparr>buddy := (buddy s)\<lparr>b_orders := os, b_marks := ms\<rparr>\<rparr>" using u(1) t by simp
      moreover have "os ! i = b_orders (buddy t) ! i" using o2 i(1) by blast
      then have "os ! i = \<lparr>o_head = NIL, o_offset = of_nat (N * (2 ^ (6 - i) - 1))\<rparr>"
        unfolding p(2) a_def [symmetric] using bt(1) i(2) by simp
      then have "\<forall>j < Suc i. os ! j = \<lparr>o_head = NIL, o_offset = of_nat (N * (2 ^ (6 - j) - 1))\<rparr>"
        using o1 by (simp add: less_Suc_eq)
      moreover have "\<forall>j. Suc i \<le> j \<and> j < 7 \<longrightarrow> os ! j = b_orders (buddy s) ! j" using o2 bt(1) by simp
      moreover have "ms m = reset_mark" if "a \<le> m" "m < N * 127" for m
      proof (cases "m < a + n")
        case True
        then have "ms m = b_marks (buddy t) m" using m2 an(1) by simp
        then show ?thesis using True that(1) unfolding bt(2) by (simp add: reset_marks_def)
      next
        case False
        then show ?thesis using m1 that(2) an(1) by simp
      qed
      moreover have "ms m = b_marks (buddy s) m" if "m < a" for m
      proof -
        have "ms m = b_marks (buddy t) m" using m2 an(1) that by simp
        then show ?thesis using that unfolding bt(2) by (simp add: reset_marks_def)
      qed
      ultimately show "r = of_nat (N * 127) \<and> (\<exists>os ms. u = s\<lparr>buddy := (buddy s)\<lparr>b_orders := os, b_marks := ms\<rparr>\<rparr> \<and> length os = 7 \<and>
         (\<forall>j < Suc i. os ! j = \<lparr>o_head = NIL, o_offset = of_nat (N * (2 ^ (6 - j) - 1))\<rparr>) \<and>
         (\<forall>j. Suc i \<le> j \<and> j < 7 \<longrightarrow> os ! j = b_orders (buddy s) ! j) \<and>
         (\<forall>m. a \<le> m \<and> m < N * 127 \<longrightarrow> ms m = reset_mark) \<and> (\<forall>m < a. ms m = b_marks (buddy s) m))"
        using r u(2) by blast
    qed
  qed
  then show ?case unfolding a_def [symmetric] n_def [symmetric] by simp
qed

lemma empty_buddy:
  assumes N: "N = nmax b" and len: "length (b_orders b) = 7"
    and os: "\<forall>j < 7. b_orders b ! j = \<lparr>o_head = NIL, o_offset = of_nat (N * (2 ^ (6 - j) - 1))\<rparr>"
    and ms: "\<forall>m < N * 127. b_marks b m = reset_mark"
    and lo: "6 \<le> lo" "nmark b lo \<le> 65535" and h: "heap_ok b"
  shows "buddy_ok lo b" "farea lo b = {}"
proof -
  have pw: "(2::nat) ^ (12 - k) \<le> 2 ^ 6" if "6 \<le> k" for k using that by (intro power_increasing) auto
  have g: "geom b"
    unfolding geom_def
  proof (intro conjI allI impI)
    fix k :: nat assume k: "6 \<le> k \<and> k \<le> 12"
    have "N * (2 ^ (12 - k) - 1) \<le> 32768 * 63" unfolding N
      using pw [of k] k nmax_bound [of b] by (intro mult_le_mono) auto
    then have "unat (of_nat (N * (2 ^ (12 - k) - 1)) :: u32) = mark_base b k"
      unfolding mark_base_def N by (intro unat_of_nat32) simp
    moreover have kk: "k - 6 < 7" "6 - (k - 6) = 12 - k" using k by auto
    have "b_orders b ! (k - 6) = \<lparr>o_head = NIL, o_offset = of_nat (N * (2 ^ (12 - k) - 1))\<rparr>"
      using os [rule_format, OF kk(1)] unfolding kk(2) .
    ultimately show "unat (o_offset (b_orders b ! (k - 6))) = mark_base b k" by simp
  qed (rule len)
  have mk: "markat b k i = reset_mark" if "6 \<le> k" "k \<le> 12" "i < nmark b k" for k i
  proof -
    have "mark_base b k + i < N * (2 ^ (12 - k) - 1) + N * 2 ^ (12 - k)" using that(3) by (simp add: mark_base_def nmark_def N)
    also have "\<dots> = N * (2 * 2 ^ (12 - k) - 1)" by (simp add: diff_mult_distrib2 mult_2 distrib_left)
    also have "\<dots> \<le> N * 127" using pw [OF that(1)] by (intro mult_le_mono2) simp
    finally show ?thesis using ms by (simp add: markat_def)
  qed
  have hd: "headat b k = NIL" if "6 \<le> k" "k \<le> 12" for k using os that by (simp add: headat_def)
  have nm: "nmark b k \<le> 65535" if "lo \<le> k" for k
  proof -
    have "(2::nat) ^ (12 - k) \<le> 2 ^ (12 - lo)" using that by (intro power_increasing) auto
    then have "nmark b k \<le> nmark b lo" unfolding nmark_def by (rule mult_le_mono2)
    then show ?thesis using lo(2) by simp
  qed
  have "olist b k []" if "lo \<le> k" "k \<le> 12" for k
    using mk [of k] hd [of k] that lo(1) by (auto simp: olist_def reset_mark_def)
  then have l: "lists_ok lo b" unfolding lists_ok_def using g lo(1) nm by blast
  have f: "fblk b k = {}" if "lo \<le> k" "k \<le> 12" for k
    using mk [of k] that lo(1) by (auto simp: fblk_def reset_mark_def)
  show "buddy_ok lo b" using l h f by (intro buddy_okI) auto
  show "farea lo b = {}" using f by (auto simp: farea_def)
qed

lemma heap_size_mult: "heap_size b = 4096 * (heap_size b div 4096)"
  by (simp add: heap_size_def)

text \<open>The loop that frees the heap, from block \<open>n\<close> on.\<close>

lemma free_blocks_law:
  assumes "L_buddy \<notin> set (held s)" "buddy_ok lo (buddy s)" "lo \<le> 12" "farea lo (buddy s) = {0 ..< 4096 * n}"
    and "heap_size (buddy s) div 4096 = n + m" "m < fuel"
  shows "runs (free_blocks fuel (baddr (buddy s) 12 n)) s (\<lambda>_. area_post lo {0 ..< heap_size (buddy s)} s)"
  using assms
proof (induction m arbitrary: s n fuel)
  case 0
  obtain f where f: "fuel = Suc f" using 0(6) by (cases fuel) auto
  note h = buddy_okD(2) [OF 0(2)]
  have hs: "heap_size (buddy s) = 4096 * n" using 0(5) by (simp add: heap_size_def)
  have "unat (b_start_heap (buddy s)) + 4096 * n < 4294967296" using h hs by (simp add: heap_ok_def)
  then have u: "unat (baddr (buddy s) 12 n) = unat (b_start_heap (buddy s)) + 4096 * n"
    unfolding baddr_def using unat_add_small [of "b_start_heap (buddy s)" "2 ^ 12 * n"] by simp
  have "unat (b_end (buddy s)) \<le> unat (b_start_heap (buddy s)) + 4096 * n"
    using hs unfolding heap_size_def by linarith
  then have "\<not> baddr (buddy s) 12 n < b_end (buddy s)" using u by (simp add: word_less_nat_alt)
  moreover have "area_post lo {0 ..< heap_size (buddy s)} s s"
    unfolding area_post_def using 0(2,4) hs by (intro exI [of _ "buddy s"]) simp
  ultimately show ?case by (simp add: f)
next
  case (Suc m)
  obtain f where f: "fuel = Suc f" "m < f" using Suc.prems(6) by (cases fuel) auto
  note h = buddy_okD(2) [OF Suc.prems(2)]
  have hs: "heap_size (buddy s) = 4096 * (n + Suc m)" using Suc.prems(5) heap_size_mult [of "buddy s"] by metis
  have bd: "(n + 1) * 2 ^ 12 \<le> heap_size (buddy s)" using hs by simp
  have u: "unat (baddr (buddy s) 12 n) = unat (b_start_heap (buddy s)) + 4096 * n"
    using baddr_nonzero(2) [OF h bd] by simp
  have "heap_size (buddy s) \<le> unat (b_end (buddy s)) - unat (b_start_heap (buddy s)) + 4095"
    unfolding heap_size_def by (rule times_div_less_eq_dividend)
  then have "unat (b_start_heap (buddy s)) + 4096 * n < unat (b_end (buddy s))" unfolding hs by (simp add: less_diff_conv)
  then have l: "baddr (buddy s) 12 n < b_end (buddy s)" using u by (simp add: word_less_nat_alt)
  have dj: "blkset 12 n \<inter> farea lo (buddy s) = {}" unfolding Suc.prems(4) by (auto simp: blkset_def)
  have un: "farea lo (buddy s) \<union> blkset 12 n = {0 ..< 4096 * Suc n}" unfolding Suc.prems(4) by (auto simp: blkset_def)
  have nx: "baddr (buddy s) 12 n + push_bit MAX_ORD 1 = baddr (buddy s) 12 (Suc n)"
    by (simp add: baddr_def MAX_ORD_def)
  have "runs (buddy_kmfree (baddr (buddy s) 12 n) (int 12)) s (\<lambda>_. area_post lo {0 ..< 4096 * Suc n} s)"
    using buddy_kmfree_law [OF Suc.prems(1,2,3) _ dj bd] un by simp
  then have "runs (buddy_kmfree (baddr (buddy s) 12 n) (int 12)) s (\<lambda>_ t.
      runs (free_blocks f (baddr (buddy s) 12 (Suc n))) t (\<lambda>_. area_post lo {0 ..< heap_size (buddy s)} s))"
  proof (rule runs_weaken)
    fix x t
    assume t: "area_post lo {0 ..< 4096 * Suc n} s t"
    note p = area_postD [OF t]
    have e: "baddr (buddy s) 12 (Suc n) = baddr (buddy t) 12 (Suc n)" "heap_size (buddy t) = heap_size (buddy s)"
      using heap_ok_geom(2) [OF p(3)] same_geom_eq(5) [OF p(3)] by (simp_all add: baddr_def)
    have "held t = held s" using t by (auto simp: area_post_def)
    then have "runs (free_blocks f (baddr (buddy t) 12 (Suc n))) t (\<lambda>_. area_post lo {0 ..< heap_size (buddy t)} t)"
      using Suc.prems(1,3,5) p(1,2) e(2) f(2) by (intro Suc.IH) simp_all
    then show "runs (free_blocks f (baddr (buddy s) 12 (Suc n))) t (\<lambda>_. area_post lo {0 ..< heap_size (buddy s)} s)"
      unfolding e by (rule runs_weaken) (rule area_post_trans [OF t])
  qed
  then show ?case using l nx by (simp add: f MAX_ORD_def)
qed

lemma initialized_irrelevant:
  "buddy_ok lo (b\<lparr>b_initialized := v\<rparr>) = buddy_ok lo b" "farea lo (b\<lparr>b_initialized := v\<rparr>) = farea lo b"
  "heap_size (b\<lparr>b_initialized := v\<rparr>) = heap_size b"
proof -
  have m: "markat (b\<lparr>b_initialized := v\<rparr>) = markat b" "nmark (b\<lparr>b_initialized := v\<rparr>) = nmark b" "headat (b\<lparr>b_initialized := v\<rparr>) = headat b"
    "geom (b\<lparr>b_initialized := v\<rparr>) = geom b" "nmax (b\<lparr>b_initialized := v\<rparr>) = nmax b"
    by (simp_all add: markat_def nmark_def headat_def geom_def nmax_def mark_base_def fun_eq_iff)
  then have f: "fblk (b\<lparr>b_initialized := v\<rparr>) = fblk b" "olist (b\<lparr>b_initialized := v\<rparr>) = olist b"
    by (simp_all add: fblk_def olist_def fun_eq_iff)
  show h: "heap_size (b\<lparr>b_initialized := v\<rparr>) = heap_size b" by (simp add: heap_size_def)
  have "lists_ok lo (b\<lparr>b_initialized := v\<rparr>) = lists_ok lo b" "heap_ok (b\<lparr>b_initialized := v\<rparr>) = heap_ok b"
    by (simp_all add: lists_ok_def heap_ok_def m f h)
  then show "buddy_ok lo (b\<lparr>b_initialized := v\<rparr>) = buddy_ok lo b" by (simp add: buddy_ok_def f h)
  show "farea lo (b\<lparr>b_initialized := v\<rparr>) = farea lo b" by (simp add: farea_def f)
qed

text \<open>What \<^verbatim>\<open>buddy_init\<close> needs of its arguments; \<open>init_n\<close> is its estimate of the number of marks.\<close>

definition init_n :: "u32 \<Rightarrow> u32 \<Rightarrow> nat" where
  "init_n vs ve = unat (drop_bit 17 (ve - vs)) + 1"

definition init_args :: "nat \<Rightarrow> u32 \<Rightarrow> u32 \<Rightarrow> bool" where
  "init_args lo vs ve \<longleftrightarrow> 0 < vs \<and> vs \<le> ve \<and> unat ve + 4096 < 2 ^ 32 \<and> unat vs + 1016 * init_n vs ve + 4096 < 2 ^ 32 \<and>
     6 \<le> lo \<and> lo \<le> 12 \<and> init_n vs ve * 2 ^ (12 - lo) \<le> 65535"

definition heap_base :: "u32 \<Rightarrow> u32 \<Rightarrow> nat" where
  "heap_base vs ve = (unat vs + 1016 * init_n vs ve + 4095) div 4096 * 4096"

lemma ALIGN_UP_4096:
  assumes "unat x + 4095 < 4294967296"
  shows "unat (ALIGN_UP x (push_bit 12 1)) = (unat x + 4095) div 4096 * 4096"
proof -
  have "ALIGN_UP x (push_bit 12 1) = (x + of_nat 4095) AND NOT 0xFFF" by (simp add: ALIGN_UP_def add.commute)
  moreover have "unat (x + of_nat 4095) = unat x + 4095" using assms by (rule unat_add_small)
  ultimately show ?thesis by (simp only: unat_align_down)
qed

lemma init_heap_ok:
  assumes a: "init_args lo vs ve" and b: "b_start b = vs" "b_end b = ve" "b_start_heap b = ALIGN_UP (vs + of_nat (init_n vs ve * 127) * 8) (push_bit 12 1)"
  shows "unat (b_start_heap b) = heap_base vs ve" "heap_ok b"
proof -
  let ?N = "init_n vs ve" and ?x = "vs + of_nat (init_n vs ve * 127) * 8"
  have "?x = vs + of_nat (1016 * ?N)" by (simp add: algebra_simps)
  then have x: "unat ?x = unat vs + 1016 * ?N" using a unat_add_small [of vs "1016 * ?N"] by (simp add: init_args_def)
  have "unat ?x + 4095 < 4294967296" using a unfolding x by (simp add: init_args_def)
  then show u: "unat (b_start_heap b) = heap_base vs ve"
    unfolding b(3) heap_base_def x [symmetric] by (rule ALIGN_UP_4096)
  have le: "heap_base vs ve \<le> unat vs + 1016 * ?N + 4095" "unat vs + 1016 * ?N \<le> heap_base vs ve" "0 < ?N"
    unfolding heap_base_def by (simp, linarith, simp add: init_n_def)
  have len: "unat (ve - vs) = unat ve - unat vs" using a by (simp add: init_args_def unat_sub)
  have N: "unat ve - unat vs < 2 ^ 17 * ?N"
    unfolding len [symmetric] by (simp add: init_n_def unat_drop_bit_eq drop_bit_nat_def)
  have "unat ve - heap_base vs ve \<le> unat ve - unat vs" using le by simp
  then have "unat ve - heap_base vs ve + 4095 < 4096 * (32 * ?N) + 4096" using N by simp
  then have "(unat ve - heap_base vs ve + 4095) div 4096 \<le> 32 * ?N" by (simp add: div_less_iff_less_mult less_mult_imp_div_less flip: less_Suc_eq_le)
  then have s1: "heap_size b \<le> 2 ^ 17 * nmax b" using u b by (simp add: heap_size_def nmax_def init_n_def)
  have "heap_size b \<le> unat ve - heap_base vs ve + 4095" unfolding heap_size_def b(2) u by (rule times_div_less_eq_dividend)
  moreover have "unat vs + 1016 * ?N + 4096 < 4294967296" "unat ve + 4096 < 4294967296" using a by (simp_all add: init_args_def)
  moreover have "heap_base vs ve + (unat ve - heap_base vs ve) \<le> max (unat ve) (heap_base vs ve)" by simp
  moreover have "heap_size b = 0" if "unat ve \<le> heap_base vs ve" using that b(2) u by (simp add: heap_size_def)
  ultimately have s2: "heap_base vs ve + heap_size b < 4294967296" using le(1)
    by (cases "unat ve \<le> heap_base vs ve") (simp_all add: max_def)
  show "heap_ok b" using s1 s2 u le a by (simp add: heap_ok_def heap_base_def init_args_def word_less_nat_alt)
qed

lemma buddy_init_law:
  assumes a: "init_args lo vs ve" and s: "L_buddy \<notin> set (held s)" "length (b_orders (buddy s)) = 7"
  shows "runs (buddy_init vs ve) s (\<lambda>_ t. \<exists>b. t = s\<lparr>buddy := b\<rparr> \<and> buddy_ok lo b \<and> b_initialized b \<and> b_end b = ve \<and>
     unat (b_start_heap b) = heap_base vs ve \<and> farea lo b = {0 ..< heap_size b})"
proof -
  define N where "N = init_n vs ve"
  have N: "N \<le> 32768" unfolding N_def init_n_def using nmax_bound [of "(buddy s)\<lparr>b_start := vs, b_end := ve\<rparr>"] by (simp add: nmax_def)
  let ?s1 = "s\<lparr>buddy := (buddy s)\<lparr>b_start := vs, b_end := ve\<rparr>\<rparr>"
  let ?h = "ALIGN_UP (vs + of_nat (N * 127) * 8) (push_bit 12 1)"
  have n: "drop_bit (MAX_ORD + 5) (ve - vs) + 1 = (of_nat (N * 2 ^ (7 - 7)) :: u32)" "0 = (of_nat (N * (2 ^ (7 - 7) - 1)) :: u32)"
    by (simp_all add: N_def init_n_def MAX_ORD_def)
  have "runs (init_orders N_ORD 0 (drop_bit (MAX_ORD + 5) (ve - vs) + 1)) ?s1 (\<lambda>r t.
     r = of_nat (N * 127) \<and> (\<exists>os ms. t = ?s1\<lparr>buddy := (buddy ?s1)\<lparr>b_orders := os, b_marks := ms\<rparr>\<rparr> \<and> length os = 7 \<and>
       (\<forall>j < 7. os ! j = \<lparr>o_head = NIL, o_offset = of_nat (N * (2 ^ (6 - j) - 1))\<rparr>) \<and> (\<forall>m < N * 127. ms m = reset_mark)))"
  proof (rule runs_weaken)
    show "runs (init_orders N_ORD 0 (drop_bit (MAX_ORD + 5) (ve - vs) + 1)) ?s1 (\<lambda>r t.
       r = of_nat (N * 127) \<and> (\<exists>os ms. t = ?s1\<lparr>buddy := (buddy ?s1)\<lparr>b_orders := os, b_marks := ms\<rparr>\<rparr> \<and> length os = 7 \<and>
       (\<forall>j < 7. os ! j = \<lparr>o_head = NIL, o_offset = of_nat (N * (2 ^ (6 - j) - 1))\<rparr>) \<and>
       (\<forall>j. 7 \<le> j \<and> j < 7 \<longrightarrow> os ! j = b_orders (buddy ?s1) ! j) \<and>
       (\<forall>m. N * (2 ^ (7 - 7) - 1) \<le> m \<and> m < N * 127 \<longrightarrow> ms m = reset_mark) \<and>
       (\<forall>m < N * (2 ^ (7 - 7) - 1). ms m = b_marks (buddy ?s1) m)))"
      unfolding n N_ORD_def using init_orders_law [of 7 ?s1 N] s(2) N by (simp add: MAX_ORD_def MIN_ORD_def)
  qed (simp, blast)
  then have "runs (init_orders N_ORD 0 (drop_bit (MAX_ORD + 5) (ve - vs) + 1)) ?s1 (\<lambda>r t.
     runs (free_blocks (2 ^ 20 + 1) (ALIGN_UP (vs + r * 8) (push_bit MAX_ORD 1)))
       (t\<lparr>buddy := (buddy t)\<lparr>b_start_heap := ALIGN_UP (vs + r * 8) (push_bit MAX_ORD 1)\<rparr>\<rparr>)
       (\<lambda>_ u. \<exists>b. u\<lparr>buddy := (buddy u)\<lparr>b_initialized := True\<rparr>\<rparr> = s\<lparr>buddy := b\<rparr> \<and> buddy_ok lo b \<and> b_initialized b \<and> b_end b = ve \<and>
         unat (b_start_heap b) = heap_base vs ve \<and> farea lo b = {0 ..< heap_size b}))"
  proof (rule runs_weaken, elim conjE exE)
    fix r :: u32 and t os ms
    assume r: "r = of_nat (N * 127)" and t: "t = ?s1\<lparr>buddy := (buddy ?s1)\<lparr>b_orders := os, b_marks := ms\<rparr>\<rparr>"
      and om: "length os = 7" "\<forall>j < 7. os ! j = \<lparr>o_head = NIL, o_offset = of_nat (N * (2 ^ (6 - j) - 1))\<rparr>" "\<forall>m < N * 127. ms m = reset_mark"
    let ?b = "(buddy s)\<lparr>b_start := vs, b_start_heap := ?h, b_end := ve, b_orders := os, b_marks := ms\<rparr>"
    have h: "unat (b_start_heap ?b) = heap_base vs ve" "heap_ok ?b"
      using init_heap_ok [OF a, of ?b] by (simp_all add: N_def)
    have nm: "N = nmax ?b" "nmark ?b lo \<le> 65535" "6 \<le> lo" "lo \<le> 12"
      using a by (simp_all add: N_def nmax_def nmark_def init_n_def init_args_def)
    have ok: "buddy_ok lo ?b" "farea lo ?b = {}"
      using empty_buddy [OF nm(1) _ _ _ nm(3,2) h(2)] om by simp_all
    let ?u = "s\<lparr>buddy := ?b\<rparr>"
    have base: "baddr (buddy ?u) 12 0 = ?h" by (simp add: baddr_def)
    have "heap_size ?b \<le> 2 ^ 32" using h(2) by (simp add: heap_ok_def)
    then have f: "heap_size ?b div 4096 < 2 ^ 20 + 1" by (simp add: less_Suc_eq_le div_le_mono [of _ "2 ^ 32" 4096, simplified])
    have "runs (free_blocks (2 ^ 20 + 1) (baddr (buddy ?u) 12 0)) ?u (\<lambda>_. area_post lo {0 ..< heap_size (buddy ?u)} ?u)"
      by (rule free_blocks_law [where m = "heap_size ?b div 4096"]) (use s(1) ok nm(4) f in simp_all)
    then have "runs (free_blocks (2 ^ 20 + 1) ?h) ?u (\<lambda>_ u. \<exists>b. u\<lparr>buddy := (buddy u)\<lparr>b_initialized := True\<rparr>\<rparr> = s\<lparr>buddy := b\<rparr> \<and> buddy_ok lo b \<and>
        b_initialized b \<and> b_end b = ve \<and> unat (b_start_heap b) = heap_base vs ve \<and> farea lo b = {0 ..< heap_size b})"
      unfolding base
    proof (rule runs_weaken)
      fix x u assume u: "area_post lo {0 ..< heap_size (buddy ?u)} ?u u"
      then obtain b where b: "u = ?u\<lparr>buddy := b\<rparr>" "buddy_ok lo b" "same_geom ?b b" "farea lo b = {0 ..< heap_size ?b}"
        unfolding area_post_def by auto
      have "heap_size b = heap_size ?b" "b_end b = ve" "b_start_heap b = ?h"
        using heap_ok_geom(2) [OF b(3)] same_geom_eq(5,6) [OF b(3)] by simp_all
      then show "\<exists>b. u\<lparr>buddy := (buddy u)\<lparr>b_initialized := True\<rparr>\<rparr> = s\<lparr>buddy := b\<rparr> \<and> buddy_ok lo b \<and>
        b_initialized b \<and> b_end b = ve \<and> unat (b_start_heap b) = heap_base vs ve \<and> farea lo b = {0 ..< heap_size b}"
        using b(1,2,4) h(1) by (intro exI [of _ "b\<lparr>b_initialized := True\<rparr>"]) (simp add: initialized_irrelevant)
    qed
    moreover have "t\<lparr>buddy := (buddy t)\<lparr>b_start_heap := ?h\<rparr>\<rparr> = ?u" using t by simp
    ultimately show "runs (free_blocks (2 ^ 20 + 1) (ALIGN_UP (vs + r * 8) (push_bit MAX_ORD 1)))
       (t\<lparr>buddy := (buddy t)\<lparr>b_start_heap := ALIGN_UP (vs + r * 8) (push_bit MAX_ORD 1)\<rparr>\<rparr>)
       (\<lambda>_ u. \<exists>b. u\<lparr>buddy := (buddy u)\<lparr>b_initialized := True\<rparr>\<rparr> = s\<lparr>buddy := b\<rparr> \<and> buddy_ok lo b \<and> b_initialized b \<and> b_end b = ve \<and>
         unat (b_start_heap b) = heap_base vs ve \<and> farea lo b = {0 ..< heap_size b})"
      unfolding r MAX_ORD_def by simp
  qed
  then show ?thesis by (simp add: buddy_init_def Let_def)
qed

section \<open>Orders of sizes\<close>

lemma bit_smear:
  fixes v w :: u32
  assumes "\<And>i. bit v i \<longleftrightarrow> (\<exists>j < d. bit w (i + j))"
  shows "bit (v OR drop_bit d v) i \<longleftrightarrow> (\<exists>j < 2 * d. bit w (i + j))"
proof -
  have "bit (v OR drop_bit d v) i \<longleftrightarrow> (\<exists>j < d. bit w (i + j)) \<or> (\<exists>j < d. bit w (d + i + j))"
    by (simp add: bit_or_iff bit_drop_bit_eq assms)
  also have "\<dots> \<longleftrightarrow> (\<exists>j < 2 * d. bit w (i + j))"
  proof
    assume "(\<exists>j < d. bit w (i + j)) \<or> (\<exists>j < d. bit w (d + i + j))"
    then show "\<exists>j < 2 * d. bit w (i + j)"
    proof
      assume "\<exists>j < d. bit w (d + i + j)"
      then obtain j where "j < d" "bit w (i + (d + j))" by (auto simp: ac_simps)
      then show ?thesis by (intro exI [of _ "d + j"]) simp
    next
      assume "\<exists>j < d. bit w (i + j)"
      then obtain j where "j < d" "bit w (i + j)" by auto
      then show ?thesis by (intro exI [of _ j]) simp
    qed
  next
    assume "\<exists>j < 2 * d. bit w (i + j)"
    then obtain j where j: "j < 2 * d" "bit w (i + j)" by auto
    show "(\<exists>j < d. bit w (i + j)) \<or> (\<exists>j < d. bit w (d + i + j))"
    proof (cases "j < d")
      case False
      then have "j - d < d" "bit w (d + i + (j - d))" using j by (auto simp: ac_simps)
      then show ?thesis by auto
    qed (use j in auto)
  qed
  finally show ?thesis .
qed

lemma smear_eq:
  fixes w :: u32
  assumes "w \<noteq> 0"
  obtains h where "roundup_powerof2 (w + 1) = 2 ^ Suc h" "2 ^ h \<le> unat w" "unat w < 2 ^ Suc h" "h < 32"
proof -
  define v1 v2 v3 v4 v5 where "v1 = w OR drop_bit 1 w" and "v2 = v1 OR drop_bit 2 v1" and "v3 = v2 OR drop_bit 4 v2"
    and "v4 = v3 OR drop_bit 8 v3" and "v5 = v4 OR drop_bit 16 v4"
  have "bit w i \<longleftrightarrow> (\<exists>j < 1. bit w (i + j))" for i by simp
  then have "bit v1 i \<longleftrightarrow> (\<exists>j < 2 * 1. bit w (i + j))" for i unfolding v1_def by (rule bit_smear)
  then have "bit v2 i \<longleftrightarrow> (\<exists>j < 2 * 2. bit w (i + j))" for i unfolding v2_def by (intro bit_smear) simp
  then have "bit v3 i \<longleftrightarrow> (\<exists>j < 2 * 4. bit w (i + j))" for i unfolding v3_def by (intro bit_smear) simp
  then have "bit v4 i \<longleftrightarrow> (\<exists>j < 2 * 8. bit w (i + j))" for i unfolding v4_def by (intro bit_smear) simp
  then have v5: "bit v5 i \<longleftrightarrow> (\<exists>j < 32. bit w (i + j))" for i unfolding v5_def using bit_smear [of v4 16 w i] by simp
  define h where "h = Max {i. bit w i}"
  have fin: "finite {i. bit w i}" "{i. bit w i} \<noteq> {}" using assms ex_bit [of w]
    by (auto intro: finite_subset [of _ "{..<32}"] dest: bit_imp_le_length)
  have h: "bit w h" "h < 32" "\<And>i. bit w i \<Longrightarrow> i \<le> h"
    using Max_in [OF fin] Max_ge [OF fin(1)] by (auto simp: h_def dest: bit_imp_le_length)
  have "v5 = mask (Suc h)"
  proof (rule bit_word_eqI)
    fix i assume i: "i < LENGTH(32)"
    have "bit v5 i \<longleftrightarrow> i \<le> h"
    proof
      assume "bit v5 i"
      then obtain j where "bit w (i + j)" using v5 by auto
      then show "i \<le> h" using h(3) [of "i + j"] by simp
    next
      assume "i \<le> h"
      then have "h - i < 32" "bit w (i + (h - i))" using h(1,2) by simp_all
      then show "bit v5 i" using v5 by blast
    qed
    then show "bit v5 i \<longleftrightarrow> bit (mask (Suc h) :: u32) i" using i by (simp add: bit_mask_iff less_Suc_eq_le)
  qed
  moreover have "roundup_powerof2 (w + 1) = v5 + 1"
    unfolding roundup_powerof2_def Let_def v1_def v2_def v3_def v4_def v5_def by (simp only: add_diff_cancel_right')
  ultimately have "roundup_powerof2 (w + 1) = 2 ^ Suc h" by (simp add: mask_eq_exp_minus_1)
  moreover have "2 ^ h \<le> unat w"
  proof -
    have "bit (unat w) h" using h(1) by (simp add: bit_unsigned_iff)
    then have "odd (unat w div 2 ^ h)" unfolding bit_iff_odd .
    then have "unat w div 2 ^ h \<noteq> 0" by (metis even_zero)
    then show ?thesis by (metis div_less not_le)
  qed
  moreover have "unat w < 2 ^ Suc h"
  proof -
    have "bit w i \<Longrightarrow> i < Suc h" for i using h(3) [of i] by simp
    then have "take_bit (Suc h) w = w" by (intro bit_word_eqI) (auto simp: bit_take_bit_iff)
    then have "unat w = take_bit (Suc h) (unat w)" by (metis unsigned_take_bit_eq)
    then show ?thesis by (metis take_bit_nat_less_exp)
  qed
  ultimately show thesis using that h(2) by blast
qed

lemma find_pow2:
  assumes "k < 32"
  shows "List.find (\<lambda>i. (2 ^ k :: u32) AND push_bit i 1 \<noteq> 0) [0..<32] = Some k"
proof -
  have "(2 ^ k :: u32) AND push_bit i 1 \<noteq> 0 \<longleftrightarrow> i = k" for i
    using assms by (simp only: bit_iff_and_push_bit_not_eq_0 [symmetric]) (auto simp: bit_exp_iff)
  then show ?thesis using assms by (auto simp: find_upt_Some)
qed

lemma order_of_size:
  assumes "1 < v" "unat v \<le> 2 ^ 31"
  obtains k where "roundup_powerof2 v = 2 ^ k" "unat v \<le> 2 ^ k" "2 ^ (k - 1) < unat v" "0 < k" "k < 32"
proof -
  have v: "v - 1 \<noteq> 0" "v \<noteq> 0" using assms(1) by auto
  obtain h where h: "roundup_powerof2 (v - 1 + 1) = 2 ^ Suc h" "2 ^ h \<le> unat (v - 1)" "unat (v - 1) < 2 ^ Suc h" "h < 32"
    using smear_eq [OF v(1)] .
  have u: "unat (v - 1) = unat v - 1" "0 < unat v" using v(2) by (simp_all add: unat_minus_one unat_gt_0)
  have "(2::nat) ^ h < 2 ^ 31" using h(2) u assms(2) by linarith
  then have "h < 31" by (rule power_less_imp_less_exp [rotated]) simp
  then show thesis using h u by (intro that [of "Suc h"]) auto
qed

section \<open>Properties\<close>

text \<open>
  C11. Allocation. \<^verbatim>\<open>buddy_kmalloc\<close> on a well-formed allocator returns either the address of a naturally
  aligned block of the requested size that was free, and exactly that block leaves the free area,
  or NULL with nothing changed, and then no block of that size or larger was free. The allocator
  stays well-formed: lists and bitmaps agree, free blocks are disjoint, inside the heap and merged.
\<close>

theorem buddy_kmalloc_correct:
  assumes "L_buddy \<notin> set (held s)" "buddy_ok lo (buddy s)" "lo \<le> k" "k \<le> 12" "b_initialized (buddy s)"
  shows "runs (buddy_kmalloc (int k)) s (\<lambda>p t.
     p = 0 \<and> t = s \<and> (\<forall>k'. k \<le> k' \<and> k' \<le> 12 \<longrightarrow> fblk (buddy s) k' = {}) \<or>
     (\<exists>n. p = baddr (buddy s) k n \<and> p \<noteq> 0 \<and> p AND (2 ^ k - 1) = 0 \<and> blkset k n \<subseteq> farea lo (buddy s) \<and>
        t = s\<lparr>buddy := buddy t\<rparr> \<and> buddy_ok lo (buddy t) \<and> farea lo (buddy t) = farea lo (buddy s) - blkset k n))"
proof (rule runs_weaken [OF buddy_kmalloc_law [OF assms]])
  fix p t assume "malloc_post lo k s p t"
  then consider "p = 0" "t = s" "\<forall>k'. k \<le> k' \<and> k' \<le> 12 \<longrightarrow> fblk (buddy s) k' = {}"
    | n where "p = baddr (buddy s) k n" "p \<noteq> 0" "blkset k n \<subseteq> farea lo (buddy s)"
      "(n + 1) * 2 ^ k \<le> heap_size (buddy s)" "area_post lo (farea lo (buddy s) - blkset k n) s t"
    by (auto simp: malloc_post_def)
  then show "p = 0 \<and> t = s \<and> (\<forall>k'. k \<le> k' \<and> k' \<le> 12 \<longrightarrow> fblk (buddy s) k' = {}) \<or>
     (\<exists>n. p = baddr (buddy s) k n \<and> p \<noteq> 0 \<and> p AND (2 ^ k - 1) = 0 \<and> blkset k n \<subseteq> farea lo (buddy s) \<and>
        t = s\<lparr>buddy := buddy t\<rparr> \<and> buddy_ok lo (buddy t) \<and> farea lo (buddy t) = farea lo (buddy s) - blkset k n)"
  proof cases
    case (2 n)
    have "p AND (2 ^ k - 1) = 0" using mask_aligned [OF buddy_okD(2) [OF assms(2)] assms(4) 2(4)] 2(1) by simp
    then show ?thesis using 2 area_postD [OF 2(5)] by blast
  qed simp
qed

text \<open>
  C12. Freeing. \<^verbatim>\<open>buddy_kmfree\<close> of a block of the heap that is not free (so in particular of a block just
  allocated) returns, adds exactly that block to the free area, and keeps the allocator
  well-formed, merging buddies as far as possible.
\<close>

theorem buddy_kmfree_correct:
  assumes "L_buddy \<notin> set (held s)" "buddy_ok lo (buddy s)" "lo \<le> k" "k \<le> 12"
    and "blkset k n \<inter> farea lo (buddy s) = {}" "(n + 1) * 2 ^ k \<le> heap_size (buddy s)"
  shows "runs (buddy_kmfree (baddr (buddy s) k n) (int k)) s (\<lambda>_ t. t = s\<lparr>buddy := buddy t\<rparr> \<and>
     buddy_ok lo (buddy t) \<and> farea lo (buddy t) = farea lo (buddy s) \<union> blkset k n)"
proof (rule runs_weaken [OF buddy_kmfree_law [OF assms]])
  fix x t assume "area_post lo (farea lo (buddy s) \<union> blkset k n) s t"
  from area_postD [OF this] show "t = s\<lparr>buddy := buddy t\<rparr> \<and> buddy_ok lo (buddy t) \<and> farea lo (buddy t) = farea lo (buddy s) \<union> blkset k n"
    by (intro conjI)
qed

text \<open>
  C13. Initialisation. \<^verbatim>\<open>buddy_init\<close> ends, and leaves an initialised, well-formed allocator whose free
  area is the whole heap, which starts behind the array of marks.
\<close>

theorem buddy_init_correct:
  assumes "init_args lo vstart vend" "L_buddy \<notin> set (held s)" "length (b_orders (buddy s)) = 7"
  shows "runs (buddy_init vstart vend) s (\<lambda>_ t. buddy_ok lo (buddy t) \<and> b_initialized (buddy t) \<and> held t = held s \<and>
     unat (b_start_heap (buddy t)) = heap_base vstart vend \<and> farea lo (buddy t) = {0 ..< heap_size (buddy t)})"
  by (rule runs_weaken [OF buddy_init_law [OF assms]]) auto

text \<open>A small heap for the witnesses.\<close>

definition demo_kmem :: kmem where
  "demo_kmem = \<lparr>held = [], mem = (\<lambda>_. 0), freelist = 0,
     buddy = \<lparr>b_start = 0, b_start_heap = 0, b_end = 0, b_initialized = False,
       b_orders = replicate 7 \<lparr>o_head = 0, o_offset = 0\<rparr>, b_marks = (\<lambda>_. \<lparr>lnks = 0, bitmap = 0\<rparr>)\<rparr>,
     current_allocator = FREELIST, kend = 0, kdata = 0\<rparr>"

lemma demo_init_args: "init_args 6 0x10000 0x20000" "heap_base 0x10000 0x20000 = 0x11000"
proof -
  have "init_n 0x10000 0x20000 = 1" by (simp add: init_n_def unat_drop_bit_eq drop_bit_nat_def)
  then show "init_args 6 0x10000 0x20000" "heap_base 0x10000 0x20000 = 0x11000"
    by (simp_all add: init_args_def heap_base_def)
qed

lemma demo_heap_size: "unat (b_start_heap b) = 0x11000 \<Longrightarrow> b_end b = 0x20000 \<Longrightarrow> heap_size b = 0xF000"
  by (simp add: heap_size_def)

theorem buddy_init_correct_witness:
  "runs (buddy_init 0x10000 0x20000) demo_kmem (\<lambda>_ t. buddy_ok 6 (buddy t) \<and> b_initialized (buddy t) \<and> held t = [] \<and>
     unat (b_start_heap (buddy t)) = 0x11000 \<and> farea 6 (buddy t) = {0 ..< heap_size (buddy t)})"
  using buddy_init_correct [OF demo_init_args(1), of demo_kmem] demo_init_args(2) by (simp add: demo_kmem_def)

lemma demo_heap_up:
  "runs (buddy_init 0x10000 0x20000) demo_kmem (\<lambda>_ t. buddy_ok 6 (buddy t) \<and> b_initialized (buddy t) \<and> held t = [] \<and>
     heap_size (buddy t) = 0xF000 \<and> farea 6 (buddy t) = {0 ..< 0xF000})"
  by (rule runs_weaken [OF buddy_init_law [OF demo_init_args(1), of demo_kmem]])
    (auto simp: demo_kmem_def demo_init_args(2) demo_heap_size)

theorem buddy_kmalloc_correct_witness:
  "runs (kdo (buddy_init 0x10000 0x20000) (\<lambda>_. buddy_kmalloc 6)) demo_kmem (\<lambda>p t. p \<noteq> 0 \<and> buddy_ok 6 (buddy t) \<and>
     (\<exists>n. farea 6 (buddy t) = {0 ..< 0xF000} - blkset 6 n \<and> blkset 6 n \<subseteq> {0 ..< 0xF000}))"
  unfolding runs_kdo
proof (rule runs_weaken [OF demo_heap_up])
  fix x :: unit and s :: kmem
  assume s: "buddy_ok 6 (buddy s) \<and> b_initialized (buddy s) \<and> held s = [] \<and> heap_size (buddy s) = 0xF000 \<and> farea 6 (buddy s) = {0 ..< 0xF000}"
  then have f: "farea 6 (buddy s) = {0 ..< 0xF000}" by simp
  then have ne: "\<not> (\<forall>k'. 6 \<le> k' \<and> k' \<le> 12 \<longrightarrow> fblk (buddy s) k' = {})" using farea_iff [of 0 6 "buddy s"] by auto
  have "runs (buddy_kmalloc (int 6)) s (\<lambda>p t.
     p = 0 \<and> t = s \<and> (\<forall>k'. 6 \<le> k' \<and> k' \<le> 12 \<longrightarrow> fblk (buddy s) k' = {}) \<or>
     (\<exists>n. p = baddr (buddy s) 6 n \<and> p \<noteq> 0 \<and> p AND (2 ^ 6 - 1) = 0 \<and> blkset 6 n \<subseteq> farea 6 (buddy s) \<and>
        t = s\<lparr>buddy := buddy t\<rparr> \<and> buddy_ok 6 (buddy t) \<and> farea 6 (buddy t) = farea 6 (buddy s) - blkset 6 n))"
    using s by (intro buddy_kmalloc_correct) simp_all
  then show "runs (buddy_kmalloc 6) s (\<lambda>p t. p \<noteq> 0 \<and> buddy_ok 6 (buddy t) \<and>
     (\<exists>n. farea 6 (buddy t) = {0 ..< 0xF000} - blkset 6 n \<and> blkset 6 n \<subseteq> {0 ..< 0xF000}))"
    unfolding of_nat_numeral by (rule runs_weaken) (use ne f in auto)
qed

theorem buddy_kmfree_correct_witness:
  "\<exists>(s :: kmem) n. blkset 6 n \<subseteq> {0 ..< 0xF000} \<and> farea 6 (buddy s) = {0 ..< 0xF000} - blkset 6 n \<and>
     runs (buddy_kmfree (baddr (buddy s) 6 n) 6) s (\<lambda>_ t. buddy_ok 6 (buddy t) \<and> farea 6 (buddy t) = {0 ..< 0xF000})"
proof -
  have "runs (kdo (buddy_init 0x10000 0x20000) (\<lambda>_. buddy_kmalloc 6)) demo_kmem (\<lambda>p t. held t = [] \<and> buddy_ok 6 (buddy t) \<and>
     heap_size (buddy t) = 0xF000 \<and> (\<exists>n. farea 6 (buddy t) = {0 ..< 0xF000} - blkset 6 n \<and> blkset 6 n \<subseteq> {0 ..< 0xF000} \<and> (n + 1) * 2 ^ 6 \<le> 0xF000))"
    unfolding runs_kdo
  proof (rule runs_weaken [OF demo_heap_up])
    fix x :: unit and s :: kmem
    assume s: "buddy_ok 6 (buddy s) \<and> b_initialized (buddy s) \<and> held s = [] \<and> heap_size (buddy s) = 0xF000 \<and> farea 6 (buddy s) = {0 ..< 0xF000}"
    then have f: "farea 6 (buddy s) = {0 ..< 0xF000}" by simp
    then have ne: "\<not> (\<forall>k'. 6 \<le> k' \<and> k' \<le> 12 \<longrightarrow> fblk (buddy s) k' = {})" using farea_iff [of 0 6 "buddy s"] by auto
    have "runs (buddy_kmalloc (int 6)) s (malloc_post 6 6 s)" using s by (intro buddy_kmalloc_law) simp_all
    then show "runs (buddy_kmalloc 6) s (\<lambda>p t. held t = [] \<and> buddy_ok 6 (buddy t) \<and>
     heap_size (buddy t) = 0xF000 \<and> (\<exists>n. farea 6 (buddy t) = {0 ..< 0xF000} - blkset 6 n \<and> blkset 6 n \<subseteq> {0 ..< 0xF000} \<and> (n + 1) * 2 ^ 6 \<le> 0xF000))"
      unfolding of_nat_numeral
    proof (rule runs_weaken)
      fix p t assume "malloc_post 6 6 s p t"
      then obtain n where n: "blkset 6 n \<subseteq> farea 6 (buddy s)" "(n + 1) * 2 ^ 6 \<le> heap_size (buddy s)" "area_post 6 (farea 6 (buddy s) - blkset 6 n) s t"
        using ne by (auto simp: malloc_post_def)
      note t = area_postD [OF n(3)]
      have "held t = []" using s t(4) n(3) by (auto simp: area_post_def)
      then show "held t = [] \<and> buddy_ok 6 (buddy t) \<and>
        heap_size (buddy t) = 0xF000 \<and> (\<exists>n. farea 6 (buddy t) = {0 ..< 0xF000} - blkset 6 n \<and> blkset 6 n \<subseteq> {0 ..< 0xF000} \<and> (n + 1) * 2 ^ 6 \<le> 0xF000)"
        using t n heap_ok_geom(2) [OF t(3)] s by auto
    qed
  qed
  then obtain t :: kmem and n where t: "held t = []" "buddy_ok 6 (buddy t)" "heap_size (buddy t) = 0xF000"
    "farea 6 (buddy t) = {0 ..< 0xF000} - blkset 6 n" "blkset 6 n \<subseteq> {0 ..< 0xF000}" "(n + 1) * 2 ^ 6 \<le> 0xF000"
    by (auto simp: runs_iff)
  have "{0 ..< 0xF000} - blkset 6 n \<union> blkset 6 n = {0 ..< 0xF000}" using t(5) by blast
  then have "runs (buddy_kmfree (baddr (buddy t) 6 n) (int 6)) t (\<lambda>_ u. buddy_ok 6 (buddy u) \<and> farea 6 (buddy u) = {0 ..< 0xF000})"
    using buddy_kmfree_correct [of t 6 6 n] t by (auto elim: runs_weaken)
  then show ?thesis using t by (intro exI [of _ t] exI [of _ n]) simp
qed




end
