(* ===== verification/Kalloc.thy ===== *)
theory Kalloc
  imports Buddy_Spec
begin

text \<open>
  Page allocation. The free-list allocator of \<^verbatim>\<open>src/kern/mm/freelist.c\<close> keeps its list inside the
  free pages themselves; \<^verbatim>\<open>src/kern/mm/kalloc.c\<close> dispatches to it or to the buddy allocator.

  The locale \<open>page_allocator\<close> is the contract the rest of the kernel relies on: allocation takes a
  page out of the set of free pages, freeing puts it back, and writes to pages that are not free do
  not disturb the allocator. It is interpreted on the free list, on the buddy allocator used for
  pages, and on \<^verbatim>\<open>kalloc\<close>/\<^verbatim>\<open>kfree\<close>.
\<close>

section \<open>The free list\<close>

definition freelist_free :: "u32 \<Rightarrow> ('x kmem_scheme, unit) kop" where
  "freelist_free v =
     kdo (kget kend) (\<lambda>e.
     if v mod PGSIZE \<noteq> 0 \<or> v < e \<or> V2P v \<ge> PHYSTOP then kpanic ''kfree''
     else
     kdo (kmod (\<lambda>s. s\<lparr>mem := memset (mem s) v 1 PGSIZE\<rparr>)) (\<lambda>_.
     kdo (kmod (\<lambda>s. s\<lparr>mem := store32 (mem s) v (freelist s)\<rparr>)) (\<lambda>_.
     kmod (\<lambda>s. s\<lparr>freelist := v\<rparr>))))"

definition freelist_alloc :: "('x kmem_scheme, u32) kop" where
  "freelist_alloc =
     kdo (kget freelist) (\<lambda>r.
     kdo (kwhen (r \<noteq> 0) (kmod (\<lambda>s. s\<lparr>freelist := load32 (mem s) r\<rparr>))) (\<lambda>_.
     kret r))"

section \<open>The allocator switch\<close>

definition switch_allocator :: "allocator_id \<Rightarrow> ('x kmem_scheme, unit) kop" where
  "switch_allocator i = kmod (\<lambda>s. s\<lparr>current_allocator := i\<rparr>)"

definition kalloc :: "('x kmem_scheme, u32) kop" where
  "kalloc =
     kdo (kget current_allocator) (\<lambda>a.
     case a of FREELIST \<Rightarrow> freelist_alloc | BUDDY \<Rightarrow> buddy_alloc_page)"

definition kfree :: "u32 \<Rightarrow> ('x kmem_scheme, unit) kop" where
  "kfree p =
     kdo (kget current_allocator) (\<lambda>a.
     case a of FREELIST \<Rightarrow> freelist_free p | BUDDY \<Rightarrow> buddy_free_page p)"

text \<open>The pointer of \<^verbatim>\<open>freerange\<close> repeats after \<open>2 ^ 20\<close> pages, so a loop that runs longer never ends.\<close>

primrec freerange_from :: "nat \<Rightarrow> u32 \<Rightarrow> u32 \<Rightarrow> ('x kmem_scheme, unit) kop" where
  "freerange_from 0 p vend = kfail Diverge"
| "freerange_from (Suc n) p vend =
     (if p + PGSIZE \<le> vend then kdo (kfree p) (\<lambda>_. freerange_from n (p + PGSIZE) vend) else kret ())"

definition freerange :: "u32 \<Rightarrow> u32 \<Rightarrow> ('x kmem_scheme, unit) kop" where
  "freerange vstart vend = freerange_from (2 ^ 20 + 1) (PGROUNDUP vstart) vend"

definition freelist_init :: "u32 \<Rightarrow> u32 \<Rightarrow> ('x kmem_scheme, unit) kop" where
  "freelist_init vstart vend = freerange vstart vend"

definition initmem :: "u32 \<Rightarrow> u32 \<Rightarrow> ('x kmem_scheme, unit) kop" where
  "initmem vstart vend =
     kdo (kget current_allocator) (\<lambda>a.
     case a of FREELIST \<Rightarrow> freelist_init vstart vend | BUDDY \<Rightarrow> buddy_init vstart vend)"

text \<open>
  \<^verbatim>\<open>buddy_kmalloc2\<close> calls \<^verbatim>\<open>kmalloc\<close>, which calls \<^verbatim>\<open>buddy_kmalloc2\<close>. The depth of the call stack is
  the first argument of \<open>kmalloc\<close>; \<^verbatim>\<open>sizeof(mblock_t)\<close> is 4.
\<close>

definition buddy_kmalloc2 :: "(u32 \<Rightarrow> ('x kmem_scheme, u32) kop) \<Rightarrow> u32 \<Rightarrow> ('x kmem_scheme, u32) kop" where
  "buddy_kmalloc2 km sz =
     kdo (buddy_get_order (sz + 4 + 1)) (\<lambda>order.
     kdo (km (word_of_int order)) (\<lambda>blk.
     kdo (kmod (\<lambda>s. s\<lparr>mem := store32 (mem s) blk (word_of_int order)\<rparr>)) (\<lambda>_.
     kret (blk + 4))))"

primrec kmalloc :: "nat \<Rightarrow> u32 \<Rightarrow> ('x kmem_scheme, u32) kop" where
  "kmalloc 0 sz = kfail Diverge"
| "kmalloc (Suc n) sz =
     kdo (kget current_allocator) (\<lambda>a.
     case a of
       FREELIST \<Rightarrow> kpanic ''Current allocator doesn't support dynamic size.''
     | BUDDY \<Rightarrow> buddy_kmalloc2 (kmalloc n) sz)"

definition kmfree :: "u32 \<Rightarrow> ('x kmem_scheme, unit) kop" where
  "kmfree p =
     kdo (kget current_allocator) (\<lambda>a.
     case a of
       FREELIST \<Rightarrow> kpanic ''Current allocator doesn't support dynamic size.''
     | BUDDY \<Rightarrow> buddy_kmfree2 p)"

section \<open>Pages\<close>

definition page_aligned :: "u32 \<Rightarrow> bool" where
  "page_aligned p \<longleftrightarrow> unat p mod 4096 = 0"

lemma page_alignedE:
  assumes "page_aligned p"
  obtains k where "unat p = 4096 * k" "k < 2 ^ 20"
proof -
  have "unat p = 4096 * (unat p div 4096)" using assms div_mult_mod_eq [of "unat p" 4096] unfolding page_aligned_def by linarith
  moreover have "unat p div 4096 < 2 ^ 20" using unsigned_less [of p, where ?'a = nat] by simp
  ultimately show thesis by (rule that)
qed

lemma page_aligned_mod: "v mod PGSIZE = 0 \<longleftrightarrow> page_aligned v"
  by (simp add: page_aligned_def PGSIZE_def word_unat_eq_iff unat_mod)

lemma page_aligned_round [simp]: "page_aligned (PGROUNDDOWN x)"
  by (simp add: page_aligned_def unat_PGROUNDDOWN)

text \<open>An address lies on an aligned page exactly if it rounds down to it.\<close>

lemma in_page:
  assumes "page_aligned p"
  shows "x - p < 4096 \<longleftrightarrow> PGROUNDDOWN x = p"
proof -
  obtain k where k: "unat p = 4096 * k" "k < 2 ^ 20" using assms by (rule page_alignedE)
  have x: "unat x < 4294967296" using unsigned_less [of x, where ?'a = nat] by simp
  have "PGROUNDDOWN x = p \<longleftrightarrow> unat x div 4096 = k" using k by (simp add: word_unat_eq_iff unat_PGROUNDDOWN)
  also have "\<dots> \<longleftrightarrow> 4096 * k \<le> unat x \<and> unat x < 4096 * k + 4096" by auto
  also have "\<dots> \<longleftrightarrow> x - p < 4096"
  proof (cases "p \<le> x")
    case True
    then have "unat (x - p) = unat x - 4096 * k" by (simp add: unat_sub k)
    then show ?thesis using True k by (auto simp: word_less_nat_alt word_le_nat_alt)
  next
    case False
    then have l: "unat x < 4096 * k" using k by (simp add: word_le_nat_alt)
    have "unat (x - p) = 4294967296 + unat x - 4096 * k"
      using l k x by (simp add: unat_sub_if_size word_size word_le_nat_alt)
    then show ?thesis using l k by (auto simp: word_less_nat_alt)
  qed
  finally show ?thesis by simp
qed

lemma PGROUNDDOWN_self: "page_aligned p \<Longrightarrow> PGROUNDDOWN p = p"
  using in_page [of p p] by simp

lemma PGROUNDDOWN_add: "page_aligned p \<Longrightarrow> w < 4096 \<Longrightarrow> PGROUNDDOWN (p + w) = p"
  using in_page [of p "p + w"] by simp

lemma load32_cong: "(\<And>x. PGROUNDDOWN x = p \<Longrightarrow> m x = m' x) \<Longrightarrow> page_aligned p \<Longrightarrow> w \<le> 4092 \<Longrightarrow> load32 m (p + w) = load32 m' (p + w)"
proof -
  assume a: "\<And>x. PGROUNDDOWN x = p \<Longrightarrow> m x = m' x" "page_aligned p" "w \<le> 4092"
  have "m (p + w + i) = m' (p + w + i)" if "i < 4" for i
  proof -
    have "w + i < 4096" using a(3) that by unat_arith
    then show ?thesis using a(1) [of "p + (w + i)"] PGROUNDDOWN_add [OF a(2), of "w + i"] by (simp add: add.assoc)
  qed
  from this [of 0] this [of 1] this [of 2] this [of 3] show ?thesis by (simp add: load32_def)
qed

section \<open>The contract of a page allocator\<close>

text \<open>What a page allocator may change of the kernel state.\<close>

definition only_mem :: "'x kmem_scheme \<Rightarrow> 'x kmem_scheme \<Rightarrow> bool" where
  "only_mem s t \<longleftrightarrow> (\<exists>m f b. t = s\<lparr>mem := m, freelist := f, buddy := b\<rparr>)"

lemma only_memI: "t = s\<lparr>mem := m, freelist := f, buddy := b\<rparr> \<Longrightarrow> only_mem s t"
  unfolding only_mem_def by blast

lemma only_mem_refl [simp]: "only_mem s s"
  by (rule only_memI [where m = "mem s" and f = "freelist s" and b = "buddy s"]) simp

lemma only_mem_upd [simp]:
  "only_mem s (s\<lparr>mem := m\<rparr>)" "only_mem s (s\<lparr>freelist := f\<rparr>)" "only_mem s (s\<lparr>buddy := b\<rparr>)"
  "only_mem s (s\<lparr>mem := m, freelist := f\<rparr>)"
  by (rule only_memI [where m = m and f = "freelist s" and b = "buddy s"], simp)
    (rule only_memI [where m = "mem s" and f = f and b = "buddy s"], simp,
     rule only_memI [where m = "mem s" and f = "freelist s" and b = b], simp,
     rule only_memI [where m = m and f = f and b = "buddy s"], simp)

lemma only_mem_trans: "only_mem s t \<Longrightarrow> only_mem t u \<Longrightarrow> only_mem s u"
proof -
  assume "only_mem s t" "only_mem t u"
  then obtain m f b m' f' b' where "t = s\<lparr>mem := m, freelist := f, buddy := b\<rparr>" "u = t\<lparr>mem := m', freelist := f', buddy := b'\<rparr>"
    unfolding only_mem_def by blast
  then show "only_mem s u" by (intro only_memI [where m = m' and f = f' and b = b']) simp
qed

lemma only_mem_frame:
  assumes "only_mem s t" "\<And>m f b. g (s\<lparr>mem := m, freelist := f, buddy := b\<rparr>) = g s"
  shows "g t = g s"
  using assms by (auto simp: only_mem_def)

lemma only_mem_same:
  assumes "only_mem s t"
  shows "held t = held s" "current_allocator t = current_allocator s" "kend t = kend s" "kdata t = kdata s"
  using assms by (auto simp: only_mem_def)

locale page_allocator =
  fixes alloc :: "('x kmem_scheme, u32) kop" and free :: "u32 \<Rightarrow> ('x kmem_scheme, unit) kop"
    and ok :: "'x kmem_scheme \<Rightarrow> bool" and pages :: "'x kmem_scheme \<Rightarrow> u32 set"
    and page :: "'x kmem_scheme \<Rightarrow> u32 \<Rightarrow> bool"
  assumes alloc_law: "ok s \<Longrightarrow> runs alloc s (\<lambda>p t. only_mem s t \<and> ok t \<and> mem t = mem s \<and> page t = page s \<and>
      (p = 0 \<and> pages s = {} \<and> pages t = {} \<or> p \<in> pages s \<and> pages t = pages s - {p}))"
    and free_law: "ok s \<Longrightarrow> page s p \<Longrightarrow> p \<notin> pages s \<Longrightarrow> runs (free p) s (\<lambda>_ t. only_mem s t \<and> ok t \<and> page t = page s \<and>
      pages t = insert p (pages s) \<and> (\<forall>x. PGROUNDDOWN x \<noteq> p \<longrightarrow> mem t x = mem s x))"
    and write_law: "ok s \<Longrightarrow> (\<And>x. PGROUNDDOWN x \<in> pages s \<Longrightarrow> m x = mem s x) \<Longrightarrow>
      ok (s\<lparr>mem := m\<rparr>) \<and> pages (s\<lparr>mem := m\<rparr>) = pages s \<and> page (s\<lparr>mem := m\<rparr>) = page s"
    and pages_page: "ok s \<Longrightarrow> p \<in> pages s \<Longrightarrow> page s p"
    and page_aligned: "ok s \<Longrightarrow> page s p \<Longrightarrow> page_aligned p"
    and page_range: "ok s \<Longrightarrow> page s p \<Longrightarrow> KERNBASE < p \<and> V2P p < PHYSTOP"
begin

lemma page_nonzero: "ok s \<Longrightarrow> page s p \<Longrightarrow> p \<noteq> 0"
  using page_range [of s p] by auto

text \<open>A page taken, written and given back: the free pages are as before, and so is every other page.\<close>

lemma use_and_return:
  assumes "ok s" "pages s \<noteq> {}"
  shows "runs (kdo alloc (\<lambda>p. kdo (kmod (\<lambda>s. s\<lparr>mem := mem_set (mem s) p c 4096\<rparr>)) (\<lambda>_. kdo (free p) (\<lambda>_. kret p)))) s
    (\<lambda>p t. p \<in> pages s \<and> ok t \<and> pages t = pages s \<and> (\<forall>x. PGROUNDDOWN x \<noteq> p \<longrightarrow> mem t x = mem s x))"
  unfolding runs_kdo
proof (rule runs_weaken [OF alloc_law [OF assms(1)]], elim conjE)
  fix p t
  assume t: "only_mem s t" "ok t" "mem t = mem s" "page t = page s" "p = 0 \<and> pages s = {} \<and> pages t = {} \<or> p \<in> pages s \<and> pages t = pages s - {p}"
  then have p: "p \<in> pages s" "pages t = pages s - {p}" using assms(2) by auto
  have a: "page_aligned p" using page_aligned [OF assms(1) pages_page [OF assms(1) p(1)]] .
  let ?u = "t\<lparr>mem := mem_set (mem t) p c 4096\<rparr>"
  have same: "mem_set (mem t) p c 4096 x = mem s x" if "PGROUNDDOWN x \<noteq> p" for x
    using that in_page [OF a] t(3) by (simp add: mem_set_def)
  have u: "ok ?u" "pages ?u = pages s - {p}" "page ?u = page s"
    using write_law [OF t(2), of "mem_set (mem t) p c 4096"] same p(2) t(3,4) by auto
  have "page ?u p" using u(3) pages_page [OF assms(1) p(1)] by simp
  from free_law [OF u(1) this] u(2) show "runs (kmod (\<lambda>s. s\<lparr>mem := mem_set (mem s) p c 4096\<rparr>)) t (\<lambda>x s'. runs (free p) s' (\<lambda>x s'.
      runs (kret p) s' (\<lambda>p t. p \<in> pages s \<and> ok t \<and> pages t = pages s \<and> (\<forall>x. PGROUNDDOWN x \<noteq> p \<longrightarrow> mem t x = mem s x))))"
    using p(1) same by (auto elim!: runs_weaken)
qed

end

section \<open>The free list implements the contract\<close>

primrec flist :: "memory \<Rightarrow> u32 \<Rightarrow> u32 list \<Rightarrow> bool" where
  "flist m p [] \<longleftrightarrow> p = 0"
| "flist m p (q # qs) \<longleftrightarrow> p = q \<and> p \<noteq> 0 \<and> flist m (load32 m p) qs"

definition fl_page :: "'x kmem_scheme \<Rightarrow> u32 \<Rightarrow> bool" where
  "fl_page s p \<longleftrightarrow> page_aligned p \<and> kend s \<le> p \<and> KERNBASE < p \<and> V2P p < PHYSTOP"

definition fl_list :: "'x kmem_scheme \<Rightarrow> u32 list \<Rightarrow> bool" where
  "fl_list s ps \<longleftrightarrow> flist (mem s) (freelist s) ps \<and> distinct ps \<and> (\<forall>p \<in> set ps. fl_page s p)"

definition fl_ok :: "'x kmem_scheme \<Rightarrow> bool" where
  "fl_ok s \<longleftrightarrow> (\<exists>ps. fl_list s ps)"

definition fl_pages :: "'x kmem_scheme \<Rightarrow> u32 set" where
  "fl_pages s = {p. \<exists>ps. fl_list s ps \<and> p \<in> set ps}"

lemma flist_unique: "flist m p ps \<Longrightarrow> flist m p qs \<Longrightarrow> ps = qs"
proof (induction ps arbitrary: p qs)
  case Nil then show ?case by (cases qs) auto
next
  case (Cons a ps) then show ?case by (cases qs) auto
qed

lemma fl_pages_eq: "fl_list s ps \<Longrightarrow> fl_pages s = set ps"
proof -
  assume a: "fl_list s ps"
  have "ps' = ps" if "fl_list s ps'" for ps' using flist_unique a that unfolding fl_list_def by metis
  then show "fl_pages s = set ps" using a unfolding fl_pages_def by blast
qed

lemma flist_cong:
  assumes "\<And>x. PGROUNDDOWN x \<in> set ps \<Longrightarrow> m x = m' x" "\<forall>p \<in> set ps. page_aligned p"
  shows "flist m p ps = flist m' p ps"
  using assms
proof (induction ps arbitrary: p)
  case (Cons q qs)
  have "load32 m q = load32 m' q" using load32_cong [of q m m' 0] Cons.prems by simp
  then show ?case using Cons by auto
qed simp

lemma fl_alloc:
  assumes "fl_ok s"
  shows "runs freelist_alloc s (\<lambda>p t. only_mem s t \<and> fl_ok t \<and> mem t = mem s \<and> fl_page t = fl_page s \<and>
      (p = 0 \<and> fl_pages s = {} \<and> fl_pages t = {} \<or> p \<in> fl_pages s \<and> fl_pages t = fl_pages s - {p}))"
proof -
  obtain ps where ps: "fl_list s ps" using assms by (auto simp: fl_ok_def)
  show ?thesis
  proof (cases ps)
    case Nil
    then show ?thesis using ps assms fl_pages_eq [OF ps] by (simp add: freelist_alloc_def fl_list_def)
  next
    case (Cons q qs)
    let ?t = "s\<lparr>freelist := load32 (mem s) q\<rparr>"
    have q: "freelist s = q" "q \<noteq> 0" and t: "fl_list ?t qs" and d: "q \<notin> set qs"
      using ps Cons by (auto simp: fl_list_def fl_page_def)
    have "fl_pages ?t = set qs" "fl_pages s = insert q (set qs)" using fl_pages_eq [OF t] fl_pages_eq [OF ps] Cons by simp_all
    moreover have "fl_ok ?t" using t by (auto simp: fl_ok_def)
    ultimately show ?thesis using q d by (auto simp: freelist_alloc_def fl_page_def fun_eq_iff)
  qed
qed

text \<open>The bytes of a page after it has been freed: the link and the junk behind it.\<close>

definition fl_fill :: "memory \<Rightarrow> u32 \<Rightarrow> u32 \<Rightarrow> memory" where
  "fl_fill m p f = store32 (memset m p 1 PGSIZE) p f"

lemma fl_fill_other: "page_aligned p \<Longrightarrow> PGROUNDDOWN x \<noteq> p \<Longrightarrow> fl_fill m p f x = m x"
proof -
  assume a: "page_aligned p" "PGROUNDDOWN x \<noteq> p"
  then have "\<not> x - p < 4096" using in_page by blast
  moreover have "\<not> x - p < 4" using calculation by unat_arith
  ultimately show ?thesis by (simp add: fl_fill_def store32_def memset_eq mem_set_def PGSIZE_def)
qed

lemma fl_free:
  assumes "fl_ok s" "fl_page s p" "p \<notin> fl_pages s"
  shows "runs (freelist_free p) s (\<lambda>_ t. only_mem s t \<and> fl_ok t \<and> fl_page t = fl_page s \<and>
      fl_pages t = insert p (fl_pages s) \<and> (\<forall>x. PGROUNDDOWN x \<noteq> p \<longrightarrow> mem t x = mem s x))"
proof -
  obtain ps where ps: "fl_list s ps" using assms(1) by (auto simp: fl_ok_def)
  have p: "page_aligned p" "kend s \<le> p" "KERNBASE < p" "V2P p < PHYSTOP" "p \<noteq> 0" using assms(2) by (auto simp: fl_page_def)
  have n: "p \<notin> set ps" using assms(3) fl_pages_eq [OF ps] by simp
  let ?m = "fl_fill (mem s) p (freelist s)"
  let ?t = "s\<lparr>mem := ?m, freelist := p\<rparr>"
  have "load32 ?m p = freelist s" by (simp add: fl_fill_def)
  moreover have "?m x = mem s x" if "PGROUNDDOWN x \<in> set ps" for x
    using that n by (intro fl_fill_other [OF p(1)]) auto
  then have "flist ?m (freelist s) ps \<longleftrightarrow> flist (mem s) (freelist s) ps"
    using ps by (intro flist_cong) (auto simp: fl_list_def fl_page_def)
  ultimately have t: "fl_list ?t (p # ps)" using ps p n by (auto simp: fl_list_def fl_page_def)
  have "fl_pages ?t = insert p (fl_pages s)" using fl_pages_eq [OF t] fl_pages_eq [OF ps] by simp
  moreover have "fl_ok ?t" using t by (auto simp: fl_ok_def)
  ultimately show ?thesis
    using p fl_fill_other [OF p(1)]
    by (simp add: freelist_free_def fl_fill_def page_aligned_mod not_less not_le fl_page_def fun_eq_iff)
qed

lemma fl_write:
  assumes "fl_ok s" "\<And>x. PGROUNDDOWN x \<in> fl_pages s \<Longrightarrow> m x = mem s x"
  shows "fl_ok (s\<lparr>mem := m\<rparr>) \<and> fl_pages (s\<lparr>mem := m\<rparr>) = fl_pages s \<and> fl_page (s\<lparr>mem := m\<rparr>) = fl_page s"
proof -
  obtain ps where ps: "fl_list s ps" using assms(1) by (auto simp: fl_ok_def)
  have "flist m (freelist s) ps \<longleftrightarrow> flist (mem s) (freelist s) ps"
    using ps assms(2) fl_pages_eq [OF ps] by (intro flist_cong) (auto simp: fl_list_def fl_page_def)
  then have t: "fl_list (s\<lparr>mem := m\<rparr>) ps" using ps by (auto simp: fl_list_def fl_page_def)
  then show ?thesis using fl_pages_eq [OF t] fl_pages_eq [OF ps] by (auto simp: fl_ok_def fl_page_def fun_eq_iff)
qed

interpretation flp: page_allocator freelist_alloc freelist_free fl_ok fl_pages fl_page
proof
  show "page_aligned p" if "fl_page s p" for s :: "'a kmem_scheme" and p using that by (simp add: fl_page_def)
  show "KERNBASE < p \<and> V2P p < PHYSTOP" if "fl_page s p" for s :: "'a kmem_scheme" and p using that by (simp add: fl_page_def)
  show "fl_page s p" if "fl_ok s" "p \<in> fl_pages s" for s :: "'a kmem_scheme" and p
    using that by (auto simp: fl_pages_def fl_list_def)
qed (use fl_alloc fl_free fl_write in blast)+

section \<open>The buddy allocator, used for pages, implements the contract\<close>

definition bd_ok :: "'x kmem_scheme \<Rightarrow> bool" where
  "bd_ok s \<longleftrightarrow> L_buddy \<notin> set (held s) \<and> buddy_ok 12 (buddy s) \<and> b_initialized (buddy s) \<and>
     KERNBASE < b_start_heap (buddy s) \<and> unat (b_start_heap (buddy s)) + heap_size (buddy s) \<le> unat (P2V PHYSTOP)"

definition bd_page :: "'x kmem_scheme \<Rightarrow> u32 \<Rightarrow> bool" where
  "bd_page s p \<longleftrightarrow> (\<exists>n. p = baddr (buddy s) 12 n \<and> (n + 1) * 4096 \<le> heap_size (buddy s))"

definition bd_pages :: "'x kmem_scheme \<Rightarrow> u32 set" where
  "bd_pages s = baddr (buddy s) 12 ` fblk (buddy s) 12"

lemma blkset_12: "x \<in> blkset 12 n \<longleftrightarrow> x div 4096 = n"
proof -
  have "x mod 4096 < 4096" by simp
  then show ?thesis using div_mult_mod_eq [of x 4096] unfolding blkset_def by (auto intro!: div_nat_eqI)
qed

lemma farea_12: "n * 4096 \<in> farea 12 b \<longleftrightarrow> n \<in> fblk b 12" "blkset 12 n \<subseteq> farea 12 b \<longleftrightarrow> n \<in> fblk b 12"
  "blkset 12 n \<inter> farea 12 b = {} \<longleftrightarrow> n \<notin> fblk b 12"
proof -
  have f: "x \<in> farea 12 b \<longleftrightarrow> x div 4096 \<in> fblk b 12" for x unfolding farea_def by (simp add: blkset_12)
  show "n * 4096 \<in> farea 12 b \<longleftrightarrow> n \<in> fblk b 12" unfolding f by simp
  have "n * 4096 \<in> blkset 12 n" "\<And>x. x \<in> blkset 12 n \<Longrightarrow> x \<in> farea 12 b \<longleftrightarrow> n \<in> fblk b 12" by (simp_all add: blkset_12 f)
  then show "blkset 12 n \<subseteq> farea 12 b \<longleftrightarrow> n \<in> fblk b 12" "blkset 12 n \<inter> farea 12 b = {} \<longleftrightarrow> n \<notin> fblk b 12"
    by blast+
qed

lemma fblk_12_diff:
  assumes "farea 12 b' = farea 12 b - blkset 12 n" shows "fblk b' 12 = fblk b 12 - {n}"
proof -
  have "i \<in> fblk b' 12 \<longleftrightarrow> i \<in> fblk b 12 \<and> i \<noteq> n" for i
    using farea_12(1) [of i b'] farea_12(1) [of i b] blkset_12 [of "i * 4096" n] unfolding assms by simp
  then show ?thesis by auto
qed

lemma fblk_12_union:
  assumes "farea 12 b' = farea 12 b \<union> blkset 12 n" shows "fblk b' 12 = insert n (fblk b 12)"
proof -
  have "i \<in> fblk b' 12 \<longleftrightarrow> i \<in> fblk b 12 \<or> i = n" for i
    using farea_12(1) [of i b'] farea_12(1) [of i b] blkset_12 [of "i * 4096" n] unfolding assms by simp
  then show ?thesis by auto
qed

lemma baddr_12_inj:
  assumes "heap_ok b" "(i + 1) * 4096 \<le> heap_size b" "(j + 1) * 4096 \<le> heap_size b" "baddr b 12 i = baddr b 12 j"
  shows "i = j"
proof -
  have e: "(i + 1) * 2 ^ 12 \<le> heap_size b" "(j + 1) * 2 ^ 12 \<le> heap_size b" using assms(2,3) by simp_all
  have "2 ^ 12 * i = 2 ^ 12 * j"
    using baddr_nonzero(2) [OF assms(1) e(1)] baddr_nonzero(2) [OF assms(1) e(2)] unfolding assms(4) by linarith
  then show ?thesis by simp
qed

lemma bd_post:
  assumes "bd_ok s" "area_post 12 A s t"
  shows "only_mem s t" "bd_ok t" "mem t = mem s" "bd_page t = bd_page s" "baddr (buddy t) = baddr (buddy s)" "farea 12 (buddy t) = A"
proof -
  note p = area_postD [OF assms(2)]
  have t: "t = s\<lparr>buddy := buddy t\<rparr>" by (rule p(4))
  show "only_mem s t" by (subst t) simp
  show "mem t = mem s" by (subst t) simp
  have h: "held t = held s" by (subst t) simp
  have g: "b_start_heap (buddy t) = b_start_heap (buddy s)" "b_initialized (buddy t) = b_initialized (buddy s)"
    using p(3) by (simp_all add: same_geom_def)
  show "baddr (buddy t) = baddr (buddy s)" unfolding baddr_def g ..
  then show "bd_page t = bd_page s" unfolding bd_page_def fun_eq_iff heap_ok_geom(2) [OF p(3)] by simp
  show "bd_ok t" using assms(1) p(1) unfolding bd_ok_def h g heap_ok_geom(2) [OF p(3)] by simp
  show "farea 12 (buddy t) = A" by (rule p(2))
qed

lemma bd_bound: "bd_ok s \<Longrightarrow> n \<in> fblk (buddy s) 12 \<Longrightarrow> (n + 1) * 4096 \<le> heap_size (buddy s)"
  using buddy_okD(3) [of 12 "buddy s" 12 n] by (simp add: bd_ok_def)

lemma bd_inj: "bd_ok s \<Longrightarrow> inj_on (baddr (buddy s) 12) {n. (n + 1) * 4096 \<le> heap_size (buddy s)}"
  using baddr_12_inj [of "buddy s"] buddy_okD(2) [of 12 "buddy s"] by (auto simp: bd_ok_def inj_on_def)

lemma bd_free_bound: "bd_ok s \<Longrightarrow> fblk (buddy s) 12 \<subseteq> {n. (n + 1) * 4096 \<le> heap_size (buddy s)}"
  using bd_bound by blast

lemma bd_alloc:
  assumes "bd_ok s"
  shows "runs buddy_alloc_page s (\<lambda>p t. only_mem s t \<and> bd_ok t \<and> mem t = mem s \<and> bd_page t = bd_page s \<and>
      (p = 0 \<and> bd_pages s = {} \<and> bd_pages t = {} \<or> p \<in> bd_pages s \<and> bd_pages t = bd_pages s - {p}))"
proof -
  have "runs (buddy_kmalloc (int 12)) s (malloc_post 12 12 s)"
    using assms by (intro buddy_kmalloc_law) (auto simp: bd_ok_def)
  then show ?thesis unfolding buddy_alloc_page_def PGSIZE_ORDER_def of_nat_numeral
  proof (rule runs_weaken)
    fix p t assume "malloc_post 12 12 s p t"
    then consider "p = 0" "t = s" "fblk (buddy s) 12 = {}"
      | n where "p = baddr (buddy s) 12 n" "blkset 12 n \<subseteq> farea 12 (buddy s)" "area_post 12 (farea 12 (buddy s) - blkset 12 n) s t"
      unfolding malloc_post_def by auto
    then show "only_mem s t \<and> bd_ok t \<and> mem t = mem s \<and> bd_page t = bd_page s \<and>
      (p = 0 \<and> bd_pages s = {} \<and> bd_pages t = {} \<or> p \<in> bd_pages s \<and> bd_pages t = bd_pages s - {p})"
    proof cases
      case 1 then show ?thesis using assms by (simp add: bd_pages_def)
    next
      case (2 n)
      have n: "n \<in> fblk (buddy s) 12" using 2(2) farea_12 by blast
      have f: "fblk (buddy t) 12 = fblk (buddy s) 12 - {n}" by (rule fblk_12_diff [OF bd_post(6) [OF assms 2(3)]])
      have "bd_pages t = bd_pages s - {p}"
        unfolding bd_pages_def bd_post(5) [OF assms 2(3)] f 2(1)
        using inj_on_image_set_diff [OF bd_inj [OF assms], of "fblk (buddy s) 12" "{n}"] bd_free_bound [OF assms] n by auto
      then show ?thesis using bd_post(1-4) [OF assms 2(3)] n 2(1) by (auto simp: bd_pages_def)
    qed
  qed
qed

lemma bd_free:
  assumes "bd_ok s" "bd_page s p" "p \<notin> bd_pages s"
  shows "runs (buddy_free_page p) s (\<lambda>_ t. only_mem s t \<and> bd_ok t \<and> bd_page t = bd_page s \<and>
      bd_pages t = insert p (bd_pages s) \<and> (\<forall>x. PGROUNDDOWN x \<noteq> p \<longrightarrow> mem t x = mem s x))"
proof -
  obtain n where n: "p = baddr (buddy s) 12 n" "(n + 1) * 4096 \<le> heap_size (buddy s)" using assms(2) by (auto simp: bd_page_def)
  have "n \<notin> fblk (buddy s) 12" using assms(3) n(1) by (auto simp: bd_pages_def)
  then have "runs (buddy_kmfree p (int 12)) s (\<lambda>_. area_post 12 (farea 12 (buddy s) \<union> blkset 12 n) s)"
    unfolding n(1) using assms(1) n(2) farea_12(3) by (intro buddy_kmfree_law) (auto simp: bd_ok_def)
  then show ?thesis unfolding buddy_free_page_def PGSIZE_ORDER_def of_nat_numeral
  proof (rule runs_weaken)
    fix x t assume a: "area_post 12 (farea 12 (buddy s) \<union> blkset 12 n) s t"
    have f: "fblk (buddy t) 12 = insert n (fblk (buddy s) 12)" by (rule fblk_12_union [OF bd_post(6) [OF assms(1) a]])
    have "bd_pages t = insert p (bd_pages s)" unfolding bd_pages_def bd_post(5) [OF assms(1) a] f n(1) by simp
    then show "only_mem s t \<and> bd_ok t \<and> bd_page t = bd_page s \<and>
      bd_pages t = insert p (bd_pages s) \<and> (\<forall>x. PGROUNDDOWN x \<noteq> p \<longrightarrow> mem t x = mem s x)"
      using bd_post(1-4) [OF assms(1) a] by simp
  qed
qed

lemma bd_page_addr:
  assumes "bd_ok s" "bd_page s p"
  shows "page_aligned p" "KERNBASE < p \<and> V2P p < PHYSTOP"
proof -
  obtain n where n: "p = baddr (buddy s) 12 n" "(n + 1) * 4096 \<le> heap_size (buddy s)" using assms(2) by (auto simp: bd_page_def)
  have h: "heap_ok (buddy s)" using buddy_okD(2) assms(1) by (auto simp: bd_ok_def)
  then have u: "unat p = unat (b_start_heap (buddy s)) + 4096 * n" using baddr_nonzero(2) [of "buddy s" n 12] n by simp
  then show "page_aligned p" using h by (simp add: page_aligned_def heap_ok_def)
  have b: "KERNBASE < b_start_heap (buddy s)" "unat (b_start_heap (buddy s)) + heap_size (buddy s) \<le> unat (P2V PHYSTOP)"
    using assms(1) by (simp_all add: bd_ok_def)
  have k: "KERNBASE < p" using b(1) u by (simp add: word_less_nat_alt)
  moreover have "unat p < unat (P2V PHYSTOP)" using b(2) u n(2) by simp
  then have "unat p < 2382364672" by (simp add: P2V_def PHYSTOP_def KERNBASE_def)
  then have "V2P p < PHYSTOP" using k by (simp add: V2P_def PHYSTOP_def KERNBASE_def word_less_nat_alt unat_sub_if_size word_size word_le_nat_alt)
  ultimately show "KERNBASE < p \<and> V2P p < PHYSTOP" ..
qed

interpretation bdp: page_allocator buddy_alloc_page buddy_free_page bd_ok bd_pages bd_page
proof
  show "bd_page s p" if "bd_ok s" "p \<in> bd_pages s" for s :: "'a kmem_scheme" and p
    using that bd_bound [OF that(1)] by (auto simp: bd_pages_def bd_page_def)
  show "bd_ok (s\<lparr>mem := m\<rparr>) \<and> bd_pages (s\<lparr>mem := m\<rparr>) = bd_pages s \<and> bd_page (s\<lparr>mem := m\<rparr>) = bd_page s"
    if "bd_ok s" for s :: "'a kmem_scheme" and m
    using that by (simp add: bd_ok_def bd_pages_def bd_page_def fun_eq_iff)
qed (use bd_alloc bd_free bd_page_addr in blast)+

section \<open>The dispatched allocator implements the contract\<close>

definition ka_ok :: "'x kmem_scheme \<Rightarrow> bool" where
  "ka_ok s \<longleftrightarrow> (case current_allocator s of FREELIST \<Rightarrow> fl_ok s | BUDDY \<Rightarrow> bd_ok s)"

definition ka_page :: "'x kmem_scheme \<Rightarrow> u32 \<Rightarrow> bool" where
  "ka_page s = (case current_allocator s of FREELIST \<Rightarrow> fl_page s | BUDDY \<Rightarrow> bd_page s)"

definition ka_pages :: "'x kmem_scheme \<Rightarrow> u32 set" where
  "ka_pages s = (case current_allocator s of FREELIST \<Rightarrow> fl_pages s | BUDDY \<Rightarrow> bd_pages s)"

lemma ka_alloc:
  assumes "ka_ok s"
  shows "runs kalloc s (\<lambda>p t. only_mem s t \<and> ka_ok t \<and> mem t = mem s \<and> ka_page t = ka_page s \<and>
      (p = 0 \<and> ka_pages s = {} \<and> ka_pages t = {} \<or> p \<in> ka_pages s \<and> ka_pages t = ka_pages s - {p}))"
proof (cases "current_allocator s")
  case FREELIST
  then have "runs freelist_alloc s (\<lambda>p t. only_mem s t \<and> fl_ok t \<and> mem t = mem s \<and> fl_page t = fl_page s \<and>
      (p = 0 \<and> fl_pages s = {} \<and> fl_pages t = {} \<or> p \<in> fl_pages s \<and> fl_pages t = fl_pages s - {p}))"
    using assms by (intro flp.alloc_law) (simp add: ka_ok_def)
  then show ?thesis using FREELIST
    by (simp add: kalloc_def) (erule runs_weaken, elim conjE, simp add: only_mem_same ka_ok_def ka_page_def ka_pages_def)
next
  case BUDDY
  then have "runs buddy_alloc_page s (\<lambda>p t. only_mem s t \<and> bd_ok t \<and> mem t = mem s \<and> bd_page t = bd_page s \<and>
      (p = 0 \<and> bd_pages s = {} \<and> bd_pages t = {} \<or> p \<in> bd_pages s \<and> bd_pages t = bd_pages s - {p}))"
    using assms by (intro bdp.alloc_law) (simp add: ka_ok_def)
  then show ?thesis using BUDDY
    by (simp add: kalloc_def) (erule runs_weaken, elim conjE, simp add: only_mem_same ka_ok_def ka_page_def ka_pages_def)
qed

lemma ka_free:
  assumes "ka_ok s" "ka_page s p" "p \<notin> ka_pages s"
  shows "runs (kfree p) s (\<lambda>_ t. only_mem s t \<and> ka_ok t \<and> ka_page t = ka_page s \<and>
      ka_pages t = insert p (ka_pages s) \<and> (\<forall>x. PGROUNDDOWN x \<noteq> p \<longrightarrow> mem t x = mem s x))"
proof (cases "current_allocator s")
  case FREELIST
  then have "runs (freelist_free p) s (\<lambda>_ t. only_mem s t \<and> fl_ok t \<and> fl_page t = fl_page s \<and>
      fl_pages t = insert p (fl_pages s) \<and> (\<forall>x. PGROUNDDOWN x \<noteq> p \<longrightarrow> mem t x = mem s x))"
    using assms by (intro flp.free_law) (simp_all add: ka_ok_def ka_page_def ka_pages_def)
  then show ?thesis using FREELIST
    by (simp add: kfree_def) (erule runs_weaken, elim conjE, simp add: only_mem_same ka_ok_def ka_page_def ka_pages_def)
next
  case BUDDY
  then have "runs (buddy_free_page p) s (\<lambda>_ t. only_mem s t \<and> bd_ok t \<and> bd_page t = bd_page s \<and>
      bd_pages t = insert p (bd_pages s) \<and> (\<forall>x. PGROUNDDOWN x \<noteq> p \<longrightarrow> mem t x = mem s x))"
    using assms by (intro bdp.free_law) (simp_all add: ka_ok_def ka_page_def ka_pages_def)
  then show ?thesis using BUDDY
    by (simp add: kfree_def) (erule runs_weaken, elim conjE, simp add: only_mem_same ka_ok_def ka_page_def ka_pages_def)
qed

interpretation kap: page_allocator kalloc kfree ka_ok ka_pages ka_page
proof
  show "ka_ok (s\<lparr>mem := m\<rparr>) \<and> ka_pages (s\<lparr>mem := m\<rparr>) = ka_pages s \<and> ka_page (s\<lparr>mem := m\<rparr>) = ka_page s"
    if "ka_ok s" "\<And>x. PGROUNDDOWN x \<in> ka_pages s \<Longrightarrow> m x = mem s x" for s :: "'a kmem_scheme" and m
    using that flp.write_law [of s m] bdp.write_law [of s m]
    by (cases "current_allocator s") (simp_all add: ka_ok_def ka_page_def ka_pages_def)
  show "ka_page s p" if "ka_ok s" "p \<in> ka_pages s" for s :: "'a kmem_scheme" and p
    using that flp.pages_page [of s p] bdp.pages_page [of s p]
    by (cases "current_allocator s") (simp_all add: ka_ok_def ka_page_def ka_pages_def)
  show "page_aligned p" if "ka_ok s" "ka_page s p" for s :: "'a kmem_scheme" and p
    using that flp.page_aligned [of s p] bdp.page_aligned [of s p]
    by (cases "current_allocator s") (simp_all add: ka_ok_def ka_page_def ka_pages_def)
  show "KERNBASE < p \<and> V2P p < PHYSTOP" if "ka_ok s" "ka_page s p" for s :: "'a kmem_scheme" and p
    using that flp.page_range [of s p] bdp.page_range [of s p]
    by (cases "current_allocator s") (simp_all add: ka_ok_def ka_page_def ka_pages_def)
qed (use ka_alloc ka_free in blast)+

section \<open>Filling the free list\<close>

lemma PGSIZE_step:
  assumes "page_aligned p" "unat p + 4096 < 2 ^ 32"
  shows "page_aligned (p + PGSIZE)" "unat (p + PGSIZE) = unat p + 4096"
proof -
  show u: "unat (p + PGSIZE) = unat p + 4096" using assms(2) by (simp add: PGSIZE_def unat_word_ariths)
  show "page_aligned (p + PGSIZE)" using assms(1) unfolding page_aligned_def u by simp
qed

text \<open>The pages \<^verbatim>\<open>freerange\<close> frees when it stands at \<open>p\<close>.\<close>

definition page_range :: "u32 \<Rightarrow> u32 \<Rightarrow> u32 set" where
  "page_range p vend = {q. page_aligned q \<and> p \<le> q \<and> unat q + 4096 \<le> unat vend}"

lemma page_range_step:
  assumes "page_aligned p" "unat p + 4096 \<le> unat vend"
  shows "page_range p vend = insert p (page_range (p + PGSIZE) vend)" "p \<notin> page_range (p + PGSIZE) vend"
proof -
  have v: "unat vend < 2 ^ 32" using unsigned_less [of vend, where ?'a = nat] by simp
  note st = PGSIZE_step [OF assms(1) le_less_trans [OF assms(2) v]]
  have "q = p \<or> p + PGSIZE \<le> q" if q: "page_aligned q" "p \<le> q" for q
  proof -
    obtain i where i: "unat p = 4096 * i" using page_alignedE [OF assms(1)] by blast
    obtain j where j: "unat q = 4096 * j" using page_alignedE [OF q(1)] by blast
    have "i = j \<or> i + 1 \<le> j" using q(2) i j by (auto simp: word_le_nat_alt)
    then show ?thesis using st(2) i j by (auto simp: word_le_nat_alt word_unat_eq_iff)
  qed
  moreover have "p \<le> q" if "p + PGSIZE \<le> q" for q using that st(2) by (simp add: word_le_nat_alt)
  ultimately show "page_range p vend = insert p (page_range (p + PGSIZE) vend)" using assms unfolding page_range_def by auto
  show "p \<notin> page_range (p + PGSIZE) vend" using st(2) by (auto simp: page_range_def word_le_nat_alt)
qed

lemma page_range_empty: "\<not> unat p + 4096 \<le> unat vend \<Longrightarrow> page_range p vend = {}"
  by (auto simp: page_range_def word_le_nat_alt)

lemma runs_freerange_from:
  assumes "current_allocator s = FREELIST" "fl_ok s" "page_aligned p" "unat p + 4096 < 2 ^ 32"
    and "kend s \<le> p" "KERNBASE < p" "unat vend \<le> unat (P2V PHYSTOP)" "fl_pages s \<inter> page_range p vend = {}"
    and "unat vend < unat p + 4096 * n" "0 < n"
  shows "runs (freerange_from n p vend) s (\<lambda>_ t. only_mem s t \<and> fl_ok t \<and> fl_pages t = fl_pages s \<union> page_range p vend)"
  using assms
proof (induction n arbitrary: p s)
  case (Suc n)
  note st = PGSIZE_step [OF Suc.prems(3,4)]
  show ?case
  proof (cases "p + PGSIZE \<le> vend")
    case True
    then have le: "unat p + 4096 \<le> unat vend" using st(2) by (simp add: word_le_nat_alt)
    have ph: "unat (P2V PHYSTOP) = 2382364672" by (simp add: P2V_def PHYSTOP_def KERNBASE_def)
    have "unat p < 2382364672" using le Suc.prems(7) ph by simp
    then have "V2P p < PHYSTOP"
      using Suc.prems(6) by (simp add: V2P_def PHYSTOP_def KERNBASE_def word_less_nat_alt unat_sub_if_size word_size word_le_nat_alt)
    then have pg: "fl_page s p" using Suc.prems by (simp add: fl_page_def)
    note r = page_range_step [OF Suc.prems(3) le]
    have nf: "p \<notin> fl_pages s" using Suc.prems(8) r(1) by auto
    have "runs (kfree p) s (\<lambda>_ t. runs (freerange_from n (p + PGSIZE) vend) t (\<lambda>_ t. only_mem s t \<and> fl_ok t \<and> fl_pages t = fl_pages s \<union> page_range p vend))"
      using flp.free_law [OF Suc.prems(2) pg nf] unfolding kfree_def runs_kdo runs_kget Suc.prems(1) allocator_id.case
    proof (rule runs_weaken, elim conjE)
      fix t assume t: "only_mem s t" "fl_ok t" "fl_pages t = insert p (fl_pages s)"
      have same: "current_allocator t = FREELIST" "kend t = kend s" using only_mem_same [OF t(1)] Suc.prems(1) by simp_all
      have gt: "kend t \<le> p + PGSIZE" "KERNBASE < p + PGSIZE"
        using Suc.prems(5,6) st(2) same(2) by (simp_all add: word_le_nat_alt word_less_nat_alt)
      have dj: "fl_pages t \<inter> page_range (p + PGSIZE) vend = {}" using Suc.prems(8) r unfolding t(3) by auto
      have "0 < n" using Suc.prems(9) le by (cases n) auto
      then have "runs (freerange_from n (p + PGSIZE) vend) t (\<lambda>_ u. only_mem t u \<and> fl_ok u \<and> fl_pages u = fl_pages t \<union> page_range (p + PGSIZE) vend)"
        using Suc.prems(7,9) st le ph by (intro Suc.IH same t(2) gt dj) auto
      then show "runs (freerange_from n (p + PGSIZE) vend) t (\<lambda>_ t. only_mem s t \<and> fl_ok t \<and> fl_pages t = fl_pages s \<union> page_range p vend)"
        by (rule runs_weaken) (use only_mem_trans [OF t(1)] r(1) t(3) in auto)
    qed
    then show ?thesis using True by simp
  next
    case False
    then have "\<not> unat p + 4096 \<le> unat vend" using st(2) by (simp add: word_le_nat_alt)
    then show ?thesis using False Suc.prems(2) page_range_empty by simp
  qed
qed simp

lemma kmalloc_step_order:
  assumes "unat sz \<le> 4091"
  shows "\<exists>r. buddy_get_order (sz + 4 + 1) s = Ok r s \<and> 6 \<le> r \<and> r \<le> 12"
proof -
  have u: "unat (sz + 4 + 1) = unat sz + 5" using assms by (simp add: unat_word_ariths)
  have v: "1 < sz + 4 + 1" "unat (sz + 4 + 1) \<le> 2 ^ 31" "unat (sz + 4 + 1) \<le> 4096" using u assms by (simp_all add: word_less_nat_alt)
  obtain k where k: "roundup_powerof2 (sz + 4 + 1) = 2 ^ k" "unat (sz + 4 + 1) \<le> 2 ^ k" "2 ^ (k - 1) < unat (sz + 4 + 1)" "0 < k" "k < 32"
    using order_of_size [OF v(1,2)] .
  have "(2::nat) ^ (k - 1) < 2 ^ 12" using k(3) v(3) by simp
  then have "k - 1 < 12" by (rule power_less_imp_less_exp [rotated]) simp
  then show ?thesis
    unfolding buddy_get_order_def Let_def k(1) find_pow2 [OF k(5)] option.case by (auto simp: MIN_ORD_def MAX_ORD_def kret_def)
qed

section \<open>Properties\<close>



text \<open>
  C22. Boot-time memory. \<^verbatim>\<open>initmem(vstart, vend)\<close> with the free-list allocator ends, and leaves as free
  pages exactly the whole pages between \<^verbatim>\<open>vstart\<close> and \<^verbatim>\<open>vend\<close>.
\<close>

theorem initmem_freelist:
  assumes "current_allocator s = FREELIST" "freelist s = 0" "kend s \<le> vstart" "KERNBASE < vstart"
    and "unat vstart + 8192 < 2 ^ 32" "unat vend \<le> unat (P2V PHYSTOP)"
  shows "runs (initmem vstart vend) s (\<lambda>_ t. only_mem s t \<and> ka_ok t \<and>
     ka_pages t = {p. page_aligned p \<and> vstart \<le> p \<and> unat p + 4096 \<le> unat vend})"
proof -
  let ?p = "PGROUNDUP vstart"
  have u: "unat ?p = (unat vstart + 4095) div 4096 * 4096" using assms(5) by (intro unat_PGROUNDUP) simp
  then have al: "page_aligned ?p" by (simp add: page_aligned_def)
  have ge: "unat vstart \<le> unat ?p" "unat ?p \<le> unat vstart + 4095" 
    using div_mult_mod_eq [of "unat vstart + 4095" 4096] mod_less_divisor [of 4096 "unat vstart + 4095"] unfolding u by linarith+
  have pr: "page_range ?p vend = {p. page_aligned p \<and> vstart \<le> p \<and> unat p + 4096 \<le> unat vend}"
  proof -
    have "?p \<le> q \<longleftrightarrow> vstart \<le> q" if q: "page_aligned q" for q
    proof -
      obtain j where j: "unat q = 4096 * j" using page_alignedE [OF q] by blast
      have "(unat vstart + 4095) div 4096 \<le> j" if "unat vstart \<le> 4096 * j"
        using that by (simp add: less_Suc_eq_le [symmetric] div_less_iff_less_mult)
      then show ?thesis using u ge j by (auto simp: word_le_nat_alt)
    qed
    then show ?thesis unfolding page_range_def by auto
  qed
  have l: "fl_list s []" using assms(2) by (simp add: fl_list_def)
  have ok: "fl_ok s" "fl_pages s = {}" using l fl_pages_eq [OF l] by (auto simp: fl_ok_def)
  have "runs (freerange_from (2 ^ 20 + 1) ?p vend) s (\<lambda>_ t. only_mem s t \<and> fl_ok t \<and> fl_pages t = fl_pages s \<union> page_range ?p vend)"
  proof (intro runs_freerange_from assms(1,6) ok(1) al)
    show "unat ?p + 4096 < 2 ^ 32" using ge(2) assms(5) by simp
    show "kend s \<le> ?p" "KERNBASE < ?p" using assms(3,4) ge(1) by (simp_all add: word_le_nat_alt word_less_nat_alt)
    show "unat vend < unat ?p + 4096 * (2 ^ 20 + 1)" using unsigned_less [of vend, where ?'a = nat] by simp
  qed (simp_all add: ok(2))
  then show ?thesis
    unfolding initmem_def freelist_init_def freerange_def runs_kdo runs_kget assms(1) allocator_id.case ok(2) pr
    by (rule runs_weaken) (elim conjE, simp add: only_mem_same assms(1) ka_ok_def ka_pages_def)
qed

theorem initmem_freelist_witness:
  "runs (initmem 0x80100010 0x80400000) demo_kmem (\<lambda>_ t. 0x80101000 \<in> ka_pages t \<and> 0x80100000 \<notin> ka_pages t \<and> 0x80400000 \<notin> ka_pages t)"
  using initmem_freelist [of demo_kmem "0x80100010" "0x80400000"]
  by (simp add: demo_kmem_def KERNBASE_def P2V_def PHYSTOP_def page_aligned_def) (auto elim: runs_weaken)

text \<open>
  C23. Dynamic allocation never returns. With the buddy allocator selected, \<^verbatim>\<open>kmalloc\<close> of any size that
  fits a block calls \<^verbatim>\<open>buddy_kmalloc2\<close>, which calls \<^verbatim>\<open>kmalloc\<close> again: however deep the call stack may
  grow, the call does not come back.
\<close>

theorem kmalloc_diverges:
  assumes "current_allocator s = BUDDY" "unat sz \<le> 4091"
  shows "kmalloc n sz s = Fail Diverge"
  using assms(2)
proof (induction n arbitrary: sz)
  case 0
  then show ?case by (simp add: kfail_def)
next
  case (Suc n)
  obtain r where r: "buddy_get_order (sz + 4 + 1) s = Ok r s" "6 \<le> r" "r \<le> 12" using kmalloc_step_order [OF Suc.prems] by blast
  obtain k where k: "r = int k" using r(2) by (metis nonneg_int_cases order_trans zero_le_numeral)
  have "unat (word_of_int r :: u32) \<le> 4091" using r(3) unfolding k by (simp add: unat_of_nat)
  then have "kmalloc n (word_of_int r) s = Fail Diverge" by (rule Suc.IH)
  then show ?case using assms(1) r(1) by (simp add: buddy_kmalloc2_def kdo_def kget_def)
qed

theorem kmalloc_diverges_witness: "kmalloc 1000 64 (demo_kmem\<lparr>current_allocator := BUDDY\<rparr>) = Fail Diverge"
  using kmalloc_diverges [of "demo_kmem\<lparr>current_allocator := BUDDY\<rparr>" 64 1000] by simp

end
