(* ===== verification/Console.thy ===== *)
theory Console
  imports Log_Spec Libc
begin

text \<open>
  The console, \<^verbatim>\<open>src/drivers/console/console.c\<close>, with the serial port it echoes to
  (\<^verbatim>\<open>src/drivers/uart/uart.c\<close>) and the keyboard that feeds it (\<^verbatim>\<open>src/drivers/kbd/kbd.c\<close>): the CGA screen
  and its cursor registers, the formatted output of \<^verbatim>\<open>cprintf\<close>, and the line editor of \<^verbatim>\<open>consoleintr\<close>
  on the circular input buffer, whose three indices are 32-bit counters that are never reduced.

  The bytes sent to the serial port are the list \<open>uart_out\<close>. \<^verbatim>\<open>panic\<close> is the outcome \<open>KPanic\<close> of the
  routine that calls it. The half of the console that runs on behalf of a process (\<^verbatim>\<open>consoleread\<close>,
  \<^verbatim>\<open>consolewrite\<close>) unlocks and locks an inode and is with the file system.
\<close>

definition INPUT_BUF :: u32 where [const_defs]: "INPUT_BUF = 128"
definition BACKSPACE :: nat where [const_defs]: "BACKSPACE = 0x100"

definition ctrl :: "nat \<Rightarrow> nat" where "ctrl x = x - 0x40"

record kcons = klog +
  panicked :: bool
  cons_locking :: bool
  crt :: "u16 list"
  crt_hi :: u8
  crt_lo :: u8
  uart :: bool
  uart_out :: "u8 list"
  inp_buf :: "u8 list"
  inp_r :: u32
  inp_w :: u32
  inp_e :: u32

section \<open>Output\<close>

definition uartputc :: "nat \<Rightarrow> ('x kcons_scheme, unit) kop" where
  "uartputc c =
     kdo (kget uart) (\<lambda>u.
     kwhen u (kmod (\<lambda>s. s\<lparr>uart_out := uart_out s @ [word_of_nat c]\<rparr>)))"

definition crt_pos :: "'x kcons_scheme \<Rightarrow> nat" where
  "crt_pos s = unat (crt_hi s) * 256 + unat (crt_lo s)"

definition crt_put :: "nat \<Rightarrow> u16 \<Rightarrow> ('x kcons_scheme, unit) kop" where
  "crt_put at w =
     kdo (kget (\<lambda>s. length (crt s))) (\<lambda>n.
     if at < n then kmod (\<lambda>s. s\<lparr>crt := (crt s)[at := w]\<rparr>) else kfail (Undef ''screen memory''))"

text \<open>\<^verbatim>\<open>memmove(crt, crt+80, sizeof(crt[0])*23*80)\<close> and the clearing of the rest down to row 24.\<close>

definition crt_scroll :: "nat \<Rightarrow> u16 list \<Rightarrow> u16 list" where
  "crt_scroll at cs =
     (let up = take (23 * 80) (drop 80 cs) @ drop (23 * 80) cs in
      take at up @ replicate (24 * 80 - at) 0 @ drop (24 * 80) up)"

definition cgaputc :: "nat \<Rightarrow> ('x kcons_scheme, unit) kop" where
  "cgaputc c =
     kdo (kget crt_pos) (\<lambda>pos0.
     kdo (if c = 0x0A then kret (pos0 + (80 - pos0 mod 80))
          else if c = BACKSPACE then kret (if pos0 > 0 then pos0 - 1 else pos0)
          else kdo (crt_put pos0 (word_of_nat (c mod 256) OR 0x0700)) (\<lambda>_. kret (pos0 + 1))) (\<lambda>pos.
     if pos > 25 * 80 then kpanic ''pos under/overflow''
     else
     kdo (if pos div 80 \<ge> 24
          then kdo (kmod (\<lambda>s. s\<lparr>crt := crt_scroll (pos - 80) (crt s)\<rparr>)) (\<lambda>_. kret (pos - 80))
          else kret pos) (\<lambda>pos.
     kdo (kmod (\<lambda>s. s\<lparr>crt_hi := word_of_nat (pos div 256), crt_lo := word_of_nat pos\<rparr>)) (\<lambda>_.
     crt_put pos (0x20 OR 0x0700)))))"

definition consputc :: "nat \<Rightarrow> ('x kcons_scheme, unit) kop" where
  "consputc c =
     kdo (kget panicked) (\<lambda>p.
     if p then kfail Diverge
     else
     kdo (if c = BACKSPACE
          then kdo (uartputc 8) (\<lambda>_. kdo (uartputc 0x20) (\<lambda>_. uartputc 8))
          else uartputc c) (\<lambda>_.
     cgaputc c))"

text \<open>The digits of \<^verbatim>\<open>printint\<close>, least significant first; \<^verbatim>\<open>digits[x % base]\<close>.\<close>

definition digit :: "nat \<Rightarrow> nat" where
  "digit d = (if d < 10 then 0x30 + d else 0x61 + (d - 10))"

function print_digits :: "nat \<Rightarrow> nat \<Rightarrow> nat list" where
  "print_digits base x = digit (x mod base) # (if base \<le> 1 \<or> x div base = 0 then [] else print_digits base (x div base))"
  by pat_completeness auto
termination
proof (relation "measure snd")
  fix base x :: nat assume "\<not> (base \<le> 1 \<or> x div base = 0)"
  then have "1 < base" "0 < x" by (auto intro: ccontr)
  then show "((base, x div base), (base, x)) \<in> measure snd" by simp
qed simp

declare print_digits.simps [simp del]

definition int_chars :: "u32 \<Rightarrow> nat \<Rightarrow> bool \<Rightarrow> nat list" where
  "int_chars xx base sign =
     (let neg = sign \<and> sint xx < 0;
          x = (if neg then - xx else xx);
          buf = print_digits base (unat x) in
      rev (if neg then buf @ [0x2D] else buf))"

definition printint :: "u32 \<Rightarrow> nat \<Rightarrow> bool \<Rightarrow> ('x kcons_scheme, unit) kop" where
  "printint xx base sign = kfor consputc (int_chars xx base sign)"

text \<open>A format is its bytes without the terminator; a \<^verbatim>\<open>%s\<close> argument is an address.\<close>

definition str_chars :: "memory \<Rightarrow> u32 \<Rightarrow> nat list option" where
  "str_chars m p = (if p = 0 then Some (map of_char ''(null)'')
     else map_option (\<lambda>n. map (\<lambda>i. unat (m (p + of_nat i))) [0..<n]) (strlen m p))"

fun cprintf_from :: "nat list \<Rightarrow> u32 list \<Rightarrow> ('x kcons_scheme, unit) kop" where
  "cprintf_from [] args = kret ()"
| "cprintf_from (c # fmt) args =
     (if c \<noteq> 0x25 then kdo (consputc c) (\<lambda>_. cprintf_from fmt args)
      else (case fmt of
        [] \<Rightarrow> kret ()
      | d # fmt' \<Rightarrow>
          if d = 0x64 \<or> d = 0x78 \<or> d = 0x70 \<or> d = 0x73 then
            (case args of
              [] \<Rightarrow> kfail (Undef ''missing argument'')
            | a # args' \<Rightarrow>
                kdo (if d = 0x64 then printint a 10 True
                     else if d = 0x73 then
                       kdo (kget (\<lambda>s. str_chars (mem s) a)) (\<lambda>cs.
                       case cs of None \<Rightarrow> kfail Diverge | Some cs \<Rightarrow> kfor consputc cs)
                     else printint a 16 False) (\<lambda>_.
                cprintf_from fmt' args'))
          else
            kdo (consputc 0x25) (\<lambda>_.
            kdo (kwhen (d \<noteq> 0x25) (consputc d)) (\<lambda>_.
            cprintf_from fmt' args))))"

definition cprintf :: "nat list \<Rightarrow> u32 list \<Rightarrow> ('x kcons_scheme, unit) kop" where
  "cprintf fmt args =
     kdo (kget cons_locking) (\<lambda>locking.
     kdo (kwhen locking (acquire_lk L_cons)) (\<lambda>_.
     kdo (cprintf_from fmt args) (\<lambda>_.
     kwhen locking (release_lk L_cons))))"

section \<open>Input\<close>

definition inp_at :: "u32 \<Rightarrow> 'x kcons_scheme \<Rightarrow> u8" where
  "inp_at i s = inp_buf s ! unat (i mod INPUT_BUF)"

text \<open>The loop of \<^verbatim>\<open>C('U')\<close>; its argument is \<^verbatim>\<open>input.e - input.w\<close>.\<close>

primrec kill_line :: "nat \<Rightarrow> ('x kcons_scheme, unit) kop" where
  "kill_line 0 = kret ()"
| "kill_line (Suc n) =
     kdo (kget (\<lambda>s. inp_at (inp_e s - 1) s)) (\<lambda>c.
     if c = 0x0A then kret ()
     else
     kdo (kmod (\<lambda>s. s\<lparr>inp_e := inp_e s - 1\<rparr>)) (\<lambda>_.
     kdo (consputc BACKSPACE) (\<lambda>_.
     kill_line n)))"

text \<open>One iteration of the loop of \<^verbatim>\<open>consoleintr\<close>, for a character other than \<^verbatim>\<open>C('P')\<close>.\<close>

definition input_char :: "nat \<Rightarrow> ('x kcons_scheme, unit) kop" where
  "input_char c =
     (if c = ctrl 0x55 then kdo (kget (\<lambda>s. unat (inp_e s - inp_w s))) kill_line
      else if c = ctrl 0x48 \<or> c = 0x7F then
        kdo (kget (\<lambda>s. inp_e s \<noteq> inp_w s)) (\<lambda>b.
        kwhen b
          (kdo (kmod (\<lambda>s. s\<lparr>inp_e := inp_e s - 1\<rparr>)) (\<lambda>_.
           consputc BACKSPACE)))
      else
        kdo (kget (\<lambda>s. inp_e s - inp_r s < INPUT_BUF)) (\<lambda>room.
        kwhen (c \<noteq> 0 \<and> room)
          (let c = (if c = 0x0D then 0x0A else c) in
           kdo (kmod (\<lambda>s. s\<lparr>inp_buf := (inp_buf s)[unat (inp_e s mod INPUT_BUF) := word_of_nat c], inp_e := inp_e s + 1\<rparr>)) (\<lambda>_.
           kdo (consputc c) (\<lambda>_.
           kdo (kget (\<lambda>s. inp_e s = inp_r s + INPUT_BUF)) (\<lambda>full.
           kwhen (c = 0x0A \<or> c = ctrl 0x44 \<or> full)
             (kdo (kmod (\<lambda>s. s\<lparr>inp_w := inp_e s\<rparr>)) (\<lambda>_.
              wakeup CInput))))))))"

text \<open>\<^verbatim>\<open>consoleintr(getc)\<close>, given the characters \<^verbatim>\<open>getc\<close> returns before it returns \<open>-1\<close>; the result
  says whether \<^verbatim>\<open>procdump\<close> is called.\<close>

primrec input_chars :: "nat list \<Rightarrow> bool \<Rightarrow> ('x kcons_scheme, bool) kop" where
  "input_chars [] dump = kret dump"
| "input_chars (c # cs) dump =
     (if c = ctrl 0x50 then input_chars cs True
      else kdo (input_char c) (\<lambda>_. input_chars cs dump))"

definition consoleintr :: "nat list \<Rightarrow> ('x kcons_scheme, bool) kop" where
  "consoleintr cs =
     kdo (acquire_lk L_cons) (\<lambda>_.
     kdo (input_chars cs False) (\<lambda>dump.
     kdo (release_lk L_cons) (\<lambda>_.
     kret dump)))"

text \<open>The serial port: \<^verbatim>\<open>uartinit\<close> finds one or not, \<^verbatim>\<open>uartgetc\<close> returns the bytes it has received.\<close>

definition uartinit :: "bool \<Rightarrow> ('x kcons_scheme, unit) kop" where
  "uartinit present =
     kwhen present
       (kdo (kmod (\<lambda>s. s\<lparr>uart := True\<rparr>)) (\<lambda>_.
        kfor uartputc (map of_char ''xv6...'' @ [0x0A])))"

definition uartgetc :: "bool \<Rightarrow> u8 list \<Rightarrow> nat list" where
  "uartgetc u ds = (if u then map unat ds else [])"

definition uartintr :: "u8 list \<Rightarrow> ('x kcons_scheme, bool) kop" where
  "uartintr ds = kdo (kget (\<lambda>s. uartgetc (uart s) ds)) consoleintr"

section \<open>The screen\<close>

definition screen_ok :: "'x kcons_scheme \<Rightarrow> bool" where
  "screen_ok s \<longleftrightarrow> \<not> panicked s \<and> length (crt s) = 25 * 80 \<and> crt_pos s < 24 * 80"

text \<open>What output may change.\<close>

definition out_frame :: "'x kcons_scheme \<Rightarrow> 'x kcons_scheme \<Rightarrow> bool" where
  "out_frame s t \<longleftrightarrow> (\<exists>c h l u. t = s\<lparr>crt := c, crt_hi := h, crt_lo := l, uart_out := u\<rparr>)"

lemma out_frameI: "t = s\<lparr>crt := c, crt_hi := h, crt_lo := l, uart_out := u\<rparr> \<Longrightarrow> out_frame s t"
  unfolding out_frame_def by blast

lemma out_frame_refl: "out_frame s s"
  by (rule out_frameI [where c = "crt s" and h = "crt_hi s" and l = "crt_lo s" and u = "uart_out s"]) simp

lemma out_frame_trans: "out_frame s t \<Longrightarrow> out_frame t u \<Longrightarrow> out_frame s u"
proof -
  assume "out_frame s t" "out_frame t u"
  then obtain c h l o1 c' h' l' o' where "t = s\<lparr>crt := c, crt_hi := h, crt_lo := l, uart_out := o1\<rparr>" "u = t\<lparr>crt := c', crt_hi := h', crt_lo := l', uart_out := o'\<rparr>"
    unfolding out_frame_def by blast
  then show ?thesis by (intro out_frameI [where c = c' and h = h' and l = l' and u = o']) simp
qed

lemma out_frame_same:
  assumes "out_frame s t"
  shows "panicked t = panicked s" "inp_buf t = inp_buf s" "inp_r t = inp_r s" "inp_w t = inp_w s" "inp_e t = inp_e s"
    "held t = held s" "procs t = procs s" "uart t = uart s" "mem t = mem s" "cons_locking t = cons_locking s"
  using assms by (auto simp: out_frame_def)

text \<open>The bytes a character sends to the serial port.\<close>

definition uart_bytes :: "nat \<Rightarrow> u8 list" where
  "uart_bytes c = (if c = BACKSPACE then [8, 0x20, 8] else [word_of_nat c])"

lemma crt_pos_set: "k < 65536 \<Longrightarrow> crt_pos (s\<lparr>crt_hi := word_of_nat (k div 256), crt_lo := word_of_nat k\<rparr>) = k"
proof -
  assume k: "k < 65536"
  then have "k div 256 < 256" by (simp add: div_less_iff_less_mult)
  then show ?thesis by (simp add: crt_pos_def unat_of_nat)
qed

lemma length_crt_scroll: "length cs = 25 * 80 \<Longrightarrow> k \<le> 24 * 80 \<Longrightarrow> length (crt_scroll k cs) = 25 * 80"
  by (simp add: crt_scroll_def)

lemma crt_pos_crt [simp]: "crt_pos (s\<lparr>crt := c\<rparr>) = crt_pos s" "crt_pos (s\<lparr>uart_out := o1\<rparr>) = crt_pos s"
  by (simp_all add: crt_pos_def)

text \<open>The end of \<^verbatim>\<open>cgaputc\<close>, from the new position on.\<close>

definition cga_finish :: "nat \<Rightarrow> ('x kcons_scheme, unit) kop" where
  "cga_finish at =
     kdo (if at div 80 \<ge> 24
          then kdo (kmod (\<lambda>s. s\<lparr>crt := crt_scroll (at - 80) (crt s)\<rparr>)) (\<lambda>_. kret (at - 80))
          else kret at) (\<lambda>at.
     kdo (kmod (\<lambda>s. s\<lparr>crt_hi := word_of_nat (at div 256), crt_lo := word_of_nat at\<rparr>)) (\<lambda>_.
     crt_put at (0x20 OR 0x0700)))"

lemma runs_crt_put: "at < length (crt s) \<Longrightarrow> runs (crt_put at w) s Q = Q () (s\<lparr>crt := (crt s)[at := w]\<rparr>)"
  by (simp add: crt_put_def)

lemma cga_finish_law:
  assumes "at \<le> 24 * 80" "length (crt s) = 25 * 80" "\<not> panicked s"
  shows "runs (cga_finish at) s (\<lambda>_ t. screen_ok t \<and> out_frame s t \<and> uart_out t = uart_out s)"
proof -
  define k where "k = (if at div 80 \<ge> 24 then at - 80 else at)"
  define c where "c = (if at div 80 \<ge> 24 then crt_scroll (at - 80) (crt s) else crt s)"
  have k: "k < 24 * 80" using assms(1) by (auto simp: k_def not_le div_less_iff_less_mult)
  have c: "length c = 25 * 80" using assms(1,2) length_crt_scroll by (auto simp: c_def)
  let ?t = "s\<lparr>crt := c, crt_hi := word_of_nat (k div 256), crt_lo := word_of_nat k\<rparr>"
  let ?u = "?t\<lparr>crt := c[k := 0x20 OR 0x0700]\<rparr>"
  have r: "runs (cga_finish at) s Q = Q () ?u" for Q
    using k c assms(2) unfolding cga_finish_def k_def c_def by (cases "at div 80 \<ge> 24") (simp_all add: runs_crt_put)
  have "crt_pos ?u = k" using crt_pos_set [of k s] k by simp
  moreover have "out_frame s ?u"
    by (rule out_frameI [where c = "c[k := 0x20 OR 0x0700]" and h = "word_of_nat (k div 256)" and l = "word_of_nat k" and u = "uart_out s"]) simp
  ultimately show ?thesis unfolding r using k c assms(3) by (simp add: screen_ok_def)
qed

lemma cgaputc_law:
  assumes "screen_ok s"
  shows "runs (cgaputc c) s (\<lambda>_ t. screen_ok t \<and> out_frame s t \<and> uart_out t = uart_out s)"
proof -
  have s: "\<not> panicked s" "length (crt s) = 25 * 80" "crt_pos s < 24 * 80" using assms by (simp_all add: screen_ok_def)
  let ?n = "crt_pos s + (80 - crt_pos s mod 80)"
  have n: "?n \<le> 24 * 80"
  proof -
    have "crt_pos s div 80 < 24" using s(3) by (simp add: div_less_iff_less_mult)
    then have "(crt_pos s div 80 + 1) * 80 \<le> 24 * 80" by (intro mult_le_mono) auto
    moreover have "crt_pos s mod 80 < 80" by simp
    moreover have "a + (80 - m) = (d + 1) * 80" if "d * 80 + m = a" "m < 80" for a d m :: nat using that by auto
    ultimately have "?n = (crt_pos s div 80 + 1) * 80" "(crt_pos s div 80 + 1) * 80 \<le> 24 * 80" using div_mult_mod_eq by blast+
    then show ?thesis by simp
  qed
  have e: "cgaputc c =
     kdo (kget crt_pos) (\<lambda>pos0.
     kdo (if c = 0x0A then kret (pos0 + (80 - pos0 mod 80))
          else if c = BACKSPACE then kret (if pos0 > 0 then pos0 - 1 else pos0)
          else kdo (crt_put pos0 (word_of_nat (c mod 256) OR 0x0700)) (\<lambda>_. kret (pos0 + 1))) (\<lambda>pos.
     if pos > 25 * 80 then kpanic ''pos under/overflow'' else cga_finish pos))"
    unfolding cgaputc_def cga_finish_def ..
  consider "c = 0x0A" | "c \<noteq> 0x0A" "c = BACKSPACE" | "c \<noteq> 0x0A" "c \<noteq> BACKSPACE" by blast
  then show ?thesis
  proof cases
    case 1
    then show ?thesis unfolding e using cga_finish_law [OF n s(2,1)] n by simp
  next
    case 2
    have "(if crt_pos s > 0 then crt_pos s - 1 else crt_pos s) \<le> 24 * 80" using s(3) by (cases "crt_pos s") simp_all
    from cga_finish_law [OF this s(2,1)] show ?thesis unfolding e using 2 s(3) by (cases "crt_pos s") simp_all
  next
    case 3
    let ?w = "word_of_nat (c mod 256) OR 0x0700 :: u16"
    let ?t = "s\<lparr>crt := (crt s)[crt_pos s := ?w]\<rparr>"
    have "runs (cga_finish (crt_pos s + 1)) ?t (\<lambda>_ t. screen_ok t \<and> out_frame ?t t \<and> uart_out t = uart_out ?t)"
      using s by (intro cga_finish_law) simp_all
    moreover have "out_frame s ?t"
      by (rule out_frameI [where c = "(crt s)[crt_pos s := ?w]" and h = "crt_hi s" and l = "crt_lo s" and u = "uart_out s"]) simp
    ultimately have "runs (cga_finish (crt_pos s + 1)) ?t (\<lambda>_ t. screen_ok t \<and> out_frame s t \<and> uart_out t = uart_out s)"
      by (elim runs_weaken) (use out_frame_trans in auto)
    then show ?thesis unfolding e using 3 s by (simp add: runs_crt_put)
  qed
qed

lemma runs_uartputc: "runs (uartputc c) s Q = Q () (if uart s then s\<lparr>uart_out := uart_out s @ [word_of_nat c]\<rparr> else s)"
  by (simp add: uartputc_def)

lemma consputc_law:
  assumes "screen_ok s"
  shows "runs (consputc c) s (\<lambda>_ t. screen_ok t \<and> out_frame s t \<and> uart_out t = uart_out s @ (if uart s then uart_bytes c else []))"
proof -
  let ?t = "s\<lparr>uart_out := uart_out s @ (if uart s then uart_bytes c else [])\<rparr>"
  have "screen_ok ?t" using assms by (simp add: screen_ok_def)
  then have "runs (cgaputc c) ?t (\<lambda>_ t. screen_ok t \<and> out_frame ?t t \<and> uart_out t = uart_out ?t)" by (rule cgaputc_law)
  moreover have "out_frame s ?t"
    by (rule out_frameI [where c = "crt s" and h = "crt_hi s" and l = "crt_lo s" and u = "uart_out ?t"]) simp
  ultimately have f: "runs (cgaputc c) ?t (\<lambda>_ t. screen_ok t \<and> out_frame s t \<and> uart_out t = uart_out ?t)"
    by (elim runs_weaken) (use out_frame_trans in auto)
  have np: "\<not> panicked s" using assms by (simp add: screen_ok_def)
  show ?thesis
  proof (cases "uart s")
    case True
    then show ?thesis using f np by (cases "c = BACKSPACE") (simp_all add: consputc_def runs_uartputc uart_bytes_def)
  next
    case False
    then show ?thesis using f np by (cases "c = BACKSPACE") (simp_all add: consputc_def runs_uartputc uart_bytes_def)
  qed
qed

section \<open>The input buffer as two queues\<close>

text \<open>The characters at the counters \<open>i, \<dots>, i + n - 1\<close> of the circular buffer.\<close>

definition ring_seg :: "u8 list \<Rightarrow> u32 \<Rightarrow> nat \<Rightarrow> u8 list" where
  "ring_seg buf i n = map (\<lambda>k. buf ! ((unat i + k) mod 128)) [0..<n]"

lemma ring_index: "unat ((i + of_nat k) mod INPUT_BUF) = (unat i + k) mod 128"
proof -
  have "unat ((i + of_nat k) mod INPUT_BUF) = ((unat i + k mod 2 ^ 32) mod 2 ^ 32) mod 128"
    by (simp add: INPUT_BUF_def unat_mod unat_word_ariths unat_of_nat)
  also have "\<dots> = (unat i + k mod 2 ^ 32) mod 128" by (rule mod_mod_cancel) simp
  also have "\<dots> = (unat i + k mod 2 ^ 32 mod 128) mod 128" by (metis mod_add_right_eq)
  also have "k mod 2 ^ 32 mod 128 = k mod 128" by (rule mod_mod_cancel) simp
  finally show ?thesis by (simp add: mod_simps)
qed

lemma length_ring_seg [simp]: "length (ring_seg buf i n) = n"
  by (simp add: ring_seg_def)

lemma ring_seg_Suc: "ring_seg buf i (Suc n) = ring_seg buf i n @ [buf ! ((unat i + n) mod 128)]"
  by (simp add: ring_seg_def)

lemma ring_seg_append: "ring_seg buf i (a + b) = ring_seg buf i a @ ring_seg buf (i + of_nat a) b"
proof (induction b)
  case (Suc b)
  have "(unat (i + of_nat a) + b) mod 128 = (unat i + (a + b)) mod 128"
    using ring_index [of "i + of_nat a" b] ring_index [of i "a + b"] by (simp add: add.assoc)
  then show ?case using Suc by (simp add: ring_seg_Suc)
qed (simp add: ring_seg_def)

lemma ring_seg_store:
  assumes "n < 128"
  shows "ring_seg (buf[(unat i + n) mod 128 := c]) i n = ring_seg buf i n"
proof -
  have "(unat i + k) mod 128 \<noteq> (unat i + n) mod 128" if "k < n" for k
  proof
    assume "(unat i + k) mod 128 = (unat i + n) mod 128"
    then have "(n - k) mod 128 = 0" using that by (metis mod_eq_dvd_iff_nat dvd_imp_mod_0 diff_cancel2 add.commute less_imp_le nat_add_left_cancel_le)
    then show False using that assms by simp
  qed
  then show ?thesis by (simp add: ring_seg_def) (metis atLeastLessThan_iff nth_list_update_neq)
qed

definition n_committed :: "'x kcons_scheme \<Rightarrow> nat" where "n_committed s = unat (inp_w s - inp_r s)"
definition n_edit :: "'x kcons_scheme \<Rightarrow> nat" where "n_edit s = unat (inp_e s - inp_w s)"

definition committed_line :: "'x kcons_scheme \<Rightarrow> u8 list" where
  "committed_line s = ring_seg (inp_buf s) (inp_r s) (n_committed s)"

definition edit_line :: "'x kcons_scheme \<Rightarrow> u8 list" where
  "edit_line s = ring_seg (inp_buf s) (inp_w s) (n_edit s)"

definition inp_inv :: "'x kcons_scheme \<Rightarrow> bool" where
  "inp_inv s \<longleftrightarrow> length (inp_buf s) = 128 \<and> n_committed s + n_edit s \<le> 128 \<and> 0x0A \<notin> set (edit_line s)"

text \<open>What a character does to the queue of characters waiting to be read and to the line being edited.\<close>

definition line_edit :: "nat \<Rightarrow> u8 list \<times> u8 list \<Rightarrow> u8 list \<times> u8 list" where
  "line_edit c = (\<lambda>(q, ed).
     if c = ctrl 0x55 then (q, [])
     else if c = ctrl 0x48 \<or> c = 0x7F then (q, butlast ed)
     else if c = 0 \<or> length q + length ed = 128 then (q, ed)
     else (let c = (if c = 0x0D then 0x0A else c); ed = ed @ [word_of_nat c] in
       if c = 0x0A \<or> c = ctrl 0x44 \<or> length q + length ed = 128 then (q @ ed, []) else (q, ed)))"

lemma counters: "inp_w s = inp_r s + of_nat (n_committed s)" "inp_e s = inp_w s + of_nat (n_edit s)"
  "inp_e s = inp_r s + of_nat (n_committed s + n_edit s)"
  by (simp_all add: n_committed_def n_edit_def)

lemma unat_small: "n < 2 ^ 32 \<Longrightarrow> unat (of_nat n :: u32) = n"
  by (simp add: unat_of_nat)

text \<open>A state is determined, as far as input goes, by the buffer and the counters.\<close>

lemma inp_views_cong:
  assumes "inp_buf t = inp_buf s" "inp_r t = inp_r s" "inp_w t = inp_w s" "inp_e t = inp_e s"
  shows "committed_line t = committed_line s" "edit_line t = edit_line s" "inp_inv t = inp_inv s"
    "n_committed t = n_committed s" "n_edit t = n_edit s"
  using assms by (simp_all add: committed_line_def edit_line_def inp_inv_def n_committed_def n_edit_def)

lemma erase_one:
  assumes "n_edit s = Suc n"
  shows "n_edit (s\<lparr>inp_e := inp_e s - 1\<rparr>) = n" "edit_line s = edit_line (s\<lparr>inp_e := inp_e s - 1\<rparr>) @ [inp_at (inp_e s - 1) s]"
    "committed_line (s\<lparr>inp_e := inp_e s - 1\<rparr>) = committed_line s" "n_committed (s\<lparr>inp_e := inp_e s - 1\<rparr>) = n_committed s"
proof -
  have e: "inp_e s - 1 = inp_w s + of_nat n" using counters(2) [of s] assms by simp
  have "n < 2 ^ 32" using assms unsigned_less [of "inp_e s - inp_w s", where ?'a = nat] by (simp add: n_edit_def)
  then show 1: "n_edit (s\<lparr>inp_e := inp_e s - 1\<rparr>) = n" unfolding n_edit_def e by (simp add: unat_of_nat)
  have "inp_at (inp_e s - 1) s = inp_buf s ! ((unat (inp_w s) + n) mod 128)" unfolding e inp_at_def ring_index ..
  then show "edit_line s = edit_line (s\<lparr>inp_e := inp_e s - 1\<rparr>) @ [inp_at (inp_e s - 1) s]"
    unfolding edit_line_def 1 assms by (simp add: ring_seg_Suc)
  show "committed_line (s\<lparr>inp_e := inp_e s - 1\<rparr>) = committed_line s" "n_committed (s\<lparr>inp_e := inp_e s - 1\<rparr>) = n_committed s"
    by (simp_all add: committed_line_def n_committed_def)
qed

lemma type_one:
  assumes "inp_inv s" "n_committed s + n_edit s < 128"
    and "t = s\<lparr>inp_buf := (inp_buf s)[unat (inp_e s mod INPUT_BUF) := c], inp_e := inp_e s + 1\<rparr>"
  shows "n_edit t = Suc (n_edit s)" "edit_line t = edit_line s @ [c]" "committed_line t = committed_line s" "n_committed t = n_committed s"
    "length (inp_buf t) = 128"
proof -
  let ?a = "n_committed s" and ?b = "n_edit s" and ?r = "inp_r s"
  have l: "length (inp_buf s) = 128" using assms(1) by (simp add: inp_inv_def)
  have ix: "unat (inp_e s mod INPUT_BUF) = (unat ?r + (?a + ?b)) mod 128" unfolding counters(3) by (rule ring_index)
  let ?buf = "(inp_buf s)[(unat ?r + (?a + ?b)) mod 128 := c]"
  have t: "t = s\<lparr>inp_buf := ?buf, inp_e := inp_e s + 1\<rparr>" using assms(3) unfolding ix .
  show nc: "n_committed t = ?a" by (simp add: t n_committed_def)
  have e1: "inp_e s + 1 - inp_w s = of_nat (Suc ?b)" using counters(2) [of s] by simp
  have "n_edit t = unat (inp_e s + 1 - inp_w s)" by (simp add: t n_edit_def)
  also have "\<dots> = Suc ?b" unfolding e1 using assms(2) by (intro unat_small) simp
  finally show ne: "n_edit t = Suc ?b" .
  show "length (inp_buf t) = 128" by (simp add: t l)
  have st: "ring_seg ?buf ?r (?a + ?b) = ring_seg (inp_buf s) ?r (?a + ?b)" using assms(2) by (rule ring_seg_store)
  then have sp: "ring_seg ?buf ?r ?a = ring_seg (inp_buf s) ?r ?a" "ring_seg ?buf (inp_w s) ?b = ring_seg (inp_buf s) (inp_w s) ?b"
    unfolding ring_seg_append counters(1) [of s, symmetric] by simp_all
  show "committed_line t = committed_line s" unfolding committed_line_def nc using sp(1) by (simp add: t)
  have "unat (inp_e s mod INPUT_BUF) = (unat (inp_w s) + ?b) mod 128" by (subst counters(2)) (rule ring_index)
  then have "(unat (inp_w s) + ?b) mod 128 = (unat ?r + (?a + ?b)) mod 128" using ix by simp
  then have "?buf ! ((unat (inp_w s) + ?b) mod 128) = c" using l by simp
  then show "edit_line t = edit_line s @ [c]" unfolding edit_line_def ne ring_seg_Suc using sp(2) by (simp add: t)
qed

lemma commit_edit:
  assumes "n_committed s + n_edit s \<le> 128" and "t = s\<lparr>inp_w := inp_e s\<rparr>"
  shows "committed_line t = committed_line s @ edit_line s" "edit_line t = []" "n_edit t = 0" "n_committed t = n_committed s + n_edit s"
proof -
  have e1: "inp_e s - inp_r s = of_nat (n_committed s + n_edit s)" using counters(3) [of s] by simp
  have "n_committed t = unat (inp_e s - inp_r s)" by (simp add: assms(2) n_committed_def)
  also have "\<dots> = n_committed s + n_edit s" unfolding e1 using assms(1) by (intro unat_small) simp
  finally show nc: "n_committed t = n_committed s + n_edit s" .
  show "n_edit t = 0" "edit_line t = []" by (simp_all add: assms(2) n_edit_def edit_line_def ring_seg_def)
  show "committed_line t = committed_line s @ edit_line s"
    unfolding committed_line_def edit_line_def nc ring_seg_append counters(1) by (simp add: assms(2))
qed

text \<open>What holds of the console while \<^verbatim>\<open>consoleintr\<close> has its lock, and what it may change.\<close>

definition cons_ready :: "'x kcons_scheme \<Rightarrow> bool" where
  "cons_ready s \<longleftrightarrow> screen_ok s \<and> inp_inv s \<and> length (procs s) = NPROC \<and> L_ptable \<notin> set (held s)"

definition inp_step :: "u8 list \<times> u8 list \<Rightarrow> 'x kcons_scheme \<Rightarrow> 'x kcons_scheme \<Rightarrow> bool" where
  "inp_step a s t \<longleftrightarrow> cons_ready t \<and> (committed_line t, edit_line t) = a \<and> inp_r t = inp_r s \<and> held t = held s"

lemma inp_step_from: "inp_r u = inp_r s \<Longrightarrow> held u = held s \<Longrightarrow> inp_step a u = inp_step a s"
  by (simp add: inp_step_def fun_eq_iff)

lemma put_step:
  assumes "cons_ready s"
  shows "runs (consputc c) s (\<lambda>_ t. inp_step (committed_line s, edit_line s) s t \<and> inp_e t = inp_e s \<and> inp_w t = inp_w s \<and> inp_buf t = inp_buf s)"
proof -
  have "screen_ok s" using assms by (simp add: cons_ready_def)
  from consputc_law [OF this, of c] show ?thesis
  proof (rule runs_weaken, elim conjE)
    fix t assume t: "screen_ok t" "out_frame s t"
    note f = out_frame_same [OF t(2)]
    show "inp_step (committed_line s, edit_line s) s t \<and> inp_e t = inp_e s \<and> inp_w t = inp_w s \<and> inp_buf t = inp_buf s"
      using assms t(1) f inp_views_cong [OF f(2-5)] by (simp add: inp_step_def cons_ready_def)
  qed
qed

lemma erase_ready:
  assumes "cons_ready s" "n_edit s = Suc n"
  shows "cons_ready (s\<lparr>inp_e := inp_e s - 1\<rparr>)" "edit_line (s\<lparr>inp_e := inp_e s - 1\<rparr>) = butlast (edit_line s)"
proof -
  note e = erase_one [OF assms(2)]
  show b: "edit_line (s\<lparr>inp_e := inp_e s - 1\<rparr>) = butlast (edit_line s)" using e(2) by simp
  have "0x0A \<notin> set (edit_line (s\<lparr>inp_e := inp_e s - 1\<rparr>))" using assms(1) e(2) by (auto simp: cons_ready_def inp_inv_def)
  then show "cons_ready (s\<lparr>inp_e := inp_e s - 1\<rparr>)"
    using assms e by (simp add: cons_ready_def inp_inv_def screen_ok_def crt_pos_def)
qed

lemma kill_line_law:
  assumes "cons_ready s" "n_edit s = n"
  shows "runs (kill_line n) s (\<lambda>_. inp_step (committed_line s, []) s)"
  using assms
proof (induction n arbitrary: s)
  case 0
  then show ?case by (simp add: inp_step_def edit_line_def ring_seg_def)
next
  case (Suc n)
  let ?t = "s\<lparr>inp_e := inp_e s - 1\<rparr>"
  note e = erase_one [OF Suc.prems(2)] and r = erase_ready [OF Suc.prems]
  have ne: "inp_at (inp_e s - 1) s \<noteq> 0x0A" using Suc.prems(1) e(2) by (auto simp: cons_ready_def inp_inv_def)
  have "runs (consputc BACKSPACE) ?t (\<lambda>_ u. runs (kill_line n) u (\<lambda>_. inp_step (committed_line s, []) s))"
    using put_step [OF r(1), of BACKSPACE]
  proof (rule runs_weaken, elim conjE)
    fix u assume u: "inp_step (committed_line ?t, edit_line ?t) ?t u" "inp_e u = inp_e ?t" "inp_w u = inp_w ?t" "inp_buf u = inp_buf ?t"
    have "n_edit u = n" using e(1) u by (simp add: n_edit_def)
    moreover have v: "cons_ready u" "committed_line u = committed_line s" "inp_r u = inp_r s" "held u = held s" using u(1) e(3) by (simp_all add: inp_step_def)
    ultimately show "runs (kill_line n) u (\<lambda>_. inp_step (committed_line s, []) s)"
      using Suc.IH [of u] unfolding inp_step_from [OF v(3,4)] by simp
  qed
  then show ?case using ne by simp
qed

text \<open>The last branch of \<^verbatim>\<open>consoleintr\<close>: a character is appended, and completes the line or not.\<close>

lemma commit_line_law:
  assumes "cons_ready s"
  shows "runs (kdo (kmod (\<lambda>s. s\<lparr>inp_w := inp_e s\<rparr>)) (\<lambda>_. wakeup CInput)) s (\<lambda>_. inp_step (committed_line s @ edit_line s, []) s)"
proof -
  let ?t = "s\<lparr>inp_w := inp_e s\<rparr>"
  let ?u = "?t\<lparr>procs := woken (Some CInput) (procs s)\<rparr>"
  have le: "n_committed s + n_edit s \<le> 128" using assms by (simp add: cons_ready_def inp_inv_def)
  note c = commit_edit [OF le refl]
  have vu: "committed_line ?u = committed_line ?t" "edit_line ?u = edit_line ?t" "inp_inv ?u = inp_inv ?t"
    by (rule inp_views_cong; simp)+
  have "inp_inv ?t" using assms c by (simp add: cons_ready_def inp_inv_def)
  then have "inp_step (committed_line s @ edit_line s, []) s ?u"
    using assms c vu by (simp add: inp_step_def cons_ready_def screen_ok_def crt_pos_def)
  then show ?thesis using assms by (simp add: cons_ready_def runs_wakeup)
qed

lemma buffer_full:
  assumes "n_committed s + n_edit s \<le> 128"
  shows "inp_e s = inp_r s + INPUT_BUF \<longleftrightarrow> n_committed s + n_edit s = 128"
proof -
  have "inp_e s = inp_r s + INPUT_BUF \<longleftrightarrow> (of_nat (n_committed s + n_edit s) :: u32) = of_nat 128"
    unfolding counters(3) INPUT_BUF_def by simp
  also have "\<dots> \<longleftrightarrow> n_committed s + n_edit s = 128"
    unfolding word_unat_eq_iff using assms by (subst (1 2) unat_small) simp_all
  finally show ?thesis .
qed

lemma append_law:
  assumes "cons_ready s" "n_committed s + n_edit s < 128" "c < 256"
    and fin: "fin \<longleftrightarrow> c = 0x0A \<or> c = ctrl 0x44 \<or> Suc (n_committed s + n_edit s) = 128"
  shows "runs (kdo (kmod (\<lambda>s. s\<lparr>inp_buf := (inp_buf s)[unat (inp_e s mod INPUT_BUF) := word_of_nat c], inp_e := inp_e s + 1\<rparr>)) (\<lambda>_.
           kdo (consputc c) (\<lambda>_.
           kdo (kget (\<lambda>s. inp_e s = inp_r s + INPUT_BUF)) (\<lambda>full.
           kwhen (c = 0x0A \<or> c = ctrl 0x44 \<or> full)
             (kdo (kmod (\<lambda>s. s\<lparr>inp_w := inp_e s\<rparr>)) (\<lambda>_. wakeup CInput)))))) s
     (\<lambda>_. inp_step (if fin then (committed_line s @ edit_line s @ [word_of_nat c], []) else (committed_line s, edit_line s @ [word_of_nat c])) s)"
proof -
  let ?t = "s\<lparr>inp_buf := (inp_buf s)[unat (inp_e s mod INPUT_BUF) := word_of_nat c], inp_e := inp_e s + 1\<rparr>"
  have i: "inp_inv s" using assms(1) by (simp add: cons_ready_def)
  note t1 = type_one [OF i assms(2) refl]
  show ?thesis
  proof (cases "c = 0x0A")
    case True
    text \<open>The line now contains a newline, and is completed at once.\<close>
    have "screen_ok ?t" using assms(1) by (simp add: cons_ready_def screen_ok_def crt_pos_def)
    from consputc_law [OF this, of c]
    have "runs (consputc c) ?t (\<lambda>_ u. runs (kdo (kmod (\<lambda>s. s\<lparr>inp_w := inp_e s\<rparr>)) (\<lambda>_. wakeup CInput)) u
        (\<lambda>_. inp_step (committed_line s @ edit_line s @ [word_of_nat c], []) s))"
    proof (rule runs_weaken, elim conjE)
      fix u assume u: "screen_ok u" "out_frame ?t u"
      note f = out_frame_same [OF u(2)] and v = inp_views_cong [OF out_frame_same(2-5) [OF u(2)]]
      let ?v = "u\<lparr>inp_w := inp_e u\<rparr>"
      let ?w = "?v\<lparr>procs := woken (Some CInput) (procs u)\<rparr>"
      have le: "n_committed u + n_edit u \<le> 128" using v(4,5) t1 assms(2) by simp
      note c = commit_edit [OF le refl]
      have vw: "committed_line ?w = committed_line ?v" "edit_line ?w = edit_line ?v" "inp_inv ?w = inp_inv ?v"
        by (rule inp_views_cong; simp)+
      have "inp_inv ?v" using c f(2) t1(5) le by (simp add: inp_inv_def)
      then have "inp_step (committed_line s @ edit_line s @ [word_of_nat c], []) s ?w"
        using assms(1) c vw f u(1) v t1 by (simp add: inp_step_def cons_ready_def screen_ok_def crt_pos_def)
      then show "runs (kdo (kmod (\<lambda>s. s\<lparr>inp_w := inp_e s\<rparr>)) (\<lambda>_. wakeup CInput)) u
        (\<lambda>_. inp_step (committed_line s @ edit_line s @ [word_of_nat c], []) s)"
        using assms(1) f by (simp add: cons_ready_def runs_wakeup)
    qed
    then show ?thesis using True fin by simp
  next
    case False
    have "word_of_nat c \<noteq> (0x0A :: u8)"
    proof
      assume "word_of_nat c = (0x0A :: u8)"
      then have "unat (word_of_nat c :: u8) = 10" by simp
      then show False using False assms(3) by (simp add: unat_of_nat)
    qed
    then have rt: "cons_ready ?t"
      using assms(1,2) t1 by (simp add: cons_ready_def inp_inv_def screen_ok_def crt_pos_def)
    have "runs (consputc c) ?t (\<lambda>_ u. runs (kwhen (c = 0x0A \<or> c = ctrl 0x44 \<or> (inp_e u = inp_r u + INPUT_BUF))
        (kdo (kmod (\<lambda>s. s\<lparr>inp_w := inp_e s\<rparr>)) (\<lambda>_. wakeup CInput))) u
        (\<lambda>_. inp_step (if fin then (committed_line s @ edit_line s @ [word_of_nat c], []) else (committed_line s, edit_line s @ [word_of_nat c])) s))"
      using put_step [OF rt, of c]
    proof (rule runs_weaken, elim conjE)
      fix u assume u: "inp_step (committed_line ?t, edit_line ?t) ?t u" "inp_e u = inp_e ?t" "inp_w u = inp_w ?t" "inp_buf u = inp_buf ?t"
      have ru: "cons_ready u" "committed_line u = committed_line s" "edit_line u = edit_line s @ [word_of_nat c]" "inp_r u = inp_r s" "held u = held s"
        using u(1) t1 by (simp_all add: inp_step_def)
      have "n_committed u = n_committed ?t" "n_edit u = n_edit ?t" using u(2-3) ru(4) by (simp_all add: n_committed_def n_edit_def)
      then have "n_committed u + n_edit u = Suc (n_committed s + n_edit s)" using t1 by simp
      then have fu: "inp_e u = inp_r u + INPUT_BUF \<longleftrightarrow> Suc (n_committed s + n_edit s) = 128" using buffer_full [of u] assms(2) by simp
      show "runs (kwhen (c = 0x0A \<or> c = ctrl 0x44 \<or> (inp_e u = inp_r u + INPUT_BUF))
        (kdo (kmod (\<lambda>s. s\<lparr>inp_w := inp_e s\<rparr>)) (\<lambda>_. wakeup CInput))) u
        (\<lambda>_. inp_step (if fin then (committed_line s @ edit_line s @ [word_of_nat c], []) else (committed_line s, edit_line s @ [word_of_nat c])) s)"
        unfolding fu runs_kwhen fin [symmetric] using commit_line_law [OF ru(1)] ru(1-5) unfolding inp_step_from [OF ru(4,5)] by (simp add: inp_step_def)
    qed
    then show ?thesis by simp
  qed
qed

lemma n_edit_zero: "n_edit s = 0 \<longleftrightarrow> inp_e s = inp_w s"
  by (simp add: n_edit_def unat_eq_0)

lemma input_char_law:
  assumes "cons_ready s" "c < 256"
  shows "runs (input_char c) s (\<lambda>_. inp_step (line_edit c (committed_line s, edit_line s)) s)"
proof -
  have len: "length (committed_line s) = n_committed s" "length (edit_line s) = n_edit s" by (simp_all add: committed_line_def edit_line_def)
  have le: "n_committed s + n_edit s \<le> 128" using assms(1) by (simp add: cons_ready_def inp_inv_def)
  consider (kill) "c = ctrl 0x55" | (erase) "c \<noteq> ctrl 0x55" "c = ctrl 0x48 \<or> c = 0x7F"
    | (ins) "c \<noteq> ctrl 0x55" "\<not> (c = ctrl 0x48 \<or> c = 0x7F)" by blast
  then show ?thesis
  proof cases
    case kill
    then show ?thesis using kill_line_law [OF assms(1) refl] by (simp add: input_char_def line_edit_def n_edit_def)
  next
    case erase
    show ?thesis
    proof (cases "n_edit s")
      case 0
      then have "edit_line s = []" "inp_e s = inp_w s" using len(2) n_edit_zero [of s] by simp_all
      then show ?thesis using erase assms(1) by (auto simp: input_char_def line_edit_def inp_step_def)
    next
      case (Suc n)
      let ?t = "s\<lparr>inp_e := inp_e s - 1\<rparr>"
      note r = erase_ready [OF assms(1) Suc]
      have v: "inp_r ?t = inp_r s" "held ?t = held s" by simp_all
      have "runs (consputc BACKSPACE) ?t (\<lambda>_. inp_step (committed_line s, butlast (edit_line s)) s)"
        by (rule runs_weaken [OF put_step [OF r(1)]]) (use r(2) erase_one(3) [OF Suc] in \<open>simp add: inp_step_def\<close>)
      moreover have "inp_e s \<noteq> inp_w s" using Suc n_edit_zero [of s] by simp
      ultimately show ?thesis using erase by (auto simp: input_char_def line_edit_def)
    qed
  next
    case ins
    have room: "inp_e s - inp_r s < INPUT_BUF \<longleftrightarrow> n_committed s + n_edit s < 128"
    proof -
      have "inp_e s - inp_r s = of_nat (n_committed s + n_edit s)" using counters(3) [of s] by simp
      then have "unat (inp_e s - inp_r s) = n_committed s + n_edit s" using le by (simp only:) (rule unat_small, simp)
      then show ?thesis by (simp add: word_less_nat_alt INPUT_BUF_def)
    qed
    let ?c = "if c = 0x0D then 0x0A else c"
    show ?thesis
    proof (cases "c \<noteq> 0 \<and> n_committed s + n_edit s < 128")
      case True
      let ?fin = "?c = 0x0A \<or> ?c = ctrl 0x44 \<or> Suc (n_committed s + n_edit s) = 128"
      have "?c < 256" using assms(2) by simp
      note a = append_law [OF assms(1) conjunct2 [OF True] this refl]
      have "line_edit c (committed_line s, edit_line s) =
          (if ?fin then (committed_line s @ edit_line s @ [word_of_nat ?c], []) else (committed_line s, edit_line s @ [word_of_nat ?c]))"
        using ins True len by (simp add: line_edit_def Let_def)
      moreover have "runs (input_char c) s Q = runs (kdo (kmod (\<lambda>s. s\<lparr>inp_buf := (inp_buf s)[unat (inp_e s mod INPUT_BUF) := word_of_nat ?c], inp_e := inp_e s + 1\<rparr>)) (\<lambda>_.
           kdo (consputc ?c) (\<lambda>_.
           kdo (kget (\<lambda>s. inp_e s = inp_r s + INPUT_BUF)) (\<lambda>full.
           kwhen (?c = 0x0A \<or> ?c = ctrl 0x44 \<or> full)
             (kdo (kmod (\<lambda>s. s\<lparr>inp_w := inp_e s\<rparr>)) (\<lambda>_. wakeup CInput)))))) s Q" for Q
        using ins True room unfolding input_char_def Let_def by simp
      ultimately show ?thesis using a by (simp only:)
    next
      case False
      then have "line_edit c (committed_line s, edit_line s) = (committed_line s, edit_line s)"
        using ins le len by (auto simp: line_edit_def)
      then show ?thesis using False ins room assms(1) by (auto simp: input_char_def inp_step_def)
    qed
  qed
qed

lemma input_chars_law:
  assumes "cons_ready s" "\<forall>c \<in> set cs. c < 256"
  shows "runs (input_chars cs d) s (\<lambda>dump t. dump = (d \<or> ctrl 0x50 \<in> set cs) \<and>
     inp_step (fold line_edit (filter (\<lambda>c. c \<noteq> ctrl 0x50) cs) (committed_line s, edit_line s)) s t)"
  using assms
proof (induction cs arbitrary: s d)
  case (Cons c cs)
  show ?case
  proof (cases "c = ctrl 0x50")
    case True
    have "runs (input_chars cs True) s (\<lambda>dump t. dump = (True \<or> ctrl 0x50 \<in> set cs) \<and>
        inp_step (fold line_edit (filter (\<lambda>c. c \<noteq> ctrl 0x50) cs) (committed_line s, edit_line s)) s t)"
      by (rule Cons.IH) (use Cons.prems in auto)
    then show ?thesis using True by simp
  next
    case False
    have "c < 256" using Cons.prems by simp
    from input_char_law [OF Cons.prems(1) this]
    have "runs (input_char c) s (\<lambda>_ u. runs (input_chars cs d) u (\<lambda>dump t. dump = (d \<or> ctrl 0x50 \<in> set cs) \<and>
        inp_step (fold line_edit (filter (\<lambda>c. c \<noteq> ctrl 0x50) cs) (line_edit c (committed_line s, edit_line s))) s t))"
    proof (rule runs_weaken)
      fix u assume u: "inp_step (line_edit c (committed_line s, edit_line s)) s u"
      then have v: "cons_ready u" "(committed_line u, edit_line u) = line_edit c (committed_line s, edit_line s)" "inp_r u = inp_r s" "held u = held s"
        by (simp_all add: inp_step_def)
      have "runs (input_chars cs d) u (\<lambda>dump t. dump = (d \<or> ctrl 0x50 \<in> set cs) \<and>
        inp_step (fold line_edit (filter (\<lambda>c. c \<noteq> ctrl 0x50) cs) (committed_line u, edit_line u)) u t)"
        using Cons.prems(2) by (intro Cons.IH [OF v(1)]) simp
      then show "runs (input_chars cs d) u (\<lambda>dump t. dump = (d \<or> ctrl 0x50 \<in> set cs) \<and>
        inp_step (fold line_edit (filter (\<lambda>c. c \<noteq> ctrl 0x50) cs) (line_edit c (committed_line s, edit_line s))) s t)"
        unfolding inp_step_from [OF v(3,4)] v(2) .
    qed
    then show ?thesis using False by auto
  qed
qed (simp add: inp_step_def)

section \<open>Printed numbers\<close>

definition undigit :: "nat \<Rightarrow> nat" where
  "undigit c = (if c < 0x61 then c - 0x30 else c - 0x61 + 10)"

lemma undigit_digit [simp]: "undigit (digit d) = d" if "d < 36"
  using that by (simp add: undigit_def digit_def)

lemma digit_range: "d < 16 \<Longrightarrow> 0x30 \<le> digit d \<and> digit d \<le> 0x66"
  by (auto simp: digit_def)

text \<open>The number a string of digits denotes, and the integer a string with a sign denotes.\<close>

definition number :: "nat \<Rightarrow> nat list \<Rightarrow> nat" where
  "number base cs = foldl (\<lambda>v c. base * v + undigit c) 0 cs"

definition signed_number :: "nat list \<Rightarrow> int" where
  "signed_number cs = (if cs \<noteq> [] \<and> hd cs = 0x2D then - int (number 10 (tl cs)) else int (number 10 cs))"

lemma number_print_digits:
  assumes "1 < base" "base \<le> 16"
  shows "number base (rev (print_digits base x)) = x"
  using assms
proof (induction base x rule: print_digits.induct)
  case (1 base x)
  have d: "undigit (digit (x mod base)) = x mod base"
    using "1.prems" mod_less_divisor [of base x] by (intro undigit_digit) linarith
  show ?case
  proof (cases "x div base = 0")
    case True
    then have "x mod base = x" using div_mult_mod_eq [of x base] by simp
    then show ?thesis using True d by (subst print_digits.simps) (simp add: number_def)
  next
    case False
    then have "number base (rev (print_digits base (x div base))) = x div base" using "1.IH" "1.prems" by simp
    then show ?thesis using False "1.prems" d by (subst print_digits.simps) (simp add: number_def)
  qed
qed

lemma print_digits_chars: "1 < base \<Longrightarrow> base \<le> 16 \<Longrightarrow> \<forall>c \<in> set (print_digits base x). 0x30 \<le> c \<and> c \<le> 0x66"
proof (induction base x rule: print_digits.induct)
  case (1 base x)
  have "x mod base < 16" using "1.prems" mod_less_divisor [of base x] by linarith
  from digit_range [OF this] show ?case using 1 by (subst print_digits.simps) auto
qed

lemma print_digits_nonempty: "print_digits base x \<noteq> []"
  by (subst print_digits.simps) simp

lemma sint_unat: "sint x = (if unat x < 2 ^ 31 then int (unat x) else int (unat x) - 2 ^ 32)" for x :: u32
proof -
  have b: "uint x < 2 ^ 32" "0 \<le> uint x" using uint_lt2p [of x] by simp_all
  have "sint x = take_bit 32 (uint x) - 2 ^ 32 * of_bool (bit (uint x) 31)"
    by (simp add: sint_uint signed_take_bit_eq_take_bit_minus)
  also have "take_bit 32 (uint x) = uint x" using b by (simp add: take_bit_int_eq_self)
  also have "bit (uint x) 31 \<longleftrightarrow> 2 ^ 31 \<le> uint x"
  proof -
    have "uint x div 2 ^ 31 = (if 2 ^ 31 \<le> uint x then 1 else 0)"
      using b by (auto intro!: int_div_pos_eq [where r = "uint x - 2 ^ 31"])
    then show ?thesis by (simp add: bit_iff_odd)
  qed
  finally have e: "sint x = uint x - 2 ^ 32 * of_bool (2 ^ 31 \<le> uint x)" .
  define n where "n = unat x"
  have u: "uint x = int n" unfolding n_def by (rule uint_nat)
  show ?thesis unfolding e u n_def [symmetric] by auto
qed

lemma signed_number_int_chars: "signed_number (int_chars x 10 True) = sint x"
proof (cases "sint x < 0")
  case True
  have l: "unat x < 2 ^ 32" using unsigned_less [of x, where ?'a = nat] by simp
  have m: "sint x = int (unat x) - 2 ^ 32" "0 < unat x" using True sint_unat [of x] by (auto split: if_splits)
  have "unat (- x) = 2 ^ 32 - unat x" using unat_sub_if_size [of 0 x] m(2) by (simp add: word_size)
  then have "int (unat (- x)) = - sint x" using m l by simp
  then show ?thesis using True number_print_digits [of 10 "unat (- x)"] by (simp add: int_chars_def Let_def signed_number_def)
next
  case False
  have l: "unat x < 2 ^ 32" using unsigned_less [of x, where ?'a = nat] by simp
  define n where "n = unat x"
  have "sint x = (if n < 2 ^ 31 then int n else int n - 2 ^ 32)" unfolding n_def by (rule sint_unat)
  then have "sint x = int n" using False l unfolding n_def [symmetric] by (auto split: if_splits)
  then have m: "sint x = int (unat x)" unfolding n_def .
  have "hd (rev (print_digits 10 (unat x))) \<noteq> 0x2D"
    using print_digits_chars [of 10 "unat x"] print_digits_nonempty [of 10 "unat x"] hd_in_set [of "rev (print_digits 10 (unat x))"] by fastforce
  then show ?thesis using False m number_print_digits [of 10 "unat x"] by (simp add: int_chars_def Let_def signed_number_def)
qed

lemma int_chars_small: "\<forall>c \<in> set (int_chars x 10 sg). c < 256"
  using print_digits_chars [of 10 "unat x"] print_digits_chars [of 10 "unat (- x)"] by (auto simp: int_chars_def Let_def)

lemma put_chars_law:
  assumes "screen_ok s"
  shows "runs (kfor consputc cs) s (\<lambda>_ t. screen_ok t \<and> out_frame s t \<and> uart_out t = uart_out s @ (if uart s then concat (map uart_bytes cs) else []))"
  using assms
proof (induction cs arbitrary: s)
  case (Cons c cs)
  have "runs (consputc c) s (\<lambda>_ u. runs (kfor consputc cs) u (\<lambda>_ t. screen_ok t \<and> out_frame s t \<and>
      uart_out t = uart_out s @ (if uart s then concat (map uart_bytes (c # cs)) else [])))"
    using consputc_law [OF Cons.prems, of c]
  proof (rule runs_weaken, elim conjE)
    fix u assume u: "screen_ok u" "out_frame s u" "uart_out u = uart_out s @ (if uart s then uart_bytes c else [])"
    have "uart u = uart s" by (rule out_frame_same(8) [OF u(2)])
    then show "runs (kfor consputc cs) u (\<lambda>_ t. screen_ok t \<and> out_frame s t \<and>
      uart_out t = uart_out s @ (if uart s then concat (map uart_bytes (c # cs)) else []))"
      by (intro runs_weaken [OF Cons.IH [OF u(1)]]) (use u out_frame_trans [OF u(2)] in auto)
  qed
  then show ?case by simp
qed (simp add: out_frame_refl)

lemma consoleintr_law:
  assumes "screen_ok s" "inp_inv s" "length (procs s) = NPROC" "L_ptable \<notin> set (held s)" "L_cons \<notin> set (held s)"
    and "\<forall>c \<in> set cs. c < 256"
  shows "runs (consoleintr cs) s (\<lambda>dump t. dump = (ctrl 0x50 \<in> set cs) \<and> screen_ok t \<and> inp_inv t \<and> inp_r t = inp_r s \<and> held t = held s \<and>
     (committed_line t, edit_line t) = fold line_edit (filter (\<lambda>c. c \<noteq> ctrl 0x50) cs) (committed_line s, edit_line s))"
proof -
  let ?s = "s\<lparr>held := L_cons # held s\<rparr>"
  have v: "committed_line ?s = committed_line s" "edit_line ?s = edit_line s" "inp_inv ?s = inp_inv s" by (rule inp_views_cong; simp)+
  have "cons_ready ?s" using assms v by (simp add: cons_ready_def screen_ok_def crt_pos_def)
  from input_chars_law [OF this assms(6), of False]
  have "runs (input_chars cs False) ?s (\<lambda>dump t. runs (kdo (release_lk L_cons) (\<lambda>_. kret dump)) t
     (\<lambda>dump t. dump = (ctrl 0x50 \<in> set cs) \<and> screen_ok t \<and> inp_inv t \<and> inp_r t = inp_r s \<and> held t = held s \<and>
     (committed_line t, edit_line t) = fold line_edit (filter (\<lambda>c. c \<noteq> ctrl 0x50) cs) (committed_line s, edit_line s)))"
  proof (rule runs_weaken, elim conjE)
    fix dump t
    assume d: "dump = (False \<or> ctrl 0x50 \<in> set cs)"
      and t: "inp_step (fold line_edit (filter (\<lambda>c. c \<noteq> ctrl 0x50) cs) (committed_line ?s, edit_line ?s)) ?s t"
    let ?t = "t\<lparr>held := held s\<rparr>"
    have vt: "committed_line ?t = committed_line t" "edit_line ?t = edit_line t" "inp_inv ?t = inp_inv t" by (rule inp_views_cong; simp)+
    show "runs (kdo (release_lk L_cons) (\<lambda>_. kret dump)) t
     (\<lambda>dump t. dump = (ctrl 0x50 \<in> set cs) \<and> screen_ok t \<and> inp_inv t \<and> inp_r t = inp_r s \<and> held t = held s \<and>
     (committed_line t, edit_line t) = fold line_edit (filter (\<lambda>c. c \<noteq> ctrl 0x50) cs) (committed_line s, edit_line s))"
      using t d v vt by (simp add: inp_step_def cons_ready_def screen_ok_def crt_pos_def)
  qed
  then show ?thesis using assms(5) by (simp add: consoleintr_def)
qed

section \<open>Properties\<close>

text \<open>
  C24. The line discipline. Whatever the counters of the circular input buffer are, and whether or not
  they have wrapped around, \<^verbatim>\<open>consoleintr\<close> has the effect of the two-queue editor \<open>line_edit\<close> on the
  characters waiting to be read and the line being edited: editing never touches completed input,
  a line becomes readable when it ends, at control-D, or when the buffer is full, and characters
  that do not fit are dropped. Control-P only asks for a process listing.
\<close>

theorem console_line_discipline:
  assumes "screen_ok s" "inp_inv s" "length (procs s) = NPROC" "L_ptable \<notin> set (held s)" "L_cons \<notin> set (held s)"
    and "\<forall>c \<in> set cs. c < 256"
  shows "runs (consoleintr cs) s (\<lambda>dump t. dump = (ctrl 0x50 \<in> set cs) \<and> screen_ok t \<and> inp_inv t \<and> inp_r t = inp_r s \<and> held t = held s \<and>
     (committed_line t, edit_line t) = fold line_edit (filter (\<lambda>c. c \<noteq> ctrl 0x50) cs) (committed_line s, edit_line s))"
  by (rule consoleintr_law [OF assms])

text \<open>
  C25. The screen. From a cursor in the 24 usable rows, printing any text neither panics nor writes
  outside screen memory, leaves the cursor there, changes nothing but the screen and the serial line,
  and sends each character to the serial line once, in order.
\<close>

theorem console_output_safe:
  assumes "screen_ok s" "BACKSPACE \<notin> set cs"
  shows "runs (kfor consputc cs) s (\<lambda>_ t. screen_ok t \<and> out_frame s t \<and>
     uart_out t = uart_out s @ (if uart s then map word_of_nat cs else []))"
proof -
  have u: "concat (map uart_bytes cs) = map word_of_nat cs" using assms(2) by (induction cs) (auto simp: uart_bytes_def)
  from put_chars_law [OF assms(1), of cs] show ?thesis unfolding u .
qed

text \<open>
  C26. Printed integers. \<^verbatim>\<open>printint(x, 10, 1)\<close> prints characters that read back as the integer \<^verbatim>\<open>x\<close>,
  the most negative one included.
\<close>

theorem printint_roundtrip:
  assumes "screen_ok s" "uart s"
  shows "runs (printint x 10 True) s (\<lambda>_ t. screen_ok t \<and>
     (\<exists>cs. uart_out t = uart_out s @ cs \<and> signed_number (map unat cs) = sint x))"
proof -
  have nb: "BACKSPACE \<notin> set (int_chars x 10 True)" using int_chars_small [of x True] by (auto simp: BACKSPACE_def)
  have "concat (map uart_bytes cs) = map word_of_nat cs" if "BACKSPACE \<notin> set cs" for cs
    using that by (induction cs) (auto simp: uart_bytes_def)
  note u = this [OF nb]
  have m: "map unat (map word_of_nat (int_chars x 10 True) :: u8 list) = int_chars x 10 True"
    using int_chars_small [of x True] by (auto simp: unat_of_nat intro!: map_idI)
  show ?thesis unfolding printint_def
    by (rule runs_weaken [OF put_chars_law [OF assms(1), of "int_chars x 10 True"]])
      (use assms(2) m signed_number_int_chars [of x] in \<open>auto simp: u simp del: map_map\<close>)
qed

text \<open>A console with an empty screen and the input counters about to wrap around.\<close>

definition demo_console :: kcons where
  "demo_console = klog.extend (demo_machine demo_disk 100) \<lparr>panicked = False, cons_locking = True, crt = replicate 2000 0, crt_hi = 0, crt_lo = 0,
     uart = True, uart_out = [], inp_buf = replicate 128 0, inp_r = - 2, inp_w = - 2, inp_e = - 2\<rparr>"

lemma demo_console_facts:
  "screen_ok demo_console" "inp_inv demo_console" "length (procs demo_console) = NPROC" "held demo_console = []" "uart demo_console"
  "uart_out demo_console = []" "committed_line demo_console = []" "edit_line demo_console = []" "inp_r demo_console = - 2"
  by (simp_all add: demo_console_def klog.defs demo_machine_def screen_ok_def crt_pos_def inp_inv_def n_committed_def n_edit_def
      edit_line_def committed_line_def ring_seg_def NPROC_def)

theorem console_line_discipline_witness:
  "runs (consoleintr [0x61, 0x62, 0x7F, 0x63, 0x0D, 0x64]) demo_console (\<lambda>dump t. \<not> dump \<and>
     committed_line t = [0x61, 0x63, 0x0A] \<and> edit_line t = [0x64] \<and> inp_r t = - 2)"
  by (rule runs_weaken [OF console_line_discipline [of demo_console "[0x61, 0x62, 0x7F, 0x63, 0x0D, 0x64]"]])
    (use demo_console_facts in \<open>simp_all add: line_edit_def ctrl_def\<close>)

theorem console_output_safe_witness:
  "runs (kfor consputc [0x68, 0x69, 0x0A]) demo_console (\<lambda>_ t. screen_ok t \<and> uart_out t = [0x68, 0x69, 0x0A])"
  by (rule runs_weaken [OF console_output_safe [of demo_console "[0x68, 0x69, 0x0A]"]])
    (use demo_console_facts in \<open>simp_all add: BACKSPACE_def\<close>)

theorem printint_roundtrip_witness:
  "runs (printint 0x80000000 10 True) demo_console (\<lambda>_ t. signed_number (map unat (uart_out t)) = - 2147483648)"
  by (rule runs_weaken [OF printint_roundtrip [of demo_console "0x80000000"]])
    (use demo_console_facts in \<open>auto simp: sint_unat\<close>)

end
