(* ===== verification/Keyboard.thy ===== *)
theory Keyboard
  imports Console
begin

text \<open>
  The keyboard driver, \<^verbatim>\<open>src/drivers/kbd/kbd.c\<close>, with the key tables of \<^verbatim>\<open>src/include/xv6/kbd.h\<close>:
  scan codes are translated to characters, with the state of the modifier keys as a bit set, and
  handed to the line editor of the console. A table is its leading entries followed by the
  designated ones; every other entry is 0.
\<close>

definition SHIFT :: u32 where [const_defs]: "SHIFT = 1"
definition CTL :: u32 where [const_defs]: "CTL = 2"
definition ALT :: u32 where [const_defs]: "ALT = 4"
definition CAPSLOCK :: u32 where [const_defs]: "CAPSLOCK = 8"
definition NUMLOCK :: u32 where [const_defs]: "NUMLOCK = 16"
definition SCROLLLOCK :: u32 where [const_defs]: "SCROLLLOCK = 32"
definition E0ESC :: u32 where [const_defs]: "E0ESC = 64"

definition shiftcode :: "nat \<Rightarrow> u32" where
  "shiftcode d = (case map_of [(0x1D, CTL), (0x2A, SHIFT), (0x36, SHIFT), (0x38, ALT), (0x9D, CTL), (0xB8, ALT)] d of
     None \<Rightarrow> 0 | Some w \<Rightarrow> w)"

definition togglecode :: "nat \<Rightarrow> u32" where
  "togglecode d = (case map_of [(0x3A, CAPSLOCK), (0x45, NUMLOCK), (0x46, SCROLLLOCK)] d of None \<Rightarrow> 0 | Some w \<Rightarrow> w)"

definition keymap :: "nat list \<Rightarrow> (nat \<times> nat) list \<Rightarrow> nat \<Rightarrow> nat" where
  "keymap lead special d =
     (if d < length lead then lead ! d else case map_of special d of None \<Rightarrow> 0 | Some c \<Rightarrow> c)"

definition normalmap :: "nat \<Rightarrow> nat" where
  "normalmap = keymap
     [0x00, 0x1B, 0x31, 0x32, 0x33, 0x34, 0x35, 0x36, 0x37, 0x38, 0x39, 0x30, 0x2D, 0x3D, 0x08, 0x09,
      0x71, 0x77, 0x65, 0x72, 0x74, 0x79, 0x75, 0x69, 0x6F, 0x70, 0x5B, 0x5D, 0x0A, 0x00, 0x61, 0x73,
      0x64, 0x66, 0x67, 0x68, 0x6A, 0x6B, 0x6C, 0x3B, 0x27, 0x60, 0x00, 0x5C, 0x7A, 0x78, 0x63, 0x76,
      0x62, 0x6E, 0x6D, 0x2C, 0x2E, 0x2F, 0x00, 0x2A, 0x00, 0x20, 0x00, 0x00, 0x00, 0x00, 0x00, 0x00,
      0x00, 0x00, 0x00, 0x00, 0x00, 0x00, 0x00, 0x37, 0x38, 0x39, 0x2D, 0x34, 0x35, 0x36, 0x2B, 0x31,
      0x32, 0x33, 0x30, 0x2E, 0x00, 0x00, 0x00, 0x00]
     [(0x9C, 0x0A), (0xB5, 0x2F), (0xC8, 0xE2), (0xD0, 0xE3), (0xC9, 0xE6), (0xD1, 0xE7), (0xCB, 0xE4), (0xCD, 0xE5), (0x97, 0xE0), (0xCF, 0xE1), (0xD2, 0xE8), (0xD3, 0xE9)]"

definition shiftmap :: "nat \<Rightarrow> nat" where
  "shiftmap = keymap
     [0x00, 0x1B, 0x21, 0x40, 0x23, 0x24, 0x25, 0x5E, 0x26, 0x2A, 0x28, 0x29, 0x5F, 0x2B, 0x08, 0x09,
      0x51, 0x57, 0x45, 0x52, 0x54, 0x59, 0x55, 0x49, 0x4F, 0x50, 0x7B, 0x7D, 0x0A, 0x00, 0x41, 0x53,
      0x44, 0x46, 0x47, 0x48, 0x4A, 0x4B, 0x4C, 0x3A, 0x22, 0x7E, 0x00, 0x7C, 0x5A, 0x58, 0x43, 0x56,
      0x42, 0x4E, 0x4D, 0x3C, 0x3E, 0x3F, 0x00, 0x2A, 0x00, 0x20, 0x00, 0x00, 0x00, 0x00, 0x00, 0x00,
      0x00, 0x00, 0x00, 0x00, 0x00, 0x00, 0x00, 0x37, 0x38, 0x39, 0x2D, 0x34, 0x35, 0x36, 0x2B, 0x31,
      0x32, 0x33, 0x30, 0x2E, 0x00, 0x00, 0x00, 0x00]
     [(0x9C, 0x0A), (0xB5, 0x2F), (0xC8, 0xE2), (0xD0, 0xE3), (0xC9, 0xE6), (0xD1, 0xE7), (0xCB, 0xE4), (0xCD, 0xE5), (0x97, 0xE0), (0xCF, 0xE1), (0xD2, 0xE8), (0xD3, 0xE9)]"

definition ctlmap :: "nat \<Rightarrow> nat" where
  "ctlmap = keymap
     [0x00, 0x00, 0x00, 0x00, 0x00, 0x00, 0x00, 0x00, 0x00, 0x00, 0x00, 0x00, 0x00, 0x00, 0x00, 0x00,
      0x11, 0x17, 0x05, 0x12, 0x14, 0x19, 0x15, 0x09, 0x0F, 0x10, 0x00, 0x00, 0x0D, 0x00, 0x01, 0x13,
      0x04, 0x06, 0x07, 0x08, 0x0A, 0x0B, 0x0C, 0x00, 0x00, 0x00, 0x00, 0x1C, 0x1A, 0x18, 0x03, 0x16,
      0x02, 0x0E, 0x0D, 0x00, 0x00, 0xEF, 0x00, 0x00]
     [(0x9C, 0x0D), (0xB5, 0xEF), (0xC8, 0xE2), (0xD0, 0xE3), (0xC9, 0xE6), (0xD1, 0xE7), (0xCB, 0xE4), (0xCD, 0xE5), (0x97, 0xE0), (0xCF, 0xE1), (0xD2, 0xE8), (0xD3, 0xE9)]"


definition charcode :: "u32 \<Rightarrow> nat \<Rightarrow> nat" where
  "charcode k = (if k = 0 then normalmap else if k = 1 then shiftmap else ctlmap)"

text \<open>One scan code in the buffer: the value \<^verbatim>\<open>kbdgetc\<close> returns and the new \<^verbatim>\<open>shift\<close>.\<close>

definition kbdgetc :: "u32 \<Rightarrow> u8 \<Rightarrow> nat \<times> u32" where
  "kbdgetc shift code =
     (let data = unat code in
      if data = 0xE0 then (0, shift OR E0ESC)
      else if data AND 0x80 \<noteq> 0 then
        (let data = (if shift AND E0ESC \<noteq> 0 then data else data AND 0x7F) in
         (0, shift AND NOT (shiftcode data OR E0ESC)))
      else
        (let esc = shift AND E0ESC \<noteq> 0;
             data = (if esc then data OR 0x80 else data);
             shift = (if esc then shift AND NOT E0ESC else shift);
             shift = (shift OR shiftcode data) XOR togglecode data;
             c = charcode (shift AND (CTL OR SHIFT)) data;
             c = (if shift AND CAPSLOCK \<noteq> 0 then
                    (if 0x61 \<le> c \<and> c \<le> 0x7A then c - 0x20
                     else if 0x41 \<le> c \<and> c \<le> 0x5A then c + 0x20 else c)
                  else c) in
         (c, shift)))"

primrec kbd_chars :: "u32 \<Rightarrow> u8 list \<Rightarrow> nat list \<times> u32" where
  "kbd_chars shift [] = ([], shift)"
| "kbd_chars shift (d # ds) =
     (let (c, shift) = kbdgetc shift d; (cs, shift) = kbd_chars shift ds in (c # cs, shift))"

text \<open>\<^verbatim>\<open>consoleintr(kbdgetc)\<close> when the controller holds the scan codes \<open>ds\<close>.\<close>

definition kbdintr :: "u32 \<Rightarrow> u8 list \<Rightarrow> ('x kcons_scheme, bool \<times> u32) kop" where
  "kbdintr shift ds =
     (let (cs, shift) = kbd_chars shift ds in
      kdo (consoleintr cs) (\<lambda>dump. kret (dump, shift)))"

section \<open>Characters stay in a byte\<close>

lemma keymap_bound:
  assumes "\<forall>c \<in> set lead. c < 256" "\<forall>(i, c) \<in> set special. c < 256"
  shows "keymap lead special d < 256"
proof (cases "d < length lead")
  case True
  then show ?thesis using assms(1) by (simp add: keymap_def)
next
  case False
  then show ?thesis using assms(2) by (auto simp: keymap_def split: option.split dest!: map_of_SomeD)
qed

lemma charcode_bound: "charcode k d < 256"
proof -
  have "normalmap d < 256" unfolding normalmap_def by (rule keymap_bound) simp_all
  moreover have "shiftmap d < 256" unfolding shiftmap_def by (rule keymap_bound) simp_all
  moreover have "ctlmap d < 256" unfolding ctlmap_def by (rule keymap_bound) simp_all
  ultimately show ?thesis by (simp add: charcode_def)
qed

lemma kbdgetc_bound: "fst (kbdgetc shift code) < 256"
proof -
  have b: "(if P then if 0x61 \<le> c \<and> c \<le> 0x7A then c - 0x20 else if 0x41 \<le> c \<and> c \<le> 0x5A then c + 0x20 else c else c) < 256"
    if "c < 256" for c :: nat and P using that by auto
  show ?thesis unfolding kbdgetc_def Let_def by (auto intro!: b charcode_bound)
qed

lemma kbd_chars_bound: "\<forall>c \<in> set (fst (kbd_chars shift ds)). c < 256"
proof (induction ds arbitrary: shift)
  case (Cons d ds)
  show ?case using kbdgetc_bound [of shift d] Cons [of "snd (kbdgetc shift d)"]
    by (auto simp: Let_def split: prod.splits)
qed simp

section \<open>Properties\<close>



end
