(* ===== verification/Fs.thy ===== *)
theory Fs
  imports Console
begin

text \<open>
  The file system, \<^verbatim>\<open>src/fs/sfs/fs.c\<close>: free blocks, inodes and the inode cache, file contents,
  directories and path names; and the half of the console driver that is reached through a device
  inode (\<^verbatim>\<open>consoleread\<close>, \<^verbatim>\<open>consolewrite\<close>, \<^verbatim>\<open>consoleinit\<close> of \<^verbatim>\<open>src/drivers/console/console.c\<close>).

  A pointer to an inode is its index in \<^verbatim>\<open>icache.inode\<close>. An on-disk inode is 64 bytes of its block:
  four 16-bit fields, the size, and 13 block numbers. \<open>readi\<close> returns the bytes it copies to \<^verbatim>\<open>dst\<close>
  beside its result, \<open>writei\<close> takes the bytes at \<^verbatim>\<open>src\<close>. The function pointers of \<^verbatim>\<open>devsw\<close> are the
  names of drivers. A path is its bytes without the terminator.
\<close>

definition NINODE :: nat where [const_defs]: "NINODE = 50"
definition NDEV :: nat where [const_defs]: "NDEV = 10"
definition ROOTDEV :: nat where [const_defs]: "ROOTDEV = 1"
definition ROOTINO :: nat where [const_defs]: "ROOTINO = 1"
definition NDIRECT :: nat where [const_defs]: "NDIRECT = 12"
definition NINDIRECT :: nat where [const_defs]: "NINDIRECT = 128"
definition MAXFILE :: nat where [const_defs]: "MAXFILE = NDIRECT + NINDIRECT"
definition IPB :: nat where [const_defs]: "IPB = 8"
definition BPB :: nat where [const_defs]: "BPB = BSIZE * 8"
definition DIRSIZ :: nat where [const_defs]: "DIRSIZ = 14"
definition DIRENT :: u32 where [const_defs]: "DIRENT = 16"
definition T_DIR :: u16 where [const_defs]: "T_DIR = 1"
definition T_FILE :: u16 where [const_defs]: "T_FILE = 2"
definition T_DEV :: u16 where [const_defs]: "T_DEV = 3"
definition CONSOLE :: nat where [const_defs]: "CONSOLE = 1"

record dinode =
  d_type :: u16
  d_major :: u16
  d_minor :: u16
  d_nlink :: u16
  d_size :: u32
  d_addrs :: "nat list"

record inode = dinode +
  i_dev :: nat
  i_inum :: nat
  i_ref :: int
  i_valid :: bool

datatype driver = ConsoleDriver

record kfs = kcons +
  fs_sb :: superblock
  inodes :: "inode list"
  devsw_read :: "nat \<Rightarrow> driver option"
  devsw_write :: "nat \<Rightarrow> driver option"

definition upd_inode :: "nat \<Rightarrow> (inode \<Rightarrow> inode) \<Rightarrow> 'x kfs_scheme \<Rightarrow> 'x kfs_scheme" where
  "upd_inode i f s = s\<lparr>inodes := (inodes s)[i := f (inodes s ! i)]\<rparr>"

definition IBLOCK :: "nat \<Rightarrow> superblock \<Rightarrow> nat" where "IBLOCK i sb = i div IPB + sb_inodestart sb"
definition BBLOCK :: "nat \<Rightarrow> superblock \<Rightarrow> nat" where "BBLOCK b sb = b div BPB + sb_bmapstart sb"

section \<open>Blocks\<close>

definition bzero :: "nat \<Rightarrow> nat \<Rightarrow> ('x kfs_scheme, unit) kop" where
  "bzero dev bno =
     kdo (bread dev bno) (\<lambda>bp.
     kdo (set_data bp (\<lambda>_. replicate BSIZE 0)) (\<lambda>_.
     kdo (log_write bp) (\<lambda>_.
     brelse bp)))"

definition bit_free :: "u8 list \<Rightarrow> nat \<Rightarrow> bool" where
  "bit_free data bi \<longleftrightarrow> data ! (bi div 8) AND push_bit (bi mod 8) 1 = 0"

definition bit_set :: "nat \<Rightarrow> u8 list \<Rightarrow> u8 list" where
  "bit_set bi data = data[bi div 8 := data ! (bi div 8) OR push_bit (bi mod 8) 1]"

definition bit_clear :: "nat \<Rightarrow> u8 list \<Rightarrow> u8 list" where
  "bit_clear bi data = data[bi div 8 := data ! (bi div 8) AND NOT (push_bit (bi mod 8) 1)]"

text \<open>The outer loop of \<^verbatim>\<open>balloc\<close>, over the first block numbers of the bitmap blocks.\<close>

primrec balloc_from :: "nat \<Rightarrow> nat list \<Rightarrow> ('x kfs_scheme, nat) kop" where
  "balloc_from dev [] = kpanic ''balloc: out of blocks''"
| "balloc_from dev (b # bs) =
     kdo (kget fs_sb) (\<lambda>sb.
     kdo (bread dev (BBLOCK b sb)) (\<lambda>bp.
     kdo (kget (\<lambda>s. List.find (bit_free (b_data (bufs s ! bp))) [0..<min BPB (sb_size sb - b)])) (\<lambda>r.
     case r of
       Some bi \<Rightarrow>
         kdo (set_data bp (bit_set bi)) (\<lambda>_.
         kdo (log_write bp) (\<lambda>_.
         kdo (brelse bp) (\<lambda>_.
         kdo (bzero dev (b + bi)) (\<lambda>_.
         kret (b + bi)))))
     | None \<Rightarrow>
         kdo (brelse bp) (\<lambda>_. balloc_from dev bs))))"

definition balloc :: "nat \<Rightarrow> ('x kfs_scheme, nat) kop" where
  "balloc dev =
     kdo (kget (\<lambda>s. sb_size (fs_sb s))) (\<lambda>n.
     balloc_from dev (map (\<lambda>i. i * BPB) [0..<(n + BPB - 1) div BPB]))"

definition bfree :: "nat \<Rightarrow> nat \<Rightarrow> ('x kfs_scheme, unit) kop" where
  "bfree dev b =
     kdo (readsb dev) (\<lambda>sb.
     kdo (kmod (\<lambda>s. s\<lparr>fs_sb := sb\<rparr>)) (\<lambda>_.
     kdo (bread dev (BBLOCK b sb)) (\<lambda>bp.
     kdo (kget (\<lambda>s. bit_free (b_data (bufs s ! bp)) (b mod BPB))) (\<lambda>fr.
     if fr then kpanic ''freeing free block''
     else
     kdo (set_data bp (bit_clear (b mod BPB))) (\<lambda>_.
     kdo (log_write bp) (\<lambda>_.
     brelse bp))))))"

section \<open>Inodes\<close>

definition get16 :: "u8 list \<Rightarrow> nat \<Rightarrow> u16" where
  "get16 d off = word_of_nat (of_le (bytes_at off 2 d))"

definition put16 :: "u8 list \<Rightarrow> nat \<Rightarrow> u16 \<Rightarrow> u8 list" where
  "put16 d off w = blit off (to_le 2 (unat w)) d"

text \<open>Reading and writing the fields of \<^verbatim>\<open>(struct dinode*)data + inum%IPB\<close>.\<close>

definition get_dinode :: "nat \<Rightarrow> u8 list \<Rightarrow> dinode" where
  "get_dinode inum d =
     (let o0 = inum mod IPB * 64 in
      \<lparr>d_type = get16 d o0, d_major = get16 d (o0 + 2), d_minor = get16 d (o0 + 4), d_nlink = get16 d (o0 + 6),
       d_size = word_of_nat (get32 d (o0 + 8)), d_addrs = map (\<lambda>k. get32 d (o0 + 12 + 4 * k)) [0..<NDIRECT + 1]\<rparr>)"

definition put_dinode :: "nat \<Rightarrow> 'x dinode_scheme \<Rightarrow> u8 list \<Rightarrow> u8 list" where
  "put_dinode inum ip d =
     (let o0 = inum mod IPB * 64;
          d = put16 d o0 (d_type ip);
          d = put16 d (o0 + 2) (d_major ip);
          d = put16 d (o0 + 4) (d_minor ip);
          d = put16 d (o0 + 6) (d_nlink ip);
          d = put32 d (o0 + 8) (unat (d_size ip)) in
      fold (\<lambda>k d. put32 d (o0 + 12 + 4 * k) (d_addrs ip ! k)) [0..<NDIRECT + 1] d)"

definition iinit :: "nat \<Rightarrow> ('x kfs_scheme, unit) kop" where
  "iinit dev =
     kdo (kfor (\<lambda>i. initsleeplock (SInode i)) [0..<NINODE]) (\<lambda>_.
     kdo (readsb dev) (\<lambda>sb.
     kmod (\<lambda>s. s\<lparr>fs_sb := sb\<rparr>)))"

definition iget :: "nat \<Rightarrow> nat \<Rightarrow> ('x kfs_scheme, nat) kop" where
  "iget dev inum =
     kdo (acquire_lk L_icache) (\<lambda>_.
     kdo (kget inodes) (\<lambda>is.
     case List.find (\<lambda>i. i_ref (is ! i) > 0 \<and> i_dev (is ! i) = dev \<and> i_inum (is ! i) = inum) [0..<NINODE] of
       Some i \<Rightarrow>
         kdo (kmod (upd_inode i (\<lambda>x. x\<lparr>i_ref := i_ref x + 1\<rparr>))) (\<lambda>_.
         kdo (release_lk L_icache) (\<lambda>_.
         kret i))
     | None \<Rightarrow>
         (case List.find (\<lambda>i. i_ref (is ! i) = 0) [0..<NINODE] of
            None \<Rightarrow> kpanic ''iget: no inodes''
          | Some i \<Rightarrow>
              kdo (kmod (upd_inode i (\<lambda>x. x\<lparr>i_dev := dev, i_inum := inum, i_ref := 1, i_valid := False\<rparr>))) (\<lambda>_.
              kdo (release_lk L_icache) (\<lambda>_.
              kret i)))))"

primrec ialloc_from :: "nat \<Rightarrow> u16 \<Rightarrow> nat list \<Rightarrow> ('x kfs_scheme, nat) kop" where
  "ialloc_from dev type [] = kpanic ''ialloc: no inodes''"
| "ialloc_from dev type (inum # ns) =
     kdo (kget fs_sb) (\<lambda>sb.
     kdo (bread dev (IBLOCK inum sb)) (\<lambda>bp.
     kdo (kget (\<lambda>s. d_type (get_dinode inum (b_data (bufs s ! bp))))) (\<lambda>t.
     if t = 0 then
       kdo (set_data bp (\<lambda>d. put16 (blit (inum mod IPB * 64) (replicate 64 0) d) (inum mod IPB * 64) type)) (\<lambda>_.
       kdo (log_write bp) (\<lambda>_.
       kdo (brelse bp) (\<lambda>_.
       iget dev inum)))
     else
       kdo (brelse bp) (\<lambda>_. ialloc_from dev type ns))))"

definition ialloc :: "nat \<Rightarrow> u16 \<Rightarrow> ('x kfs_scheme, nat) kop" where
  "ialloc dev type =
     kdo (kget (\<lambda>s. sb_ninodes (fs_sb s))) (\<lambda>n.
     ialloc_from dev type [1..<n])"

definition iupdate :: "nat \<Rightarrow> ('x kfs_scheme, unit) kop" where
  "iupdate i =
     kdo (kget (\<lambda>s. inodes s ! i)) (\<lambda>ip.
     kdo (kget fs_sb) (\<lambda>sb.
     kdo (bread (i_dev ip) (IBLOCK (i_inum ip) sb)) (\<lambda>bp.
     kdo (set_data bp (put_dinode (i_inum ip) ip)) (\<lambda>_.
     kdo (log_write bp) (\<lambda>_.
     brelse bp)))))"

definition idup :: "nat \<Rightarrow> ('x kfs_scheme, nat) kop" where
  "idup i =
     kdo (acquire_lk L_icache) (\<lambda>_.
     kdo (kmod (upd_inode i (\<lambda>x. x\<lparr>i_ref := i_ref x + 1\<rparr>))) (\<lambda>_.
     kdo (release_lk L_icache) (\<lambda>_.
     kret i)))"

definition load_inode :: "dinode \<Rightarrow> inode \<Rightarrow> inode" where
  "load_inode d x = x\<lparr>d_type := d_type d, d_major := d_major d, d_minor := d_minor d, d_nlink := d_nlink d,
     d_size := d_size d, d_addrs := d_addrs d\<rparr>"

definition ilock :: "nat \<Rightarrow> ('x kfs_scheme, unit) kop" where
  "ilock i =
     kdo (kget (\<lambda>s. i_ref (inodes s ! i))) (\<lambda>r.
     if r < 1 then kpanic ''ilock''
     else
     kdo (acquiresleep (SInode i)) (\<lambda>_.
     kdo (kget (\<lambda>s. inodes s ! i)) (\<lambda>ip.
     if i_valid ip then kret ()
     else
     kdo (kget fs_sb) (\<lambda>sb.
     kdo (bread (i_dev ip) (IBLOCK (i_inum ip) sb)) (\<lambda>bp.
     kdo (kget (\<lambda>s. get_dinode (i_inum ip) (b_data (bufs s ! bp)))) (\<lambda>d.
     kdo (kmod (upd_inode i (load_inode d))) (\<lambda>_.
     kdo (brelse bp) (\<lambda>_.
     kdo (kmod (upd_inode i (\<lambda>x. x\<lparr>i_valid := True\<rparr>))) (\<lambda>_.
     kdo (kget (\<lambda>s. d_type (inodes s ! i))) (\<lambda>t.
     if t = 0 then kpanic ''ilock: no type'' else kret ()))))))))))"

definition iunlock :: "nat \<Rightarrow> ('x kfs_scheme, unit) kop" where
  "iunlock i =
     kdo (holdingsleep (SInode i)) (\<lambda>h.
     kdo (kget (\<lambda>s. i_ref (inodes s ! i))) (\<lambda>r.
     if \<not> h \<or> r < 1 then kpanic ''iunlock'' else releasesleep (SInode i)))"

section \<open>Contents\<close>

definition set_addr :: "nat \<Rightarrow> nat \<Rightarrow> inode \<Rightarrow> inode" where
  "set_addr k a x = x\<lparr>d_addrs := (d_addrs x)[k := a]\<rparr>"

definition bmap_direct :: "nat \<Rightarrow> nat \<Rightarrow> ('x kfs_scheme, nat) kop" where
  "bmap_direct i k =
     kdo (kget (\<lambda>s. inodes s ! i)) (\<lambda>ip.
     let addr = d_addrs ip ! k in
     if addr = 0 then
       kdo (balloc (i_dev ip)) (\<lambda>a.
       kdo (kmod (upd_inode i (set_addr k a))) (\<lambda>_.
       kret a))
     else kret addr)"

definition bmap :: "nat \<Rightarrow> nat \<Rightarrow> ('x kfs_scheme, nat) kop" where
  "bmap i bn =
     (if bn < NDIRECT then bmap_direct i bn
      else
      let bn = bn - NDIRECT in
      if bn < NINDIRECT then
        kdo (bmap_direct i NDIRECT) (\<lambda>addr.
        kdo (kget (\<lambda>s. i_dev (inodes s ! i))) (\<lambda>dev.
        kdo (bread dev addr) (\<lambda>bp.
        kdo (kget (\<lambda>s. get32 (b_data (bufs s ! bp)) (4 * bn))) (\<lambda>addr.
        if addr = 0 then
          kdo (balloc dev) (\<lambda>a.
          kdo (set_data bp (\<lambda>d. put32 d (4 * bn) a)) (\<lambda>_.
          kdo (log_write bp) (\<lambda>_.
          kdo (brelse bp) (\<lambda>_.
          kret a))))
        else
          kdo (brelse bp) (\<lambda>_.
          kret addr)))))
      else kpanic ''bmap: out of range'')"

definition itrunc :: "nat \<Rightarrow> ('x kfs_scheme, unit) kop" where
  "itrunc i =
     kdo (kget (\<lambda>s. i_dev (inodes s ! i))) (\<lambda>dev.
     kdo (kfor (\<lambda>k.
       kdo (kget (\<lambda>s. d_addrs (inodes s ! i) ! k)) (\<lambda>a.
       kwhen (a \<noteq> 0)
         (kdo (bfree dev a) (\<lambda>_.
          kmod (upd_inode i (set_addr k 0)))))) [0..<NDIRECT]) (\<lambda>_.
     kdo (kget (\<lambda>s. d_addrs (inodes s ! i) ! NDIRECT)) (\<lambda>ind.
     kdo (kwhen (ind \<noteq> 0)
       (kdo (bread dev ind) (\<lambda>bp.
        kdo (kfor (\<lambda>j.
          kdo (kget (\<lambda>s. get32 (b_data (bufs s ! bp)) (4 * j))) (\<lambda>a.
          kwhen (a \<noteq> 0) (bfree dev a))) [0..<NINDIRECT]) (\<lambda>_.
        kdo (brelse bp) (\<lambda>_.
        kdo (bfree dev ind) (\<lambda>_.
        kmod (upd_inode i (set_addr NDIRECT 0)))))))) (\<lambda>_.
     kdo (kmod (upd_inode i (\<lambda>x. x\<lparr>d_size := 0\<rparr>))) (\<lambda>_.
     iupdate i)))))"

definition iput :: "nat \<Rightarrow> ('x kfs_scheme, unit) kop" where
  "iput i =
     kdo (acquiresleep (SInode i)) (\<lambda>_.
     kdo (kget (\<lambda>s. i_valid (inodes s ! i) \<and> d_nlink (inodes s ! i) = 0)) (\<lambda>gone.
     kdo (kwhen gone
       (kdo (acquire_lk L_icache) (\<lambda>_.
        kdo (kget (\<lambda>s. i_ref (inodes s ! i))) (\<lambda>r.
        kdo (release_lk L_icache) (\<lambda>_.
        kwhen (r = 1)
          (kdo (itrunc i) (\<lambda>_.
           kdo (kmod (upd_inode i (\<lambda>x. x\<lparr>d_type := 0\<rparr>))) (\<lambda>_.
           kdo (iupdate i) (\<lambda>_.
           kmod (upd_inode i (\<lambda>x. x\<lparr>i_valid := False\<rparr>))))))))))) (\<lambda>_.
     kdo (releasesleep (SInode i)) (\<lambda>_.
     kdo (acquire_lk L_icache) (\<lambda>_.
     kdo (kmod (upd_inode i (\<lambda>x. x\<lparr>i_ref := i_ref x - 1\<rparr>))) (\<lambda>_.
     release_lk L_icache))))))"

definition iunlockput :: "nat \<Rightarrow> ('x kfs_scheme, unit) kop" where
  "iunlockput i = kdo (iunlock i) (\<lambda>_. iput i)"

record stat =
  st_type :: u16
  st_dev :: nat
  st_ino :: nat
  st_nlink :: u16
  st_size :: u32

definition stati :: "nat \<Rightarrow> ('x kfs_scheme, stat) kop" where
  "stati i =
     kget (\<lambda>s. let ip = inodes s ! i in
       \<lparr>st_type = d_type ip, st_dev = i_dev ip, st_ino = i_inum ip, st_nlink = d_nlink ip, st_size = d_size ip\<rparr>)"

section \<open>The console as a device\<close>

text \<open>The loop of \<^verbatim>\<open>consoleread\<close> with \<open>n\<close> bytes to go; \<open>None\<close> is the return of \<open>-1\<close> for a killed process.
  \<open>sleep\<close> leaves the CPU; the loop goes on in \<open>consoleread_resume\<close>.\<close>

primrec consoleread_loop :: "nat \<Rightarrow> nat \<Rightarrow> u8 list \<Rightarrow> ('x kfs_scheme, u8 list option) kop" where
  "consoleread_loop target 0 dst = kret (Some dst)"
| "consoleread_loop target (Suc n) dst =
     kdo (kget (\<lambda>s. inp_r s = inp_w s)) (\<lambda>empty.
     if empty then
       kdo curproc (\<lambda>p.
       kdo (kget (\<lambda>s. p_killed (procs s ! p))) (\<lambda>k.
       if k then kret None
       else kdo (sleep CInput (Some L_cons)) (\<lambda>_. kfail Diverge)))
     else
       kdo (kget (\<lambda>s. inp_at (inp_r s) s)) (\<lambda>c.
       kdo (kmod (\<lambda>s. s\<lparr>inp_r := inp_r s + 1\<rparr>)) (\<lambda>_.
       if c = word_of_nat (ctrl 0x44) then
         kdo (kwhen (Suc n < target) (kmod (\<lambda>s. s\<lparr>inp_r := inp_r s - 1\<rparr>))) (\<lambda>_.
         kret (Some dst))
       else if c = 0x0A then kret (Some (dst @ [c]))
       else consoleread_loop target n (dst @ [c]))))"

definition consoleread_done :: "nat \<Rightarrow> u8 list option \<Rightarrow> ('x kfs_scheme, int \<times> u8 list) kop" where
  "consoleread_done i r =
     kdo (release_lk L_cons) (\<lambda>_.
     kdo (ilock i) (\<lambda>_.
     kret (case r of None \<Rightarrow> (- 1, []) | Some dst \<Rightarrow> (int (length dst), dst))))"

definition consoleread :: "nat \<Rightarrow> int \<Rightarrow> ('x kfs_scheme, int \<times> u8 list) kop" where
  "consoleread i n =
     kdo (iunlock i) (\<lambda>_.
     kdo (acquire_lk L_cons) (\<lambda>_.
     kdo (consoleread_loop (nat n) (nat n) []) (\<lambda>r.
     consoleread_done i r)))"

definition consoleread_resume :: "nat \<Rightarrow> nat \<Rightarrow> nat \<Rightarrow> u8 list \<Rightarrow> ('x kfs_scheme, int \<times> u8 list) kop" where
  "consoleread_resume i target n dst =
     kdo (sleep_resume (Some L_cons)) (\<lambda>_.
     kdo (consoleread_loop target n dst) (\<lambda>r.
     consoleread_done i r))"

definition consolewrite :: "nat \<Rightarrow> u8 list \<Rightarrow> int \<Rightarrow> ('x kfs_scheme, int) kop" where
  "consolewrite i src n =
     kdo (iunlock i) (\<lambda>_.
     kdo (acquire_lk L_cons) (\<lambda>_.
     kdo (kfor (\<lambda>b. consputc (unat b)) (take (nat n) src)) (\<lambda>_.
     kdo (release_lk L_cons) (\<lambda>_.
     kdo (ilock i) (\<lambda>_.
     kret n)))))"

definition consoleinit :: "('x kfs_scheme, unit) kop" where
  "consoleinit =
     kmod (\<lambda>s. s\<lparr>devsw_write := (devsw_write s)(CONSOLE := Some ConsoleDriver),
       devsw_read := (devsw_read s)(CONSOLE := Some ConsoleDriver), cons_locking := True\<rparr>)"

section \<open>Reading and writing files\<close>

definition chunk :: "u32 \<Rightarrow> u32 \<Rightarrow> u32 \<Rightarrow> u32" where
  "chunk n tot off = min (n - tot) (512 - off mod 512)"

text \<open>Each iteration makes progress, so \<open>n + 1\<close> iterations are enough.\<close>

primrec readi_loop :: "nat \<Rightarrow> nat \<Rightarrow> u32 \<Rightarrow> u32 \<Rightarrow> u32 \<Rightarrow> u8 list \<Rightarrow> ('x kfs_scheme, u8 list) kop" where
  "readi_loop 0 i off n tot dst = kfail Diverge"
| "readi_loop (Suc k) i off n tot dst =
     (if tot < n then
        kdo (bmap i (unat (off div 512))) (\<lambda>b.
        kdo (kget (\<lambda>s. i_dev (inodes s ! i))) (\<lambda>dev.
        kdo (bread dev b) (\<lambda>bp.
        let m = chunk n tot off in
        kdo (kget (\<lambda>s. bytes_at (unat (off mod 512)) (unat m) (b_data (bufs s ! bp)))) (\<lambda>bs.
        kdo (brelse bp) (\<lambda>_.
        readi_loop k i (off + m) n (tot + m) (dst @ bs))))))
      else kret dst)"

definition readi :: "nat \<Rightarrow> u32 \<Rightarrow> u32 \<Rightarrow> ('x kfs_scheme, int \<times> u8 list) kop" where
  "readi i off n =
     kdo (kget (\<lambda>s. inodes s ! i)) (\<lambda>ip.
     if d_type ip = T_DEV then
       kdo (kget (\<lambda>s. if sint (d_major ip) < 0 \<or> sint (d_major ip) \<ge> int NDEV then None
                      else devsw_read s (nat (sint (d_major ip))))) (\<lambda>drv.
       case drv of None \<Rightarrow> kret (- 1, []) | Some ConsoleDriver \<Rightarrow> consoleread i (sint n))
     else if off > d_size ip \<or> off + n < off then kret (- 1, [])
     else
     let n = (if off + n > d_size ip then d_size ip - off else n) in
     kdo (readi_loop (unat n + 1) i off n 0 []) (\<lambda>dst.
     kret (sint n, dst)))"

primrec writei_loop :: "nat \<Rightarrow> nat \<Rightarrow> u8 list \<Rightarrow> u32 \<Rightarrow> u32 \<Rightarrow> u32 \<Rightarrow> ('x kfs_scheme, u32) kop" where
  "writei_loop 0 i src off n tot = kfail Diverge"
| "writei_loop (Suc k) i src off n tot =
     (if tot < n then
        kdo (bmap i (unat (off div 512))) (\<lambda>b.
        kdo (kget (\<lambda>s. i_dev (inodes s ! i))) (\<lambda>dev.
        kdo (bread dev b) (\<lambda>bp.
        let m = chunk n tot off in
        kdo (set_data bp (blit (unat (off mod 512)) (bytes_at (unat tot) (unat m) src))) (\<lambda>_.
        kdo (log_write bp) (\<lambda>_.
        kdo (brelse bp) (\<lambda>_.
        writei_loop k i src (off + m) n (tot + m)))))))
      else kret off)"

definition writei :: "nat \<Rightarrow> u8 list \<Rightarrow> u32 \<Rightarrow> u32 \<Rightarrow> ('x kfs_scheme, int) kop" where
  "writei i src off n =
     kdo (kget (\<lambda>s. inodes s ! i)) (\<lambda>ip.
     if d_type ip = T_DEV then
       kdo (kget (\<lambda>s. if sint (d_major ip) < 0 \<or> sint (d_major ip) \<ge> int NDEV then None
                      else devsw_write s (nat (sint (d_major ip))))) (\<lambda>drv.
       case drv of None \<Rightarrow> kret (- 1) | Some ConsoleDriver \<Rightarrow> consolewrite i src (sint n))
     else if off > d_size ip \<or> off + n < off then kret (- 1)
     else if off + n > of_nat (MAXFILE * BSIZE) then kret (- 1)
     else
     kdo (writei_loop (unat n + 1) i src off n 0) (\<lambda>off.
     kdo (kget (\<lambda>s. d_size (inodes s ! i))) (\<lambda>sz.
     kdo (kwhen (n > 0 \<and> off > sz)
       (kdo (kmod (upd_inode i (\<lambda>x. x\<lparr>d_size := off\<rparr>))) (\<lambda>_.
        iupdate i))) (\<lambda>_.
     kret (sint n)))))"

section \<open>Directories\<close>

definition lchar :: "u8 list \<Rightarrow> nat \<Rightarrow> u8" where
  "lchar s k = (if k < length s then s ! k else 0)"

text \<open>\<^verbatim>\<open>strncmp(s, t, DIRSIZ)\<close>, on strings that end at a zero or at the end of the list.\<close>

primrec namecmp_from :: "nat \<Rightarrow> nat \<Rightarrow> u8 list \<Rightarrow> u8 list \<Rightarrow> int" where
  "namecmp_from 0 k s t = 0"
| "namecmp_from (Suc n) k s t =
     (if lchar s k \<noteq> 0 \<and> lchar s k = lchar t k then namecmp_from n (k + 1) s t
      else uint (lchar s k) - uint (lchar t k))"

definition namecmp :: "u8 list \<Rightarrow> u8 list \<Rightarrow> int" where
  "namecmp s t = namecmp_from DIRSIZ 0 s t"

definition de_inum :: "u8 list \<Rightarrow> nat" where "de_inum de = unat (get16 de 0)"
definition de_name :: "u8 list \<Rightarrow> u8 list" where "de_name de = bytes_at 2 DIRSIZ de"

definition mk_dirent :: "u8 list \<Rightarrow> nat \<Rightarrow> u8 list" where
  "mk_dirent name inum =
     (let n = take DIRSIZ (takeWhile (\<lambda>c. c \<noteq> 0) name) in
      to_le 2 inum @ n @ replicate (DIRSIZ - length n) 0)"

primrec dirlookup_from :: "nat \<Rightarrow> nat \<Rightarrow> u8 list \<Rightarrow> u32 \<Rightarrow> ('x kfs_scheme, (nat \<times> u32) option) kop" where
  "dirlookup_from 0 i name off = kfail Diverge"
| "dirlookup_from (Suc k) i name off =
     kdo (kget (\<lambda>s. inodes s ! i)) (\<lambda>dp.
     if off < d_size dp then
       kdo (readi i off DIRENT) (\<lambda>(r, de).
       if r \<noteq> sint DIRENT then kpanic ''dirlookup read''
       else if de_inum de = 0 then dirlookup_from k i name (off + DIRENT)
       else if namecmp name (de_name de) = 0 then
         kdo (iget (i_dev dp) (de_inum de)) (\<lambda>ip.
         kret (Some (ip, off)))
       else dirlookup_from k i name (off + DIRENT))
     else kret None)"

text \<open>The inode found and the offset of its entry, which \<^verbatim>\<open>*poff\<close> is set to.\<close>

definition dirlookup :: "nat \<Rightarrow> u8 list \<Rightarrow> ('x kfs_scheme, (nat \<times> u32) option) kop" where
  "dirlookup i name =
     kdo (kget (\<lambda>s. inodes s ! i)) (\<lambda>dp.
     if d_type dp \<noteq> T_DIR then kpanic ''dirlookup not DIR''
     else dirlookup_from (unat (d_size dp) div 16 + 2) i name 0)"

primrec free_dirent :: "nat \<Rightarrow> nat \<Rightarrow> u32 \<Rightarrow> ('x kfs_scheme, u32) kop" where
  "free_dirent 0 i off = kfail Diverge"
| "free_dirent (Suc k) i off =
     kdo (kget (\<lambda>s. d_size (inodes s ! i))) (\<lambda>sz.
     if off < sz then
       kdo (readi i off DIRENT) (\<lambda>(r, de).
       if r \<noteq> sint DIRENT then kpanic ''dirlink read''
       else if de_inum de = 0 then kret off
       else free_dirent k i (off + DIRENT))
     else kret off)"

definition dirlink :: "nat \<Rightarrow> u8 list \<Rightarrow> nat \<Rightarrow> ('x kfs_scheme, int) kop" where
  "dirlink i name inum =
     kdo (dirlookup i name) (\<lambda>r.
     case r of
       Some (ip, _) \<Rightarrow> kdo (iput ip) (\<lambda>_. kret (- 1))
     | None \<Rightarrow>
         kdo (kget (\<lambda>s. unat (d_size (inodes s ! i)))) (\<lambda>sz.
         kdo (free_dirent (sz div 16 + 2) i 0) (\<lambda>off.
         kdo (writei i (mk_dirent name inum) off DIRENT) (\<lambda>r.
         if r \<noteq> sint DIRENT then kpanic ''dirlink'' else kret 0))))"

section \<open>Path names\<close>

definition skipelem :: "u8 list \<Rightarrow> (u8 list \<times> u8 list) option" where
  "skipelem path =
     (let path = dropWhile (\<lambda>c. c = 0x2F) path in
      if path = [] then None
      else let elem = takeWhile (\<lambda>c. c \<noteq> 0x2F) path in
        Some (take DIRSIZ elem, dropWhile (\<lambda>c. c = 0x2F) (dropWhile (\<lambda>c. c \<noteq> 0x2F) path)))"

text \<open>The loop of \<^verbatim>\<open>namex\<close>; every element of the path takes one iteration.\<close>

primrec namex_loop :: "nat \<Rightarrow> bool \<Rightarrow> nat \<Rightarrow> u8 list \<Rightarrow> u8 list \<Rightarrow> ('x kfs_scheme, nat option \<times> u8 list) kop" where
  "namex_loop 0 par ip path name = kfail Diverge"
| "namex_loop (Suc k) par ip path name =
     (case skipelem path of
       None \<Rightarrow>
         if par then kdo (iput ip) (\<lambda>_. kret (None, name)) else kret (Some ip, name)
     | Some (name, path) \<Rightarrow>
         kdo (ilock ip) (\<lambda>_.
         kdo (kget (\<lambda>s. d_type (inodes s ! ip))) (\<lambda>t.
         if t \<noteq> T_DIR then kdo (iunlockput ip) (\<lambda>_. kret (None, name))
         else if par \<and> path = [] then kdo (iunlock ip) (\<lambda>_. kret (Some ip, name))
         else
         kdo (dirlookup ip name) (\<lambda>r.
         case r of
           None \<Rightarrow> kdo (iunlockput ip) (\<lambda>_. kret (None, name))
         | Some (next, _) \<Rightarrow>
             kdo (iunlockput ip) (\<lambda>_.
             namex_loop k par next path name)))))"

definition namex :: "u8 list \<Rightarrow> bool \<Rightarrow> ('x kfs_scheme, nat option \<times> u8 list) kop" where
  "namex path par =
     kdo (if path \<noteq> [] \<and> hd path = 0x2F then iget ROOTDEV ROOTINO
          else
            kdo curproc (\<lambda>p.
            kdo (kget (\<lambda>s. p_cwd (procs s ! p))) (\<lambda>cwd.
            case cwd of None \<Rightarrow> kfail (Undef ''no current directory'') | Some d \<Rightarrow> idup d))) (\<lambda>ip.
     namex_loop (length path + 1) par ip path [])"

definition namei :: "u8 list \<Rightarrow> ('x kfs_scheme, nat option) kop" where
  "namei path = kdo (namex path False) (\<lambda>(ip, _). kret ip)"

definition nameiparent :: "u8 list \<Rightarrow> ('x kfs_scheme, nat option \<times> u8 list) kop" where
  "nameiparent path = namex path True"

end
