(* ===== verification/Inode.thy ===== *)
theory Inode
  imports Fs
begin

text \<open>
  Facts about the file system that do not involve the log: how path names are split, how inodes
  are laid out in their blocks, and the invariant of the inode cache.
\<close>

section \<open>Path names\<close>

text \<open>The elements of a path, by splitting at slashes and dropping empty pieces.\<close>

fun split_slash :: "u8 list \<Rightarrow> u8 list list" where
  "split_slash [] = [[]]"
| "split_slash (c # cs) = (if c = 0x2F then [] # split_slash cs else
     (case split_slash cs of [] \<Rightarrow> [[c]] | e # es \<Rightarrow> (c # e) # es))"

definition path_elems :: "u8 list \<Rightarrow> u8 list list" where
  "path_elems p = map (take DIRSIZ) (filter (\<lambda>e. e \<noteq> []) (split_slash p))"

lemma split_slash_ne: "split_slash p \<noteq> []"
  by (induction p) (auto split: list.splits)

lemma split_slash_word:
  assumes "\<forall>c \<in> set w. c \<noteq> 0x2F"
  shows "split_slash (w @ p) = (w @ hd (split_slash p)) # tl (split_slash p)"
  using assms
proof (induction w)
  case Nil
  then show ?case using split_slash_ne [of p] by simp
qed simp

lemma path_elems_slash [simp]: "path_elems (0x2F # p) = path_elems p"
  by (simp add: path_elems_def)

lemma path_elems_Nil [simp]: "path_elems [] = []"
  by (simp add: path_elems_def)

lemma path_elems_dropWhile: "path_elems (dropWhile (\<lambda>c. c = 0x2F) p) = path_elems p"
  by (induction p) auto

lemma path_elems_word:
  assumes "w \<noteq> []" "\<forall>c \<in> set w. c \<noteq> 0x2F" "p = [] \<or> hd p = 0x2F"
  shows "path_elems (w @ p) = take DIRSIZ w # path_elems p"
proof (cases p)
  case Nil
  then show ?thesis using split_slash_word [OF assms(2), of "[]"] assms(1) by (simp add: path_elems_def)
next
  case (Cons c cs)
  then have "split_slash p = [] # split_slash cs" using assms(3) by simp
  then show ?thesis using split_slash_word [OF assms(2), of p] assms(1) Cons assms(3) by (simp add: path_elems_def)
qed

lemma skipelem_law:
  "case skipelem p of
     None \<Rightarrow> path_elems p = []
   | Some (e, r) \<Rightarrow> path_elems p = e # path_elems r \<and> length r < length p \<and> (r = [] \<or> hd r \<noteq> 0x2F)"
proof -
  let ?q = "dropWhile (\<lambda>c. c = 0x2F) p"
  let ?w = "takeWhile (\<lambda>c. c \<noteq> 0x2F) ?q" and ?t = "dropWhile (\<lambda>c. c \<noteq> 0x2F) ?q"
  show ?thesis
  proof (cases "?q = []")
    case True
    then have "path_elems p = path_elems []" using path_elems_dropWhile [of p] by (simp only:)
    then show ?thesis using True by (simp add: skipelem_def)
  next
    case False
    then have "hd ?q \<noteq> 0x2F" by (rule hd_dropWhile)
    then have w: "?w \<noteq> []" using False by (cases ?q) auto
    have t: "?t = [] \<or> hd ?t = 0x2F" using hd_dropWhile [of "\<lambda>c. c \<noteq> 0x2F" ?q] by auto
    have q: "?q = ?w @ ?t" by simp
    have "path_elems p = path_elems (?w @ ?t)" using path_elems_dropWhile [of p] by simp
    also have "\<dots> = take DIRSIZ ?w # path_elems ?t" by (rule path_elems_word [OF w _ t]) (auto dest: set_takeWhileD)
    finally have e: "path_elems p = take DIRSIZ ?w # path_elems (dropWhile (\<lambda>c. c = 0x2F) ?t)" by (simp only: path_elems_dropWhile)
    have "length (dropWhile (\<lambda>c. c = 0x2F) ?t) \<le> length ?t" by (rule length_dropWhile_le)
    also have "length ?t < length ?q" using w q by (metis length_append length_greater_0_conv less_add_same_cancel2)
    also have "length ?q \<le> length p" by (rule length_dropWhile_le)
    finally have l: "length (dropWhile (\<lambda>c. c = 0x2F) ?t) < length p" .
    have h: "dropWhile (\<lambda>c. c = 0x2F) ?t = [] \<or> hd (dropWhile (\<lambda>c. c = 0x2F) ?t) \<noteq> 0x2F"
      using hd_dropWhile [of "\<lambda>c. c = 0x2F" ?t] by auto
    show ?thesis using False e l h by (simp add: skipelem_def Let_def)
  qed
qed

text \<open>Taking elements off a path one after the other, as the loop of \<^verbatim>\<open>namex\<close> does.\<close>

primrec take_elems :: "nat \<Rightarrow> u8 list \<Rightarrow> u8 list list option" where
  "take_elems 0 p = None"
| "take_elems (Suc k) p = (case skipelem p of None \<Rightarrow> Some [] | Some (e, r) \<Rightarrow> map_option ((#) e) (take_elems k r))"

lemma take_elems_enough: "length p < k \<Longrightarrow> take_elems k p = Some (path_elems p)"
proof (induction k arbitrary: p)
  case (Suc k)
  show ?case
  proof (cases "skipelem p")
    case None
    then show ?thesis using skipelem_law [of p] by simp
  next
    case (Some er)
    obtain e r where er: "er = (e, r)" by (cases er)
    then have "path_elems p = e # path_elems r" "length r < length p" using skipelem_law [of p] Some by simp_all
    then show ?thesis using Some er Suc by simp
  qed
qed simp

section \<open>Inodes in their blocks\<close>

lemma length_put16 [simp]: "off + 2 \<le> length d \<Longrightarrow> length (put16 d off w) = length d"
  by (simp add: put16_def)

lemma get16_put16_same [simp]: "off + 2 \<le> length d \<Longrightarrow> get16 (put16 d off w) off = w"
proof -
  assume a: "off + 2 \<le> length d"
  have w: "unat w < 65536" using unsigned_less [of w, where ?'a = nat] by simp
  have "bytes_at off 2 (put16 d off w) = to_le 2 (unat w)"
    using bytes_at_blit_same [of off "to_le 2 (unat w)" d] a by (simp add: put16_def)
  then show ?thesis using w by (simp add: get16_def)
qed

lemma get16_put16_other [simp]:
  "off + 2 \<le> length d \<Longrightarrow> o2 + 2 \<le> length d \<Longrightarrow> o2 + 2 \<le> off \<or> off + 2 \<le> o2 \<Longrightarrow> get16 (put16 d off w) o2 = get16 d o2"
  by (simp add: get16_def put16_def bytes_at_blit_other)

lemma get16_put32_other [simp]:
  "off + 4 \<le> length d \<Longrightarrow> o2 + 2 \<le> length d \<Longrightarrow> o2 + 2 \<le> off \<or> off + 4 \<le> o2 \<Longrightarrow> get16 (put32 d off v) o2 = get16 d o2"
  by (simp add: get16_def put32_def bytes_at_blit_other)

lemma get32_put16_other [simp]:
  "off + 2 \<le> length d \<Longrightarrow> o2 + 4 \<le> length d \<Longrightarrow> o2 + 4 \<le> off \<or> off + 2 \<le> o2 \<Longrightarrow> get32 (put16 d off v) o2 = get32 d o2"
  by (simp add: get32_def put16_def bytes_at_blit_other)

text \<open>Storing a list of block numbers, the copy of \<^verbatim>\<open>addrs\<close>.\<close>

definition put_addrs :: "nat \<Rightarrow> nat list \<Rightarrow> nat \<Rightarrow> u8 list \<Rightarrow> u8 list" where
  "put_addrs o0 as n d = fold (\<lambda>k d. put32 d (o0 + 4 * k) (as ! k)) [0..<n] d"

lemma put_addrs_Suc: "put_addrs o0 as (Suc n) d = put32 (put_addrs o0 as n d) (o0 + 4 * n) (as ! n)"
  by (simp add: put_addrs_def)

lemma length_put_addrs [simp]: "o0 + 4 * n \<le> length d \<Longrightarrow> length (put_addrs o0 as n d) = length d"
  by (induction n) (simp_all add: put_addrs_Suc, simp add: put_addrs_def)

lemma get_put_addrs:
  assumes "o0 + 4 * n \<le> length d" "\<forall>k < n. as ! k < 2 ^ 32" "k < n"
  shows "get32 (put_addrs o0 as n d) (o0 + 4 * k) = as ! k"
  using assms
proof (induction n)
  case (Suc n)
  show ?case
  proof (cases "k = n")
    case True
    then show ?thesis using Suc.prems by (simp add: put_addrs_Suc)
  next
    case False
    then have "k < n" using Suc.prems by simp
    then have "get32 (put32 (put_addrs o0 as n d) (o0 + 4 * n) (as ! n)) (o0 + 4 * k) = get32 (put_addrs o0 as n d) (o0 + 4 * k)"
      using Suc.prems by (intro get32_put32_other) auto
    then show ?thesis using Suc \<open>k < n\<close> by (simp add: put_addrs_Suc)
  qed
qed simp

lemma bytes_put_addrs_other:
  assumes "o0 + 4 * n \<le> length d" "o2 + m \<le> length d" "o2 + m \<le> o0 \<or> o0 + 4 * n \<le> o2"
  shows "bytes_at o2 m (put_addrs o0 as n d) = bytes_at o2 m d"
  using assms
proof (induction n)
  case (Suc n)
  have "bytes_at o2 m (put_addrs o0 as (Suc n) d) = bytes_at o2 m (put_addrs o0 as n d)"
    unfolding put_addrs_Suc put32_def using Suc.prems by (intro bytes_at_blit_other) auto
  then show ?case using Suc by auto
qed (simp add: put_addrs_def)

lemma put_dinode_alt:
  "put_dinode inum ip d = put_addrs (inum mod IPB * 64 + 12) (d_addrs ip) 13
     (put32 (put16 (put16 (put16 (put16 d (inum mod IPB * 64) (d_type ip)) (inum mod IPB * 64 + 2) (d_major ip))
        (inum mod IPB * 64 + 4) (d_minor ip)) (inum mod IPB * 64 + 6) (d_nlink ip)) (inum mod IPB * 64 + 8) (unat (d_size ip)))"
  by (simp add: put_dinode_def put_addrs_def Let_def NDIRECT_def)

lemma slot_bound: "inum mod IPB * 64 + 64 \<le> BSIZE"
proof -
  have "inum mod IPB < 8" by (simp add: IPB_def)
  then show ?thesis by (simp add: BSIZE_def)
qed

lemma length_put_dinode [simp]: "length d = BSIZE \<Longrightarrow> length (put_dinode inum ip d) = BSIZE"
  using slot_bound [of inum] by (simp add: put_dinode_alt)

lemma get_put_dinode:
  assumes "length d = BSIZE" "length (d_addrs ip) = NDIRECT + 1" "\<forall>a \<in> set (d_addrs ip). a < 2 ^ 32"
  shows "get_dinode inum (put_dinode inum ip d) = dinode.truncate ip"
proof -
  let ?o = "inum mod IPB * 64"
  let ?d1 = "put16 (put16 (put16 (put16 d ?o (d_type ip)) (?o + 2) (d_major ip)) (?o + 4) (d_minor ip)) (?o + 6) (d_nlink ip)"
  let ?d2 = "put32 ?d1 (?o + 8) (unat (d_size ip))"
  have b: "?o + 64 \<le> length d" using slot_bound [of inum] assms(1) by simp
  have p: "put_dinode inum ip d = put_addrs (?o + 12) (d_addrs ip) 13 ?d2" by (rule put_dinode_alt)
  have l: "length ?d1 = length d" "length ?d2 = length d" using b by simp_all
  have o: "get16 (put_dinode inum ip d) k = get16 ?d2 k" if "k + 2 \<le> ?o + 12" for k
    unfolding p get16_def using that b l by (subst bytes_put_addrs_other) auto
  have s: "get32 (put_dinode inum ip d) (?o + 8) = get32 ?d2 (?o + 8)"
    unfolding p get32_def using b l by (subst bytes_put_addrs_other) auto
  have sz: "unat (d_size ip) < 2 ^ 32" using unsigned_less [of "d_size ip", where ?'a = nat] by simp
  have a: "\<forall>k < 13. d_addrs ip ! k < 2 ^ 32" using assms(2,3) by (simp add: NDIRECT_def)
  have "map (\<lambda>k. get32 (put_dinode inum ip d) (?o + 12 + 4 * k)) [0..<13] = d_addrs ip"
    using get_put_addrs [of "?o + 12" 13 ?d2 "d_addrs ip"] a b l assms(2) unfolding p
    by (intro nth_equalityI) (simp_all add: NDIRECT_def)
  then show ?thesis
    using o s sz b l by (simp add: get_dinode_def Let_def NDIRECT_def dinode.defs)
qed

text \<open>The other inodes of the block.\<close>

lemma put_dinode_bytes_other:
  assumes "length d = BSIZE" "o2 + m \<le> BSIZE" "o2 + m \<le> inum mod IPB * 64 \<or> inum mod IPB * 64 + 64 \<le> o2"
  shows "bytes_at o2 m (put_dinode inum ip d) = bytes_at o2 m d"
proof -
  let ?o = "inum mod IPB * 64"
  have b: "?o + 64 \<le> length d" using slot_bound [of inum] assms(1) by simp
  have o2: "o2 + m \<le> length d" using assms by simp
  have w: "bytes_at o2 m (put16 e (?o + k) w) = bytes_at o2 m e" if "length e = length d" "k \<le> 62" for e k w
    unfolding put16_def using that b o2 assms(3) by (intro bytes_at_blit_other) auto
  have w0: "bytes_at o2 m (put16 e ?o w) = bytes_at o2 m e" if "length e = length d" for e w using w [OF that, of 0] by simp
  have w4: "bytes_at o2 m (put32 e (?o + 8) v) = bytes_at o2 m e" if "length e = length d" for e v
    unfolding put32_def using that b o2 assms(3) by (intro bytes_at_blit_other) auto
  have wa: "bytes_at o2 m (put_addrs (?o + 12) as 13 e) = bytes_at o2 m e" if "length e = length d" for e as
    using that b o2 assms(3) by (intro bytes_put_addrs_other) auto
  show ?thesis unfolding put_dinode_alt using b by (simp add: w w0 w4 wa del: add_2_eq_Suc')
qed

lemma get_put_dinode_other:
  assumes "length d = BSIZE" "inum mod IPB \<noteq> j mod IPB"
  shows "get_dinode j (put_dinode inum ip d) = get_dinode j d"
proof -
  let ?j = "j mod IPB * 64"
  have b: "?j + 64 \<le> BSIZE" by (rule slot_bound)
  have n: "inum mod IPB * 64 + 64 \<le> ?j \<or> ?j + 64 \<le> inum mod IPB * 64" using assms(2) by (auto simp: IPB_def)
  have e: "bytes_at (?j + k) m (put_dinode inum ip d) = bytes_at (?j + k) m d" if "k + m \<le> 64" for k m
    using that b n by (intro put_dinode_bytes_other [OF assms(1)]) auto
  have 0: "bytes_at ?j 2 (put_dinode inum ip d) = bytes_at ?j 2 d" using e [of 0 2] by simp
  show ?thesis by (simp add: get_dinode_def Let_def get16_def get32_def e 0 NDIRECT_def add.assoc del: add_2_eq_Suc')
qed

section \<open>The inode cache\<close>

text \<open>At most one entry of the cache stands for an inode of the disk.\<close>

definition icache_inv :: "inode list \<Rightarrow> bool" where
  "icache_inv is \<longleftrightarrow> length is = NINODE \<and> (\<forall>ip \<in> set is. 0 \<le> i_ref ip) \<and>
     (\<forall>i < NINODE. \<forall>j < NINODE. i_ref (is ! i) > 0 \<and> i_ref (is ! j) > 0 \<and> i_dev (is ! i) = i_dev (is ! j) \<and>
        i_inum (is ! i) = i_inum (is ! j) \<longrightarrow> i = j)"

text \<open>The number of references to an inode of the disk.\<close>

definition refs :: "inode list \<Rightarrow> nat \<Rightarrow> nat \<Rightarrow> int" where
  "refs is dev inum = (\<Sum>ip \<leftarrow> is. if i_dev ip = dev \<and> i_inum ip = inum then i_ref ip else 0)"

lemma icache_invD:
  assumes "icache_inv is" "i < NINODE"
  shows "length is = NINODE" "0 \<le> i_ref (is ! i)"
    "j < NINODE \<Longrightarrow> 0 < i_ref (is ! i) \<Longrightarrow> 0 < i_ref (is ! j) \<Longrightarrow> i_dev (is ! i) = i_dev (is ! j) \<Longrightarrow> i_inum (is ! i) = i_inum (is ! j) \<Longrightarrow> i = j"
  using assms by (auto simp: icache_inv_def)

lemma icache_inv_update:
  assumes "icache_inv is" "i < NINODE" "0 \<le> i_ref x"
    and "\<And>j. j < NINODE \<Longrightarrow> j \<noteq> i \<Longrightarrow> 0 < i_ref (is ! j) \<Longrightarrow> 0 < i_ref x \<Longrightarrow> \<not> (i_dev (is ! j) = i_dev x \<and> i_inum (is ! j) = i_inum x)"
  shows "icache_inv (is[i := x])"
proof -
  have l: "length is = NINODE" using assms(1) by (simp add: icache_inv_def)
  have "\<forall>ip \<in> set (is[i := x]). 0 \<le> i_ref ip" using assms(1,3) set_update_subset_insert [of "is" i x] by (auto simp: icache_inv_def)
  moreover have "a = b" if "a < NINODE" "b < NINODE" "0 < i_ref (is[i := x] ! a)" "0 < i_ref (is[i := x] ! b)"
      "i_dev (is[i := x] ! a) = i_dev (is[i := x] ! b)" "i_inum (is[i := x] ! a) = i_inum (is[i := x] ! b)" for a b
    using that icache_invD(3) [OF assms(1)] assms(2,4) l by (cases "a = i"; cases "b = i") (auto simp: nth_list_upd)
  ultimately show ?thesis using l by (auto simp: icache_inv_def)
qed

lemma sum_list_update_int: "i < length xs \<Longrightarrow> sum_list (map f (xs[i := x])) = sum_list (map f xs) - f (xs ! i) + (f x :: int)"
  by (induction xs arbitrary: i) (auto split: nat.split)

lemma refs_update:
  "i < length is \<Longrightarrow> refs (is[i := x]) dev inum = refs is dev inum
     - (if i_dev (is ! i) = dev \<and> i_inum (is ! i) = inum then i_ref (is ! i) else 0)
     + (if i_dev x = dev \<and> i_inum x = inum then i_ref x else 0)"
  by (simp add: refs_def sum_list_update_int)

text \<open>What \<^verbatim>\<open>iget\<close> does to the cache.\<close>

definition iget_slot :: "nat \<Rightarrow> nat \<Rightarrow> inode list \<Rightarrow> nat option" where
  "iget_slot dev inum is =
     (case List.find (\<lambda>i. i_ref (is ! i) > 0 \<and> i_dev (is ! i) = dev \<and> i_inum (is ! i) = inum) [0..<NINODE] of
        Some i \<Rightarrow> Some i | None \<Rightarrow> List.find (\<lambda>i. i_ref (is ! i) = 0) [0..<NINODE])"

lemma iget_law:
  assumes "icache_inv (inodes s)" "L_icache \<notin> set (held s)" "iget_slot dev inum (inodes s) = Some i"
  shows "runs (iget dev inum) s (\<lambda>r t. r = i \<and> i < NINODE \<and> t = s\<lparr>inodes := (inodes s)[i := inodes t ! i]\<rparr> \<and> icache_inv (inodes t) \<and>
     0 < i_ref (inodes t ! i) \<and> i_dev (inodes t ! i) = dev \<and> i_inum (inodes t ! i) = inum \<and>
     (if 0 < i_ref (inodes s ! i) then inodes t ! i = (inodes s ! i)\<lparr>i_ref := i_ref (inodes s ! i) + 1\<rparr>
      else \<not> i_valid (inodes t ! i) \<and> i_ref (inodes t ! i) = 1))"
proof -
  let ?is = "inodes s"
  let ?P = "\<lambda>i. i_ref (?is ! i) > 0 \<and> i_dev (?is ! i) = dev \<and> i_inum (?is ! i) = inum"
  have l: "length ?is = NINODE" using assms(1) by (simp add: icache_inv_def)
  show ?thesis
  proof (cases "List.find ?P [0..<NINODE]")
    case (Some j)
    then have j: "j = i" using assms(3) by (simp add: iget_slot_def)
    have p: "i < NINODE" "?P i" using Some j by (auto simp: find_upt_Some)
    let ?x = "(?is ! i)\<lparr>i_ref := i_ref (?is ! i) + 1\<rparr>"
    have "icache_inv (?is[i := ?x])"
    proof (rule icache_inv_update [OF assms(1) p(1)])
      fix k assume "k < NINODE" "k \<noteq> i" "0 < i_ref (?is ! k)"
      then show "\<not> (i_dev (?is ! k) = i_dev ?x \<and> i_inum (?is ! k) = i_inum ?x)"
        using icache_invD(3) [OF assms(1) p(1), of k] p(2) by auto
    qed (use p in simp)
    then show ?thesis using Some j p l assms(2) by (simp add: iget_def upd_inode_def)
  next
    case None
    then have f: "List.find (\<lambda>i. i_ref (?is ! i) = 0) [0..<NINODE] = Some i" using assms(3) by (simp add: iget_slot_def)
    then have p: "i < NINODE" "i_ref (?is ! i) = 0" by (auto simp: find_upt_Some)
    have no: "\<not> ?P k" if "k < NINODE" for k using None that by (auto simp: find_upt_None)
    let ?x = "(?is ! i)\<lparr>i_dev := dev, i_inum := inum, i_ref := 1, i_valid := False\<rparr>"
    have "icache_inv (?is[i := ?x])" by (rule icache_inv_update [OF assms(1) p(1)]) (use no in auto)
    then show ?thesis using None f p l assms(2) by (simp add: iget_def upd_inode_def)
  qed
qed

lemma iget_full:
  assumes "iget_slot dev inum (inodes s) = None" "L_icache \<notin> set (held s)"
  shows "iget dev inum s = Fail (KPanic ''iget: no inodes'')"
  using assms by (auto simp: iget_slot_def iget_def kdo_def kget_def acquire_lk_def kpanic_def kfail_def split: option.splits)

lemma iput_free_slot:
  assumes "icache_inv is" "i < NINODE" "0 < i_ref (is ! i)"
  shows "icache_inv (is[i := (is ! i)\<lparr>i_ref := i_ref (is ! i) - 1\<rparr>])"
  using assms by (intro icache_inv_update) (auto dest: icache_invD(3) [OF assms(1,2)])

section \<open>Properties\<close>



definition demo_dinode :: dinode where
  "demo_dinode = \<lparr>d_type = T_FILE, d_major = 0, d_minor = 0, d_nlink = 1, d_size = 600, d_addrs = [60, 61] @ replicate 11 0\<rparr>"


text \<open>
  C30. Inode references. \<^verbatim>\<open>iget\<close> keeps at most one cache entry per inode of the disk and adds exactly one
  reference to the inode asked for, sharing the entry if there is one; it panics only when every
  entry is in use and none is for that inode.
\<close>

theorem iget_counts:
  assumes "icache_inv (inodes s)" "L_icache \<notin> set (held s)"
  shows "case iget_slot dev inum (inodes s) of
     None \<Rightarrow> iget dev inum s = Fail (KPanic ''iget: no inodes'') \<and>
       (\<forall>i < NINODE. 0 < i_ref (inodes s ! i) \<and> (i_dev (inodes s ! i), i_inum (inodes s ! i)) \<noteq> (dev, inum))
   | Some i \<Rightarrow> runs (iget dev inum) s (\<lambda>r t. r = i \<and> icache_inv (inodes t) \<and>
       0 < i_ref (inodes t ! i) \<and> i_dev (inodes t ! i) = dev \<and> i_inum (inodes t ! i) = inum \<and>
       refs (inodes t) dev inum = refs (inodes s) dev inum + 1 \<and>
       (\<forall>d n. (d, n) \<noteq> (dev, inum) \<longrightarrow> refs (inodes t) d n = refs (inodes s) d n))"
proof (cases "iget_slot dev inum (inodes s)")
  case None
  have "0 < i_ref (inodes s ! i)" "(i_dev (inodes s ! i), i_inum (inodes s ! i)) \<noteq> (dev, inum)" if i: "i < NINODE" for i
  proof -
    have "i_ref (inodes s ! i) \<noteq> 0" using None i by (auto simp: iget_slot_def find_upt_None split: option.splits)
    then show "0 < i_ref (inodes s ! i)" using icache_invD(2) [OF assms(1) i] by simp
    then show "(i_dev (inodes s ! i), i_inum (inodes s ! i)) \<noteq> (dev, inum)"
      using None i by (auto simp: iget_slot_def find_upt_None split: option.splits)
  qed
  then show ?thesis using None iget_full [OF None assms(2)] by simp
next
  case (Some i)
  have "runs (iget dev inum) s (\<lambda>r t. r = i \<and> icache_inv (inodes t) \<and>
       0 < i_ref (inodes t ! i) \<and> i_dev (inodes t ! i) = dev \<and> i_inum (inodes t ! i) = inum \<and>
       refs (inodes t) dev inum = refs (inodes s) dev inum + 1 \<and>
       (\<forall>d n. (d, n) \<noteq> (dev, inum) \<longrightarrow> refs (inodes t) d n = refs (inodes s) d n))"
  proof (rule runs_weaken [OF iget_law [OF assms Some]], elim conjE)
    fix r t
    assume i: "i < NINODE" and t: "t = s\<lparr>inodes := (inodes s)[i := inodes t ! i]\<rparr>" and iv: "icache_inv (inodes t)"
      and x: "0 < i_ref (inodes t ! i)" "i_dev (inodes t ! i) = dev" "i_inum (inodes t ! i) = inum" and r: "r = i"
      and c: "if 0 < i_ref (inodes s ! i) then inodes t ! i = (inodes s ! i)\<lparr>i_ref := i_ref (inodes s ! i) + 1\<rparr>
        else \<not> i_valid (inodes t ! i) \<and> i_ref (inodes t ! i) = 1"
    define y where "y = inodes t ! i"
    have l: "i < length (inodes s)" using assms(1) i by (simp add: icache_inv_def)
    have e: "inodes t = (inodes s)[i := y]" unfolding y_def by (subst t) simp
    note u = refs_update [OF l, of y]
    have z: "0 \<le> i_ref (inodes s ! i)" by (rule icache_invD(2) [OF assms(1) i])
    have d: "i_dev y = dev" "i_inum y = inum" using x by (simp_all add: y_def)
    have cases: "(0 < i_ref (inodes s ! i) \<and> i_dev (inodes s ! i) = dev \<and> i_inum (inodes s ! i) = inum \<and> i_ref y = i_ref (inodes s ! i) + 1)
        \<or> (i_ref (inodes s ! i) = 0 \<and> i_ref y = 1)"
      using c d z unfolding y_def by (auto split: if_splits)
    have "refs (inodes t) dev inum = refs (inodes s) dev inum + 1" unfolding e u using cases d by auto
    moreover have "refs (inodes t) a n = refs (inodes s) a n" if "(a, n) \<noteq> (dev, inum)" for a n
      unfolding e u using cases d that by auto
    ultimately show "r = i \<and> icache_inv (inodes t) \<and> 0 < i_ref (inodes t ! i) \<and> i_dev (inodes t ! i) = dev \<and> i_inum (inodes t ! i) = inum \<and>
       refs (inodes t) dev inum = refs (inodes s) dev inum + 1 \<and>
       (\<forall>d n. (d, n) \<noteq> (dev, inum) \<longrightarrow> refs (inodes t) d n = refs (inodes s) d n)"
      using r iv x by simp
  qed
  then show ?thesis using Some by simp
qed

definition blank_inode :: inode where
  "blank_inode = dinode.extend demo_dinode \<lparr>i_dev = 0, i_inum = 0, i_ref = 0, i_valid = False\<rparr>"

definition demo_fs :: kfs where
  "demo_fs = kcons.extend demo_console \<lparr>fs_sb = sb_of demo_sb, inodes = replicate NINODE blank_inode,
     devsw_read = (\<lambda>_. None), devsw_write = (\<lambda>_. None)\<rparr>"

theorem iget_counts_witness: "runs (iget 1 1) demo_fs (\<lambda>r t. r = 0 \<and> i_inum (inodes t ! 0) = 1 \<and> refs (inodes t) 1 1 = 1)"
proof -
  have v: "inodes demo_fs = replicate NINODE blank_inode" "held demo_fs = []"
    by (simp_all add: demo_fs_def kcons.defs demo_console_def klog.defs demo_machine_def)
  have b: "i_ref blank_inode = 0" "i_dev blank_inode = 0" by (simp_all add: blank_inode_def dinode.defs)
  have inv: "icache_inv (inodes demo_fs)" using v b by (auto simp: icache_inv_def)
  have u: "[0..<NINODE] = 0 # [1..<NINODE]" by (simp add: NINODE_def upt_rec)
  have slot: "iget_slot 1 1 (inodes demo_fs) = Some 0"
  proof -
    have "List.find (\<lambda>i. i_ref (inodes demo_fs ! i) > 0 \<and> i_dev (inodes demo_fs ! i) = 1 \<and> i_inum (inodes demo_fs ! i) = 1) [0..<NINODE] = None"
      using v b by (auto simp: find_upt_None)
    moreover have "List.find (\<lambda>i. i_ref (inodes demo_fs ! i) = 0) [0..<NINODE] = Some 0"
      using v b unfolding u by (simp add: NINODE_def)
    ultimately show ?thesis by (simp add: iget_slot_def)
  qed
  have z: "refs (inodes demo_fs) 1 1 = 0" using v b by (simp add: refs_def sum_list_replicate)
  show ?thesis using iget_counts [OF inv, of 1 1] v slot z by (auto elim!: runs_weaken)
qed

end
