(* ===== verification/Vm.thy ===== *)
theory Vm
  imports Kalloc Console
begin

text \<open>
  Page tables, \<^verbatim>\<open>src/kern/mm/vm.c\<close>, with the address macros of \<^verbatim>\<open>src/include/xv6/mmu.h\<close>. Page directories
  and page tables are words in \<open>mem\<close>, reached through the kernel's mapping of physical memory.
  \<^verbatim>\<open>loaduvm\<close>, which reads a file, is with \<^verbatim>\<open>exec\<close>; \<^verbatim>\<open>switchuvm\<close> and \<^verbatim>\<open>switchkvm\<close> are with the process table.

  Loops that step a 32-bit address by a page have \<open>2 ^ 20 + 1\<close> iterations as fuel: an address comes
  back after \<open>2 ^ 20\<close> steps.
\<close>

definition PDX :: "u32 \<Rightarrow> u32" where "PDX va = drop_bit 22 va AND 0x3FF"
definition PTX :: "u32 \<Rightarrow> u32" where "PTX va = drop_bit 12 va AND 0x3FF"
definition PGADDR :: "u32 \<Rightarrow> u32 \<Rightarrow> u32 \<Rightarrow> u32" where "PGADDR d t off = push_bit 22 d OR push_bit 12 t OR off"
definition NPDENTRIES :: nat where [const_defs]: "NPDENTRIES = 1024"
definition PTE_P :: u32 where [const_defs]: "PTE_P = 1"
definition PTE_W :: u32 where [const_defs]: "PTE_W = 2"
definition PTE_U :: u32 where [const_defs]: "PTE_U = 4"
definition PTE_ADDR :: "u32 \<Rightarrow> u32" where "PTE_ADDR pte = pte AND NOT 0xFFF"
definition PTE_FLAGS :: "u32 \<Rightarrow> u32" where "PTE_FLAGS pte = pte AND 0xFFF"

abbreviation page_fuel :: nat where "page_fuel \<equiv> 2 ^ 20 + 1"

definition walkpgdir :: "u32 \<Rightarrow> u32 \<Rightarrow> bool \<Rightarrow> ('x kmem_scheme, u32) kop" where
  "walkpgdir pgdir va alloc =
     kdo (kget (\<lambda>s. load32 (mem s) (pgdir + 4 * PDX va))) (\<lambda>pde.
     if pde AND PTE_P \<noteq> 0 then kret (P2V (PTE_ADDR pde) + 4 * PTX va)
     else if \<not> alloc then kret 0
     else
     kdo kalloc (\<lambda>pgtab.
     if pgtab = 0 then kret 0
     else
     kdo (kmod (\<lambda>s. s\<lparr>mem := memset (mem s) pgtab 0 PGSIZE\<rparr>)) (\<lambda>_.
     kdo (kmod (\<lambda>s. s\<lparr>mem := store32 (mem s) (pgdir + 4 * PDX va) (V2P pgtab OR PTE_P OR PTE_W OR PTE_U)\<rparr>)) (\<lambda>_.
     kret (pgtab + 4 * PTX va)))))"

primrec mappages_from :: "nat \<Rightarrow> u32 \<Rightarrow> u32 \<Rightarrow> u32 \<Rightarrow> u32 \<Rightarrow> u32 \<Rightarrow> ('x kmem_scheme, int) kop" where
  "mappages_from 0 pgdir a lst pa perm = kfail Diverge"
| "mappages_from (Suc k) pgdir a lst pa perm =
     kdo (walkpgdir pgdir a True) (\<lambda>pte.
     if pte = 0 then kret (- 1)
     else
     kdo (kget (\<lambda>s. load32 (mem s) pte)) (\<lambda>old.
     if old AND PTE_P \<noteq> 0 then kpanic ''remap''
     else
     kdo (kmod (\<lambda>s. s\<lparr>mem := store32 (mem s) pte (pa OR perm OR PTE_P)\<rparr>)) (\<lambda>_.
     if a = lst then kret 0
     else mappages_from k pgdir (a + PGSIZE) lst (pa + PGSIZE) perm)))"

definition mappages :: "u32 \<Rightarrow> u32 \<Rightarrow> u32 \<Rightarrow> u32 \<Rightarrow> u32 \<Rightarrow> ('x kmem_scheme, int) kop" where
  "mappages pgdir va sz pa perm =
     mappages_from page_fuel pgdir (PGROUNDDOWN va) (PGROUNDDOWN (va + sz - 1)) pa perm"

primrec deallocuvm_from :: "nat \<Rightarrow> u32 \<Rightarrow> u32 \<Rightarrow> u32 \<Rightarrow> ('x kmem_scheme, unit) kop" where
  "deallocuvm_from 0 pgdir a oldsz = kfail Diverge"
| "deallocuvm_from (Suc k) pgdir a oldsz =
     (if a < oldsz then
        kdo (walkpgdir pgdir a False) (\<lambda>pte.
        if pte = 0 then deallocuvm_from k pgdir (PGADDR (PDX a + 1) 0 0 - PGSIZE + PGSIZE) oldsz
        else
        kdo (kget (\<lambda>s. load32 (mem s) pte)) (\<lambda>e.
        if e AND PTE_P \<noteq> 0 then
          (if PTE_ADDR e = 0 then kpanic ''kfree''
           else
           kdo (kfree (P2V (PTE_ADDR e))) (\<lambda>_.
           kdo (kmod (\<lambda>s. s\<lparr>mem := store32 (mem s) pte 0\<rparr>)) (\<lambda>_.
           deallocuvm_from k pgdir (a + PGSIZE) oldsz)))
        else deallocuvm_from k pgdir (a + PGSIZE) oldsz))
      else kret ())"

definition deallocuvm :: "u32 \<Rightarrow> u32 \<Rightarrow> u32 \<Rightarrow> ('x kmem_scheme, u32) kop" where
  "deallocuvm pgdir oldsz newsz =
     (if newsz \<ge> oldsz then kret oldsz
      else
      kdo (deallocuvm_from page_fuel pgdir (PGROUNDUP newsz) oldsz) (\<lambda>_.
      kret newsz))"

definition freevm :: "u32 \<Rightarrow> ('x kmem_scheme, unit) kop" where
  "freevm pgdir =
     (if pgdir = 0 then kpanic ''freevm: no pgdir''
      else
      kdo (deallocuvm pgdir KERNBASE 0) (\<lambda>_.
      kdo (kfor (\<lambda>i.
        kdo (kget (\<lambda>s. load32 (mem s) (pgdir + 4 * of_nat i))) (\<lambda>pde.
        kwhen (pde AND PTE_P \<noteq> 0) (kfree (P2V (PTE_ADDR pde))))) [0..<NPDENTRIES]) (\<lambda>_.
      kfree pgdir)))"

text \<open>The table \<^verbatim>\<open>kmap\<close>: virtual start, physical start and end, permissions; the argument is the
  address \<^verbatim>\<open>data\<close> of the kernel image.\<close>

definition kmap :: "u32 \<Rightarrow> (u32 \<times> u32 \<times> u32 \<times> u32) list" where
  "kmap data =
     [(KERNBASE, 0, EXTMEM, PTE_W),
      (KERNLINK, V2P KERNLINK, V2P data, 0),
      (data, V2P data, PHYSTOP, PTE_W),
      (DEVSPACE, DEVSPACE, 0, PTE_W)]"

primrec map_regions :: "u32 \<Rightarrow> (u32 \<times> u32 \<times> u32 \<times> u32) list \<Rightarrow> ('x kmem_scheme, u32) kop" where
  "map_regions pgdir [] = kret pgdir"
| "map_regions pgdir (k # ks) =
     (case k of (virt, phys_start, phys_end, perm) \<Rightarrow>
      kdo (mappages pgdir virt (phys_end - phys_start) phys_start perm) (\<lambda>r.
      if r < 0 then kdo (freevm pgdir) (\<lambda>_. kret 0)
      else map_regions pgdir ks))"

definition setupkvm :: "('x kmem_scheme, u32) kop" where
  "setupkvm =
     kdo kalloc (\<lambda>pgdir.
     if pgdir = 0 then kret 0
     else
     kdo (kmod (\<lambda>s. s\<lparr>mem := memset (mem s) pgdir 0 PGSIZE\<rparr>)) (\<lambda>_.
     if P2V PHYSTOP > DEVSPACE then kpanic ''PHYSTOP too high''
     else
     kdo (kget kdata) (\<lambda>data.
     map_regions pgdir (kmap data))))"

definition kvmalloc :: "('x kproc_scheme, unit) kop" where
  "kvmalloc =
     kdo setupkvm (\<lambda>p.
     kdo (kmod (\<lambda>s. s\<lparr>kpgdir := p\<rparr>)) (\<lambda>_.
     switchkvm))"

text \<open>\<^verbatim>\<open>memmove\<close> of the bytes \<open>bs\<close> to address \<open>a\<close>.\<close>

definition put_bytes :: "memory \<Rightarrow> u32 \<Rightarrow> u8 list \<Rightarrow> memory" where
  "put_bytes m a bs = (\<lambda>x. if unat (x - a) < length bs then bs ! unat (x - a) else m x)"

definition inituvm :: "u32 \<Rightarrow> u8 list \<Rightarrow> ('x kmem_scheme, unit) kop" where
  "inituvm pgdir init =
     (if length init \<ge> unat PGSIZE then kpanic ''inituvm: more than a page''
      else
      kdo kalloc (\<lambda>p.
      kdo (kmod (\<lambda>s. s\<lparr>mem := memset (mem s) p 0 PGSIZE\<rparr>)) (\<lambda>_.
      kdo (mappages pgdir 0 PGSIZE (V2P p) (PTE_W OR PTE_U)) (\<lambda>_.
      kmod (\<lambda>s. s\<lparr>mem := put_bytes (mem s) p init\<rparr>)))))"

primrec allocuvm_from :: "nat \<Rightarrow> u32 \<Rightarrow> u32 \<Rightarrow> u32 \<Rightarrow> u32 \<Rightarrow> ('x kcons_scheme, u32) kop" where
  "allocuvm_from 0 pgdir a oldsz newsz = kfail Diverge"
| "allocuvm_from (Suc k) pgdir a oldsz newsz =
     (if a < newsz then
        kdo kalloc (\<lambda>p.
        if p = 0 then
          kdo (cprintf (map of_char (''allocuvm out of memory'' @ [CHR 0x0A])) []) (\<lambda>_.
          kdo (deallocuvm pgdir newsz oldsz) (\<lambda>_.
          kret 0))
        else
        kdo (kmod (\<lambda>s. s\<lparr>mem := memset (mem s) p 0 PGSIZE\<rparr>)) (\<lambda>_.
        kdo (mappages pgdir a PGSIZE (V2P p) (PTE_W OR PTE_U)) (\<lambda>r.
        if r < 0 then
          kdo (cprintf (map of_char (''allocuvm out of memory (2)'' @ [CHR 0x0A])) []) (\<lambda>_.
          kdo (deallocuvm pgdir newsz oldsz) (\<lambda>_.
          kdo (kfree p) (\<lambda>_.
          kret 0)))
        else allocuvm_from k pgdir (a + PGSIZE) oldsz newsz)))
      else kret newsz)"

definition allocuvm :: "u32 \<Rightarrow> u32 \<Rightarrow> u32 \<Rightarrow> ('x kcons_scheme, u32) kop" where
  "allocuvm pgdir oldsz newsz =
     (if newsz \<ge> KERNBASE then kret 0
      else if newsz < oldsz then kret oldsz
      else allocuvm_from page_fuel pgdir (PGROUNDUP oldsz) oldsz newsz)"

definition clearpteu :: "u32 \<Rightarrow> u32 \<Rightarrow> ('x kmem_scheme, unit) kop" where
  "clearpteu pgdir uva =
     kdo (walkpgdir pgdir uva False) (\<lambda>pte.
     if pte = 0 then kpanic ''clearpteu''
     else kmod (\<lambda>s. s\<lparr>mem := store32 (mem s) pte (load32 (mem s) pte AND NOT PTE_U)\<rparr>))"

primrec copyuvm_from :: "nat \<Rightarrow> u32 \<Rightarrow> u32 \<Rightarrow> u32 \<Rightarrow> u32 \<Rightarrow> ('x kmem_scheme, u32) kop" where
  "copyuvm_from 0 pgdir d i sz = kfail Diverge"
| "copyuvm_from (Suc k) pgdir d i sz =
     (if i < sz then
        kdo (walkpgdir pgdir i False) (\<lambda>pte.
        if pte = 0 then kpanic ''copyuvm: pte should exist''
        else
        kdo (kget (\<lambda>s. load32 (mem s) pte)) (\<lambda>e.
        if e AND PTE_P = 0 then kpanic ''copyuvm: page not present''
        else
        kdo kalloc (\<lambda>p.
        if p = 0 then kdo (freevm d) (\<lambda>_. kret 0)
        else
        kdo (kmod (\<lambda>s. s\<lparr>mem := memmove (mem s) p (P2V (PTE_ADDR e)) PGSIZE\<rparr>)) (\<lambda>_.
        kdo (mappages d i PGSIZE (V2P p) (PTE_FLAGS e)) (\<lambda>r.
        if r < 0 then
          kdo (kfree p) (\<lambda>_.
          kdo (freevm d) (\<lambda>_.
          kret 0))
        else copyuvm_from k pgdir d (i + PGSIZE) sz)))))
      else kret d)"

definition copyuvm :: "u32 \<Rightarrow> u32 \<Rightarrow> ('x kmem_scheme, u32) kop" where
  "copyuvm pgdir sz =
     kdo setupkvm (\<lambda>d.
     if d = 0 then kret 0 else copyuvm_from page_fuel pgdir d 0 sz)"

text \<open>\<^verbatim>\<open>uva2ka\<close> reads through the pointer \<^verbatim>\<open>walkpgdir\<close> returns without looking whether it is null.\<close>

definition uva2ka :: "u32 \<Rightarrow> u32 \<Rightarrow> ('x kmem_scheme, u32) kop" where
  "uva2ka pgdir uva =
     kdo (walkpgdir pgdir uva False) (\<lambda>pte.
     if pte = 0 then kfail (Undef ''null pte'')
     else
     kdo (kget (\<lambda>s. load32 (mem s) pte)) (\<lambda>e.
     if e AND PTE_P = 0 then kret 0
     else if e AND PTE_U = 0 then kret 0
     else kret (P2V (PTE_ADDR e))))"

text \<open>Each iteration copies at least one byte.\<close>

primrec copyout_from :: "nat \<Rightarrow> u32 \<Rightarrow> u32 \<Rightarrow> u8 list \<Rightarrow> ('x kmem_scheme, int) kop" where
  "copyout_from 0 pgdir va buf = kfail Diverge"
| "copyout_from (Suc k) pgdir va buf =
     (if buf \<noteq> [] then
        let va0 = PGROUNDDOWN va in
        kdo (uva2ka pgdir va0) (\<lambda>pa0.
        if pa0 = 0 then kret (- 1)
        else
        let n = min (unat (PGSIZE - (va - va0))) (length buf) in
        kdo (kmod (\<lambda>s. s\<lparr>mem := put_bytes (mem s) (pa0 + (va - va0)) (take n buf)\<rparr>)) (\<lambda>_.
        copyout_from k pgdir (va0 + PGSIZE) (drop n buf)))
      else kret 0)"

definition copyout :: "u32 \<Rightarrow> u32 \<Rightarrow> u8 list \<Rightarrow> ('x kmem_scheme, int) kop" where
  "copyout pgdir va buf = copyout_from (length buf + 1) pgdir va buf"

end
