(* ===== verification/File.thy ===== *)
theory File
  imports Fs Vm
begin

text \<open>
  Open files and pipes: \<^verbatim>\<open>src/fs/sfs/file.c\<close> and \<^verbatim>\<open>src/fs/pipe.c\<close>. A pointer to a \<^verbatim>\<open>struct file\<close> is its
  index in \<^verbatim>\<open>ftable.file\<close>; a pipe is named by the page it lives on, and \<open>pipes\<close> gives the contents of
  that page as a record.

  User memory is reached through the page table in \<^verbatim>\<open>%cr3\<close>, as the kernel does when it follows a user
  pointer; an address that is not mapped is a page fault in the kernel, on which \<^verbatim>\<open>trap\<close> panics.
\<close>

definition NFILE :: nat where [const_defs]: "NFILE = 100"
definition PIPESIZE :: u32 where [const_defs]: "PIPESIZE = 512"

section \<open>User memory\<close>

definition translate :: "memory \<Rightarrow> u32 \<Rightarrow> u32 \<Rightarrow> u32 option" where
  "translate m dir va =
     (let pde = load32 m (P2V dir + 4 * PDX va) in
      if pde AND PTE_P = 0 then None
      else let pte = load32 m (P2V (PTE_ADDR pde) + 4 * PTX va) in
      if pte AND PTE_P = 0 then None
      else Some (P2V (PTE_ADDR pte) + (va AND 0xFFF)))"

definition vload :: "u32 \<Rightarrow> ('x kproc_scheme, u8) kop" where
  "vload va =
     kdo (kget (\<lambda>s. map_option (mem s) (translate (mem s) (cr3 s) va))) (\<lambda>r.
     case r of None \<Rightarrow> kpanic ''trap'' | Some b \<Rightarrow> kret b)"

definition vstore :: "u32 \<Rightarrow> u8 \<Rightarrow> ('x kproc_scheme, unit) kop" where
  "vstore va b =
     kdo (kget (\<lambda>s. translate (mem s) (cr3 s) va)) (\<lambda>r.
     case r of None \<Rightarrow> kpanic ''trap'' | Some a \<Rightarrow> kmod (\<lambda>s. s\<lparr>mem := (mem s)(a := b)\<rparr>))"

primrec vbytes :: "nat \<Rightarrow> u32 \<Rightarrow> ('x kproc_scheme, u8 list) kop" where
  "vbytes 0 va = kret []"
| "vbytes (Suc n) va = kdo (vload va) (\<lambda>b. kdo (vbytes n (va + 1)) (\<lambda>bs. kret (b # bs)))"

primrec vput :: "u32 \<Rightarrow> u8 list \<Rightarrow> ('x kproc_scheme, unit) kop" where
  "vput va [] = kret ()"
| "vput va (b # bs) = kdo (vstore va b) (\<lambda>_. vput (va + 1) bs)"

section \<open>State\<close>

datatype filetype = FD_NONE | FD_PIPE | FD_INODE

record file_t =
  f_type :: filetype
  f_ref :: int
  f_readable :: bool
  f_writable :: bool
  f_pipe :: u32
  f_ip :: nat
  f_off :: u32

record pipe =
  pi_data :: "u8 list"
  pi_nread :: u32
  pi_nwrite :: u32
  pi_readopen :: bool
  pi_writeopen :: bool

record kfile = kfs +
  ftable :: "file_t list"
  pipes :: "u32 \<Rightarrow> pipe"
  ticks :: u32

definition upd_file :: "nat \<Rightarrow> (file_t \<Rightarrow> file_t) \<Rightarrow> 'x kfile_scheme \<Rightarrow> 'x kfile_scheme" where
  "upd_file f g s = s\<lparr>ftable := (ftable s)[f := g (ftable s ! f)]\<rparr>"

definition upd_pipe :: "u32 \<Rightarrow> (pipe \<Rightarrow> pipe) \<Rightarrow> 'x kfile_scheme \<Rightarrow> 'x kfile_scheme" where
  "upd_pipe p g s = s\<lparr>pipes := (pipes s)(p := g (pipes s p))\<rparr>"

section \<open>The file table\<close>

definition filealloc :: "('x kfile_scheme, nat option) kop" where
  "filealloc =
     kdo (acquire_lk L_ftable) (\<lambda>_.
     kdo (kget (\<lambda>s. List.find (\<lambda>f. f_ref (ftable s ! f) = 0) [0..<NFILE])) (\<lambda>r.
     case r of
       Some f \<Rightarrow>
         kdo (kmod (upd_file f (\<lambda>x. x\<lparr>f_ref := 1\<rparr>))) (\<lambda>_.
         kdo (release_lk L_ftable) (\<lambda>_.
         kret (Some f)))
     | None \<Rightarrow>
         kdo (release_lk L_ftable) (\<lambda>_.
         kret None)))"

definition filedup :: "nat \<Rightarrow> ('x kfile_scheme, nat) kop" where
  "filedup f =
     kdo (acquire_lk L_ftable) (\<lambda>_.
     kdo (kget (\<lambda>s. f_ref (ftable s ! f))) (\<lambda>r.
     if r < 1 then kpanic ''filedup''
     else
     kdo (kmod (upd_file f (\<lambda>x. x\<lparr>f_ref := f_ref x + 1\<rparr>))) (\<lambda>_.
     kdo (release_lk L_ftable) (\<lambda>_.
     kret f))))"

definition pipeclose :: "u32 \<Rightarrow> bool \<Rightarrow> ('x kfile_scheme, unit) kop" where
  "pipeclose p writable =
     kdo (acquire_lk (L_pipe (unat p))) (\<lambda>_.
     kdo (if writable then
            kdo (kmod (upd_pipe p (\<lambda>x. x\<lparr>pi_writeopen := False\<rparr>))) (\<lambda>_.
            wakeup (CPipeR (unat p)))
          else
            kdo (kmod (upd_pipe p (\<lambda>x. x\<lparr>pi_readopen := False\<rparr>))) (\<lambda>_.
            wakeup (CPipeW (unat p)))) (\<lambda>_.
     kdo (kget (\<lambda>s. pipes s p)) (\<lambda>x.
     if \<not> pi_readopen x \<and> \<not> pi_writeopen x then
       kdo (release_lk (L_pipe (unat p))) (\<lambda>_.
       kfree p)
     else release_lk (L_pipe (unat p)))))"

definition fileclose :: "nat \<Rightarrow> ('x kfile_scheme, unit) kop" where
  "fileclose f =
     kdo (acquire_lk L_ftable) (\<lambda>_.
     kdo (kget (\<lambda>s. f_ref (ftable s ! f))) (\<lambda>r.
     if r < 1 then kpanic ''fileclose''
     else
     kdo (kmod (upd_file f (\<lambda>x. x\<lparr>f_ref := r - 1\<rparr>))) (\<lambda>_.
     if r - 1 > 0 then release_lk L_ftable
     else
     kdo (kget (\<lambda>s. ftable s ! f)) (\<lambda>ff.
     kdo (kmod (upd_file f (\<lambda>x. x\<lparr>f_ref := 0, f_type := FD_NONE\<rparr>))) (\<lambda>_.
     kdo (release_lk L_ftable) (\<lambda>_.
     case f_type ff of
       FD_PIPE \<Rightarrow> pipeclose (f_pipe ff) (f_writable ff)
     | FD_INODE \<Rightarrow>
         kdo begin_op (\<lambda>_.
         kdo (iput (f_ip ff)) (\<lambda>_.
         end_op))
     | FD_NONE \<Rightarrow> kret ()))))))"

text \<open>\<^verbatim>\<open>filestat\<close> gives \<open>None\<close> for a return of \<open>-1\<close>.\<close>

definition filestat :: "nat \<Rightarrow> ('x kfile_scheme, stat option) kop" where
  "filestat f =
     kdo (kget (\<lambda>s. ftable s ! f)) (\<lambda>x.
     if f_type x = FD_INODE then
       kdo (ilock (f_ip x)) (\<lambda>_.
       kdo (stati (f_ip x)) (\<lambda>st.
       kdo (iunlock (f_ip x)) (\<lambda>_.
       kret (Some st))))
     else kret None)"

section \<open>Pipes\<close>

definition close_opt :: "nat option \<Rightarrow> ('x kfile_scheme, unit) kop" where
  "close_opt f = (case f of None \<Rightarrow> kret () | Some f \<Rightarrow> fileclose f)"

definition pipealloc :: "('x kfile_scheme, (nat \<times> nat) option) kop" where
  "pipealloc =
     kdo filealloc (\<lambda>f0.
     kdo (if f0 = None then kret None else filealloc) (\<lambda>f1.
     kdo (if f0 = None \<or> f1 = None then kret 0 else kalloc) (\<lambda>p.
     case (f0, f1) of
       (Some r, Some w) \<Rightarrow>
         if p = 0 then kdo (fileclose r) (\<lambda>_. kdo (fileclose w) (\<lambda>_. kret None))
         else
         kdo (kmod (upd_pipe p (\<lambda>x. x\<lparr>pi_readopen := True, pi_writeopen := True, pi_nwrite := 0, pi_nread := 0\<rparr>))) (\<lambda>_.
         kdo (kmod (upd_file r (\<lambda>x. x\<lparr>f_type := FD_PIPE, f_readable := True, f_writable := False, f_pipe := p\<rparr>))) (\<lambda>_.
         kdo (kmod (upd_file w (\<lambda>x. x\<lparr>f_type := FD_PIPE, f_readable := False, f_writable := True, f_pipe := p\<rparr>))) (\<lambda>_.
         kret (Some (r, w)))))
     | _ \<Rightarrow>
         kdo (close_opt f0) (\<lambda>_.
         kdo (close_opt f1) (\<lambda>_.
         kret None)))))"

text \<open>The loop of \<^verbatim>\<open>pipewrite\<close> with \<open>k\<close> bytes to go, the next at \<open>a\<close>. It gives \<open>False\<close> for the return of
  \<open>-1\<close>. A writer that sleeps goes on in \<open>pipewrite_resume\<close>, with the test of the \<^verbatim>\<open>while\<close> loop.\<close>

primrec pipewrite_loop :: "nat \<Rightarrow> u32 \<Rightarrow> u32 \<Rightarrow> ('x kfile_scheme, bool) kop" where
  "pipewrite_loop 0 p a = kret True"
| "pipewrite_loop (Suc k) p a =
     kdo (kget (\<lambda>s. pipes s p)) (\<lambda>x.
     if pi_nwrite x = pi_nread x + PIPESIZE then
       kdo curproc (\<lambda>c.
       kdo (kget (\<lambda>s. p_killed (procs s ! c))) (\<lambda>killed.
       if \<not> pi_readopen x \<or> killed then
         kdo (release_lk (L_pipe (unat p))) (\<lambda>_.
         kret False)
       else
         kdo (wakeup (CPipeR (unat p))) (\<lambda>_.
         kdo (sleep (CPipeW (unat p)) (Some (L_pipe (unat p)))) (\<lambda>_.
         kfail Diverge))))
     else
       kdo (vload a) (\<lambda>b.
       kdo (kmod (upd_pipe p (\<lambda>x. x\<lparr>pi_data := (pi_data x)[unat (pi_nwrite x mod PIPESIZE) := b],
                                  pi_nwrite := pi_nwrite x + 1\<rparr>))) (\<lambda>_.
       pipewrite_loop k p (a + 1))))"

definition pipewrite_done :: "u32 \<Rightarrow> int \<Rightarrow> bool \<Rightarrow> ('x kfile_scheme, int) kop" where
  "pipewrite_done p n all =
     (if all then
        kdo (wakeup (CPipeR (unat p))) (\<lambda>_.
        kdo (release_lk (L_pipe (unat p))) (\<lambda>_.
        kret n))
      else kret (- 1))"

definition pipewrite :: "u32 \<Rightarrow> u32 \<Rightarrow> int \<Rightarrow> ('x kfile_scheme, int) kop" where
  "pipewrite p addr n =
     kdo (acquire_lk (L_pipe (unat p))) (\<lambda>_.
     kdo (pipewrite_loop (nat n) p addr) (\<lambda>all.
     pipewrite_done p n all))"

definition pipewrite_resume :: "u32 \<Rightarrow> u32 \<Rightarrow> int \<Rightarrow> nat \<Rightarrow> ('x kfile_scheme, int) kop" where
  "pipewrite_resume p addr n i =
     kdo (sleep_resume (Some (L_pipe (unat p)))) (\<lambda>_.
     kdo (pipewrite_loop (nat n - i) p (addr + of_nat i)) (\<lambda>all.
     pipewrite_done p n all))"

primrec piperead_copy :: "nat \<Rightarrow> u32 \<Rightarrow> u32 \<Rightarrow> nat \<Rightarrow> ('x kfile_scheme, nat) kop" where
  "piperead_copy 0 p a i = kret i"
| "piperead_copy (Suc k) p a i =
     kdo (kget (\<lambda>s. pipes s p)) (\<lambda>x.
     if pi_nread x = pi_nwrite x then kret i
     else
     kdo (kmod (upd_pipe p (\<lambda>x. x\<lparr>pi_nread := pi_nread x + 1\<rparr>))) (\<lambda>_.
     kdo (vstore a (pi_data x ! unat (pi_nread x mod PIPESIZE))) (\<lambda>_.
     piperead_copy k p (a + 1) (i + 1))))"

definition piperead_loop :: "u32 \<Rightarrow> u32 \<Rightarrow> int \<Rightarrow> ('x kfile_scheme, int) kop" where
  "piperead_loop p addr n =
     kdo (kget (\<lambda>s. pipes s p)) (\<lambda>x.
     if pi_nread x = pi_nwrite x \<and> pi_writeopen x then
       kdo curproc (\<lambda>c.
       kdo (kget (\<lambda>s. p_killed (procs s ! c))) (\<lambda>killed.
       if killed then
         kdo (release_lk (L_pipe (unat p))) (\<lambda>_.
         kret (- 1))
       else
         kdo (sleep (CPipeR (unat p)) (Some (L_pipe (unat p)))) (\<lambda>_.
         kfail Diverge)))
     else
       kdo (piperead_copy (nat n) p addr 0) (\<lambda>i.
       kdo (wakeup (CPipeW (unat p))) (\<lambda>_.
       kdo (release_lk (L_pipe (unat p))) (\<lambda>_.
       kret (int i)))))"

definition piperead :: "u32 \<Rightarrow> u32 \<Rightarrow> int \<Rightarrow> ('x kfile_scheme, int) kop" where
  "piperead p addr n =
     kdo (acquire_lk (L_pipe (unat p))) (\<lambda>_.
     piperead_loop p addr n)"

definition piperead_resume :: "u32 \<Rightarrow> u32 \<Rightarrow> int \<Rightarrow> ('x kfile_scheme, int) kop" where
  "piperead_resume p addr n =
     kdo (sleep_resume (Some (L_pipe (unat p)))) (\<lambda>_.
     piperead_loop p addr n)"

section \<open>Reading and writing\<close>

definition fileread :: "nat \<Rightarrow> u32 \<Rightarrow> int \<Rightarrow> ('x kfile_scheme, int) kop" where
  "fileread f addr n =
     kdo (kget (\<lambda>s. ftable s ! f)) (\<lambda>x.
     if \<not> f_readable x then kret (- 1)
     else
     case f_type x of
       FD_PIPE \<Rightarrow> piperead (f_pipe x) addr n
     | FD_INODE \<Rightarrow>
         kdo (ilock (f_ip x)) (\<lambda>_.
         kdo (kget (\<lambda>s. f_off (ftable s ! f))) (\<lambda>off.
         kdo (readi (f_ip x) off (word_of_int n)) (\<lambda>(r, dst).
         kdo (vput addr dst) (\<lambda>_.
         kdo (kwhen (r > 0) (kmod (upd_file f (\<lambda>x. x\<lparr>f_off := f_off x + word_of_int r\<rparr>)))) (\<lambda>_.
         kdo (iunlock (f_ip x)) (\<lambda>_.
         kret r))))))
     | FD_NONE \<Rightarrow> kpanic ''fileread'')"

definition filewrite_max :: int where
  "filewrite_max = ((int MAXOPBLOCKS - 1 - 1 - 2) div 2) * 512"

text \<open>Every iteration but the last writes at least one byte.\<close>

primrec filewrite_loop :: "nat \<Rightarrow> nat \<Rightarrow> nat \<Rightarrow> u32 \<Rightarrow> int \<Rightarrow> int \<Rightarrow> ('x kfile_scheme, int) kop" where
  "filewrite_loop 0 f ip addr n i = kfail Diverge"
| "filewrite_loop (Suc k) f ip addr n i =
     (if i < n then
        let n1 = min (n - i) filewrite_max in
        kdo begin_op (\<lambda>_.
        kdo (ilock ip) (\<lambda>_.
        kdo (vbytes (nat n1) (addr + word_of_int i)) (\<lambda>src.
        kdo (kget (\<lambda>s. f_off (ftable s ! f))) (\<lambda>off.
        kdo (writei ip src off (word_of_int n1)) (\<lambda>r.
        kdo (kwhen (r > 0) (kmod (upd_file f (\<lambda>x. x\<lparr>f_off := f_off x + word_of_int r\<rparr>)))) (\<lambda>_.
        kdo (iunlock ip) (\<lambda>_.
        kdo end_op (\<lambda>_.
        if r < 0 then kret i
        else if r \<noteq> n1 then kpanic ''short filewrite''
        else filewrite_loop k f ip addr n (i + r)))))))))
      else kret i)"

definition filewrite :: "nat \<Rightarrow> u32 \<Rightarrow> int \<Rightarrow> ('x kfile_scheme, int) kop" where
  "filewrite f addr n =
     kdo (kget (\<lambda>s. ftable s ! f)) (\<lambda>x.
     if \<not> f_writable x then kret (- 1)
     else
     case f_type x of
       FD_PIPE \<Rightarrow> pipewrite (f_pipe x) addr n
     | FD_INODE \<Rightarrow>
         kdo (filewrite_loop (nat n + 1) f (f_ip x) addr n 0) (\<lambda>i.
         kret (if i = n then n else - 1))
     | FD_NONE \<Rightarrow> kpanic ''filewrite'')"

end
