(* ===== verification/Lifecycle.thy ===== *)
theory Lifecycle
  imports File
begin

text \<open>
  The life of a process, the rest of \<^verbatim>\<open>src/kern/sched/proc.cc\<close>: \<^verbatim>\<open>allocproc\<close>, \<^verbatim>\<open>userinit\<close>, \<^verbatim>\<open>growproc\<close>,
  \<^verbatim>\<open>fork\<close>, \<^verbatim>\<open>exit\<close>, \<^verbatim>\<open>wait\<close>, \<^verbatim>\<open>forkret\<close> and \<^verbatim>\<open>procdump\<close>.

  A trap frame is 76 bytes of the kernel stack, a context 20. The addresses the linker gives
  \<^verbatim>\<open>trapret\<close> and \<^verbatim>\<open>forkret\<close>, and the static \<^verbatim>\<open>first\<close> of \<^verbatim>\<open>forkret\<close>, are fields of the state; the bytes of
  \<^verbatim>\<open>initcode\<close>, which the build assembles, are an argument of \<open>userinit\<close>.
\<close>

record klife = kfile +
  trapret_pc :: u32
  forkret_pc :: u32
  forkret_first :: bool

definition SEG_UCODE :: u16 where [const_defs]: "SEG_UCODE = 3"
definition SEG_UDATA :: u16 where [const_defs]: "SEG_UDATA = 4"
definition DPL_USER :: u16 where [const_defs]: "DPL_USER = 3"
definition FL_IF :: u32 where [const_defs]: "FL_IF = 0x200"

text \<open>Offsets in \<^verbatim>\<open>struct trapframe\<close>.\<close>

definition tf_size :: u32 where [const_defs]: "tf_size = 76"
definition tf_eax :: u32 where [const_defs]: "tf_eax = 28"
definition tf_es :: u32 where [const_defs]: "tf_es = 40"
definition tf_ds :: u32 where [const_defs]: "tf_ds = 44"
definition tf_trapno :: u32 where [const_defs]: "tf_trapno = 48"
definition tf_err :: u32 where [const_defs]: "tf_err = 52"
definition tf_eip :: u32 where [const_defs]: "tf_eip = 56"
definition tf_cs :: u32 where [const_defs]: "tf_cs = 60"
definition tf_eflags :: u32 where [const_defs]: "tf_eflags = 64"
definition tf_esp :: u32 where [const_defs]: "tf_esp = 68"
definition tf_ss :: u32 where [const_defs]: "tf_ss = 72"
definition ctx_size :: u32 where [const_defs]: "ctx_size = 20"
definition ctx_ebp :: u32 where [const_defs]: "ctx_ebp = 12"
definition ctx_eip :: u32 where [const_defs]: "ctx_eip = 16"

definition store16 :: "memory \<Rightarrow> u32 \<Rightarrow> u16 \<Rightarrow> memory" where
  "store16 m a v = m(a := ucast v, a + 1 := ucast (drop_bit 8 v))"

definition load16 :: "memory \<Rightarrow> u32 \<Rightarrow> u16" where
  "load16 m a = ucast (m a) OR push_bit 8 (ucast (m (a + 1)))"

definition set_mem :: "(memory \<Rightarrow> memory) \<Rightarrow> ('x kmem_scheme, unit) kop" where
  "set_mem f = kmod (\<lambda>s. s\<lparr>mem := f (mem s)\<rparr>)"

text \<open>\<^verbatim>\<open>safestrcpy(p->name, t, sizeof p->name)\<close>.\<close>

definition copy_name :: "u8 list \<Rightarrow> u8 list \<Rightarrow> u8 list" where
  "copy_name t name = blit 0 (take 15 (takeWhile (\<lambda>c. c \<noteq> 0) t) @ [0]) name"

section \<open>Birth\<close>

definition pinit :: "('x klife_scheme, unit) kop" where
  "pinit = kmod (\<lambda>s. s\<lparr>held := filter (\<lambda>l. l \<noteq> L_ptable) (held s)\<rparr>)"

definition allocproc :: "('x klife_scheme, nat option) kop" where
  "allocproc =
     kdo (acquire_lk L_ptable) (\<lambda>_.
     kdo (kget (\<lambda>s. List.find (\<lambda>i. p_state (procs s ! i) = UNUSED) [0..<NPROC])) (\<lambda>r.
     case r of
       None \<Rightarrow> kdo (release_lk L_ptable) (\<lambda>_. kret None)
     | Some i \<Rightarrow>
         kdo (kmod (upd_proc i (\<lambda>p. p\<lparr>p_state := EMBRYO\<rparr>))) (\<lambda>_.
         kdo alloc_pid (\<lambda>pid.
         kdo (kmod (upd_proc i (\<lambda>p. p\<lparr>p_pid := pid\<rparr>))) (\<lambda>_.
         kdo (release_lk L_ptable) (\<lambda>_.
         kdo kalloc (\<lambda>stk.
         kdo (kmod (upd_proc i (\<lambda>p. p\<lparr>p_kstack := stk\<rparr>))) (\<lambda>_.
         if stk = 0 then
           kdo (kmod (upd_proc i (\<lambda>p. p\<lparr>p_state := UNUSED\<rparr>))) (\<lambda>_.
           kret None)
         else
         let tf = stk + KSTACKSIZE - tf_size; sp = tf - 4; ctx = sp - ctx_size in
         kdo (kmod (upd_proc i (\<lambda>p. p\<lparr>p_tf := tf\<rparr>))) (\<lambda>_.
         kdo (kmod (\<lambda>s. s\<lparr>mem := store32 (mem s) sp (trapret_pc s)\<rparr>)) (\<lambda>_.
         kdo (kmod (upd_proc i (\<lambda>p. p\<lparr>p_context := ctx\<rparr>))) (\<lambda>_.
         kdo (set_mem (\<lambda>m. memset m ctx 0 ctx_size)) (\<lambda>_.
         kdo (kmod (upd_proc i (\<lambda>p. p\<lparr>p_cxa_eh_global := replicate 16 0\<rparr>))) (\<lambda>_.
         kdo (kmod (\<lambda>s. s\<lparr>mem := store32 (mem s) (ctx + ctx_eip) (forkret_pc s)\<rparr>)) (\<lambda>_.
         kret (Some i)))))))))))))))"

definition userinit :: "u8 list \<Rightarrow> ('x klife_scheme, unit) kop" where
  "userinit initcode =
     kdo allocproc (\<lambda>r.
     kdo (kmod (\<lambda>s. s\<lparr>initproc := r\<rparr>)) (\<lambda>_.
     case r of None \<Rightarrow> kfail (Undef ''null process'') | Some i \<Rightarrow>
     kdo setupkvm (\<lambda>pgdir.
     kdo (kmod (upd_proc i (\<lambda>p. p\<lparr>p_pgdir := pgdir\<rparr>))) (\<lambda>_.
     if pgdir = 0 then kpanic ''userinit: out of memory?''
     else
     kdo (inituvm pgdir initcode) (\<lambda>_.
     kdo (kmod (upd_proc i (\<lambda>p. p\<lparr>p_sz := PGSIZE\<rparr>))) (\<lambda>_.
     kdo (kget (\<lambda>s. p_tf (procs s ! i))) (\<lambda>tf.
     kdo (set_mem (\<lambda>m. memset m tf 0 tf_size)) (\<lambda>_.
     kdo (set_mem (\<lambda>m. store16 m (tf + tf_cs) (push_bit 3 SEG_UCODE OR DPL_USER))) (\<lambda>_.
     kdo (set_mem (\<lambda>m. store16 m (tf + tf_ds) (push_bit 3 SEG_UDATA OR DPL_USER))) (\<lambda>_.
     kdo (set_mem (\<lambda>m. store16 m (tf + tf_es) (load16 m (tf + tf_ds)))) (\<lambda>_.
     kdo (set_mem (\<lambda>m. store16 m (tf + tf_ss) (load16 m (tf + tf_ds)))) (\<lambda>_.
     kdo (set_mem (\<lambda>m. store32 m (tf + tf_eflags) FL_IF)) (\<lambda>_.
     kdo (set_mem (\<lambda>m. store32 m (tf + tf_esp) PGSIZE)) (\<lambda>_.
     kdo (set_mem (\<lambda>m. store32 m (tf + tf_eip) 0)) (\<lambda>_.
     kdo (kmod (upd_proc i (\<lambda>p. p\<lparr>p_name := copy_name (map of_char ''initcode'') (p_name p)\<rparr>))) (\<lambda>_.
     kdo (namei [0x2F]) (\<lambda>cwd.
     kdo (kmod (upd_proc i (\<lambda>p. p\<lparr>p_cwd := cwd\<rparr>))) (\<lambda>_.
     kdo (acquire_lk L_ptable) (\<lambda>_.
     kdo (kmod (upd_proc i (\<lambda>p. p\<lparr>p_state := RUNNABLE\<rparr>))) (\<lambda>_.
     release_lk L_ptable))))))))))))))))))))"

definition growproc :: "int \<Rightarrow> ('x klife_scheme, int) kop" where
  "growproc n =
     kdo curproc (\<lambda>c.
     kdo (kget (\<lambda>s. p_sz (procs s ! c))) (\<lambda>sz.
     kdo (kget (\<lambda>s. p_pgdir (procs s ! c))) (\<lambda>pgdir.
     kdo (if n > 0 then allocuvm pgdir sz (sz + word_of_int n)
          else if n < 0 then deallocuvm pgdir sz (sz + word_of_int n)
          else kret sz) (\<lambda>sz'.
     if n \<noteq> 0 \<and> sz' = 0 then kret (- 1)
     else
     kdo (kmod (upd_proc c (\<lambda>p. p\<lparr>p_sz := sz'\<rparr>))) (\<lambda>_.
     kdo (switchuvm c) (\<lambda>_.
     kret 0))))))"

definition fork_files :: "nat \<Rightarrow> nat \<Rightarrow> ('x klife_scheme, unit) kop" where
  "fork_files c np =
     kfor (\<lambda>i.
       kdo (kget (\<lambda>s. p_ofile (procs s ! c) ! i)) (\<lambda>f.
       case f of None \<Rightarrow> kret ()
       | Some f \<Rightarrow>
           kdo (filedup f) (\<lambda>f.
           kmod (upd_proc np (\<lambda>p. p\<lparr>p_ofile := (p_ofile p)[i := Some f]\<rparr>))))) [0..<NOFILE]"

definition fork :: "('x klife_scheme, int) kop" where
  "fork =
     kdo curproc (\<lambda>c.
     kdo allocproc (\<lambda>r.
     case r of None \<Rightarrow> kret (- 1) | Some np \<Rightarrow>
     kdo (kget (\<lambda>s. procs s ! c)) (\<lambda>cp.
     kdo (copyuvm (p_pgdir cp) (p_sz cp)) (\<lambda>d.
     kdo (kmod (upd_proc np (\<lambda>p. p\<lparr>p_pgdir := d\<rparr>))) (\<lambda>_.
     if d = 0 then
       kdo (kget (\<lambda>s. p_kstack (procs s ! np))) (\<lambda>stk.
       kdo (kfree stk) (\<lambda>_.
       kdo (kmod (upd_proc np (\<lambda>p. p\<lparr>p_kstack := 0, p_state := UNUSED\<rparr>))) (\<lambda>_.
       kret (- 1))))
     else
     kdo (kmod (upd_proc np (\<lambda>p. p\<lparr>p_sz := p_sz cp, p_parent := Some c\<rparr>))) (\<lambda>_.
     kdo (kget (\<lambda>s. p_tf (procs s ! np))) (\<lambda>tf.
     kdo (set_mem (\<lambda>m. mem_move m tf (p_tf cp) tf_size)) (\<lambda>_.
     kdo (set_mem (\<lambda>m. store32 m (tf + tf_eax) 0)) (\<lambda>_.
     kdo (fork_files c np) (\<lambda>_.
     case p_cwd cp of None \<Rightarrow> kfail (Undef ''null inode'') | Some cwd \<Rightarrow>
     kdo (idup cwd) (\<lambda>cwd.
     kdo (kmod (upd_proc np (\<lambda>p. p\<lparr>p_cwd := Some cwd, p_name := copy_name (p_name cp) (p_name p)\<rparr>))) (\<lambda>_.
     kdo (kget (\<lambda>s. p_pid (procs s ! np))) (\<lambda>pid.
     kdo (acquire_lk L_ptable) (\<lambda>_.
     kdo (kmod (upd_proc np (\<lambda>p. p\<lparr>p_state := RUNNABLE\<rparr>))) (\<lambda>_.
     kdo (release_lk L_ptable) (\<lambda>_.
     kret pid))))))))))))))))"

section \<open>Death\<close>

definition exit_files :: "nat \<Rightarrow> ('x klife_scheme, unit) kop" where
  "exit_files c =
     kfor (\<lambda>fd.
       kdo (kget (\<lambda>s. p_ofile (procs s ! c) ! fd)) (\<lambda>f.
       case f of None \<Rightarrow> kret ()
       | Some f \<Rightarrow>
           kdo (fileclose f) (\<lambda>_.
           kmod (upd_proc c (\<lambda>p. p\<lparr>p_ofile := (p_ofile p)[fd := None]\<rparr>))))) [0..<NOFILE]"

definition exit_children :: "nat \<Rightarrow> ('x kproc_scheme, unit) kop" where
  "exit_children c =
     kfor (\<lambda>i.
       kdo (kget (\<lambda>s. procs s ! i)) (\<lambda>p.
       kwhen (p_parent p = Some c)
         (kdo (kmod (\<lambda>s. upd_proc i (\<lambda>p. p\<lparr>p_parent := initproc s\<rparr>) s)) (\<lambda>_.
          kwhen (p_state p = ZOMBIE) (kdo (kget initproc) (\<lambda>ini. wakeup1 (map_option CProc ini))))))) [0..<NPROC]"

text \<open>The end of \<^verbatim>\<open>exit\<close>, from where the process table is locked.\<close>

definition exit_zombie :: "nat \<Rightarrow> ('x kproc_scheme, unit) kop" where
  "exit_zombie c =
     kdo (acquire_lk L_ptable) (\<lambda>_.
     kdo (kget (\<lambda>s. p_parent (procs s ! c))) (\<lambda>parent.
     kdo (wakeup1 (map_option CProc parent)) (\<lambda>_.
     kdo (exit_children c) (\<lambda>_.
     kdo (kmod (upd_proc c (\<lambda>p. p\<lparr>p_state := ZOMBIE\<rparr>))) (\<lambda>_.
     kdo sched (\<lambda>_.
     kpanic ''zombie exit''))))))"

definition exit :: "('x klife_scheme, unit) kop" where
  "exit =
     kdo myproc (\<lambda>me.
     kdo (kget initproc) (\<lambda>ini.
     if me = ini then kpanic ''init exiting''
     else
     kdo curproc (\<lambda>c.
     kdo (exit_files c) (\<lambda>_.
     kdo begin_op (\<lambda>_.
     kdo (kget (\<lambda>s. p_cwd (procs s ! c))) (\<lambda>cwd.
     kdo (case cwd of None \<Rightarrow> kfail (Undef ''null inode'') | Some d \<Rightarrow> iput d) (\<lambda>_.
     kdo end_op (\<lambda>_.
     kdo (kmod (upd_proc c (\<lambda>p. p\<lparr>p_cwd := None\<rparr>))) (\<lambda>_.
     exit_zombie c)))))))))"

definition is_child :: "nat \<Rightarrow> proc \<Rightarrow> bool" where
  "is_child c p \<longleftrightarrow> p_parent p = Some c"

text \<open>One round of \<^verbatim>\<open>wait\<close>: a process that has to sleep comes back in \<open>wait_resume\<close>.\<close>

definition wait_loop :: "nat \<Rightarrow> ('x klife_scheme, int) kop" where
  "wait_loop c =
     kdo (kget (\<lambda>s. List.find (\<lambda>i. is_child c (procs s ! i) \<and> p_state (procs s ! i) = ZOMBIE) [0..<NPROC])) (\<lambda>r.
     case r of
       Some i \<Rightarrow>
         kdo (kget (\<lambda>s. procs s ! i)) (\<lambda>p.
         kdo (kfree (p_kstack p)) (\<lambda>_.
         kdo (kmod (upd_proc i (\<lambda>p. p\<lparr>p_kstack := 0\<rparr>))) (\<lambda>_.
         kdo (freevm (p_pgdir p)) (\<lambda>_.
         kdo (kmod (upd_proc i (\<lambda>p. p\<lparr>p_pid := 0, p_parent := None, p_name := (p_name p)[0 := 0],
            p_killed := False, p_state := UNUSED\<rparr>))) (\<lambda>_.
         kdo (release_lk L_ptable) (\<lambda>_.
         kret (p_pid p)))))))
     | None \<Rightarrow>
         kdo (kget (\<lambda>s. \<exists>i \<in> set [0..<NPROC]. is_child c (procs s ! i))) (\<lambda>havekids.
         kdo (kget (\<lambda>s. p_killed (procs s ! c))) (\<lambda>killed.
         if \<not> havekids \<or> killed then
           kdo (release_lk L_ptable) (\<lambda>_.
           kret (- 1))
         else
           kdo (sleep (CProc c) (Some L_ptable)) (\<lambda>_.
           kfail Diverge))))"

definition wait :: "('x klife_scheme, int) kop" where
  "wait =
     kdo curproc (\<lambda>c.
     kdo (acquire_lk L_ptable) (\<lambda>_.
     wait_loop c))"

definition wait_resume :: "('x klife_scheme, int) kop" where
  "wait_resume =
     kdo curproc (\<lambda>c.
     kdo (sleep_resume (Some L_ptable)) (\<lambda>_.
     wait_loop c))"

definition forkret :: "('x klife_scheme, unit) kop" where
  "forkret =
     kdo (release_lk L_ptable) (\<lambda>_.
     kdo (kget forkret_first) (\<lambda>first.
     kwhen first
       (kdo (kmod (\<lambda>s. s\<lparr>forkret_first := False\<rparr>)) (\<lambda>_.
        kdo (iinit ROOTDEV) (\<lambda>_.
        initlog ROOTDEV)))))"

section \<open>Listing\<close>

text \<open>\<^verbatim>\<open>cprintf\<close> of a text whose arguments are already in place.\<close>

definition cprint :: "nat list \<Rightarrow> ('x kcons_scheme, unit) kop" where
  "cprint cs =
     kdo (kget cons_locking) (\<lambda>locking.
     kdo (kwhen locking (acquire_lk L_cons)) (\<lambda>_.
     kdo (kfor consputc cs) (\<lambda>_.
     kwhen locking (release_lk L_cons))))"

definition state_name :: "procstate \<Rightarrow> string" where
  "state_name st = (case st of UNUSED \<Rightarrow> ''unused'' | EMBRYO \<Rightarrow> ''embryo'' | SLEEPING \<Rightarrow> ''sleep ''
     | RUNNABLE \<Rightarrow> ''runble'' | RUNNING \<Rightarrow> ''run   '' | ZOMBIE \<Rightarrow> ''zombie'')"

definition name_chars :: "proc \<Rightarrow> nat list" where
  "name_chars p = map unat (takeWhile (\<lambda>c. c \<noteq> 0) (p_name p))"

definition procdump :: "('x klife_scheme, unit) kop" where
  "procdump =
     kfor (\<lambda>i.
       kdo (kget (\<lambda>s. procs s ! i)) (\<lambda>p.
       kwhen (p_state p \<noteq> UNUSED)
         (kdo (cprint (int_chars (word_of_int (p_pid p)) 10 True @ [0x20] @ map of_char (state_name (p_state p)) @ [0x20]
             @ name_chars p)) (\<lambda>_.
          kdo (kwhen (p_state p = SLEEPING)
            (kdo (kget (\<lambda>s. getcallerpcs (load32 (mem s)) (load32 (mem s) (p_context p + ctx_ebp) + 8))) (\<lambda>pcs.
             kfor (\<lambda>pc. cprint (0x20 # int_chars pc 16 False)) (takeWhile (\<lambda>pc. pc \<noteq> 0) pcs)))) (\<lambda>_.
          cprint [0x0A]))))) [0..<NPROC]"

end
