(* ===== verification/Exec.thy ===== *)
theory Exec
  imports Lifecycle
begin

text \<open>
  Running a program: \<^verbatim>\<open>loaduvm\<close> of \<^verbatim>\<open>src/kern/mm/vm.c\<close> and \<^verbatim>\<open>src/kern/sched/exec.c\<close>, with the headers of
  \<^verbatim>\<open>src/include/xv6/elf.h\<close> read out of the bytes of the file. The jumps to \<^verbatim>\<open>bad\<close> are calls of
  \<open>exec_bad\<close>. A program's arguments are the strings \<^verbatim>\<open>argv\<close> points to.
\<close>

definition MAXARG :: nat where [const_defs]: "MAXARG = 32"
definition ELF_MAGIC :: u32 where [const_defs]: "ELF_MAGIC = 0x464C457F"
definition ELF_PROG_LOAD :: u32 where [const_defs]: "ELF_PROG_LOAD = 1"

primrec loaduvm_from :: "nat \<Rightarrow> u32 \<Rightarrow> u32 \<Rightarrow> nat \<Rightarrow> u32 \<Rightarrow> u32 \<Rightarrow> u32 \<Rightarrow> ('x kfs_scheme, int) kop" where
  "loaduvm_from 0 pgdir addr ip offset i sz = kfail Diverge"
| "loaduvm_from (Suc k) pgdir addr ip offset i sz =
     (if i < sz then
        kdo (walkpgdir pgdir (addr + i) False) (\<lambda>pte.
        if pte = 0 then kpanic ''loaduvm: address should exist''
        else
        kdo (kget (\<lambda>s. PTE_ADDR (load32 (mem s) pte))) (\<lambda>pa.
        let n = (if sz - i < PGSIZE then sz - i else PGSIZE) in
        kdo (readi ip (offset + i) n) (\<lambda>(r, dst).
        kdo (kmod (\<lambda>s. s\<lparr>mem := put_bytes (mem s) (P2V pa) dst\<rparr>)) (\<lambda>_.
        if word_of_int r \<noteq> n then kret (- 1)
        else loaduvm_from k pgdir addr ip offset (i + PGSIZE) sz))))
      else kret 0)"

definition loaduvm :: "u32 \<Rightarrow> u32 \<Rightarrow> nat \<Rightarrow> u32 \<Rightarrow> u32 \<Rightarrow> ('x kfs_scheme, int) kop" where
  "loaduvm pgdir addr ip offset sz =
     (if addr mod PGSIZE \<noteq> 0 then kpanic ''loaduvm: addr must be page aligned''
      else loaduvm_from page_fuel pgdir addr ip offset 0 sz)"

section \<open>ELF headers\<close>

record elfhdr =
  e_magic :: u32
  e_entry :: u32
  e_phoff :: u32
  e_phnum :: nat

record proghdr =
  ph_type :: u32
  ph_off :: u32
  ph_vaddr :: u32
  ph_filesz :: u32
  ph_memsz :: u32

definition get_elfhdr :: "u8 list \<Rightarrow> elfhdr" where
  "get_elfhdr d = \<lparr>e_magic = of_nat (get32 d 0), e_entry = of_nat (get32 d 24), e_phoff = of_nat (get32 d 28),
     e_phnum = unat (get16 d 44)\<rparr>"

definition get_proghdr :: "u8 list \<Rightarrow> proghdr" where
  "get_proghdr d = \<lparr>ph_type = of_nat (get32 d 0), ph_off = of_nat (get32 d 4), ph_vaddr = of_nat (get32 d 8),
     ph_filesz = of_nat (get32 d 16), ph_memsz = of_nat (get32 d 20)\<rparr>"

section \<open>exec\<close>

definition exec_bad :: "u32 \<Rightarrow> nat option \<Rightarrow> ('x kfs_scheme, int) kop" where
  "exec_bad pgdir ip =
     kdo (kwhen (pgdir \<noteq> 0) (freevm pgdir)) (\<lambda>_.
     kdo (case ip of None \<Rightarrow> kret () | Some ip \<Rightarrow> kdo (iunlockput ip) (\<lambda>_. end_op)) (\<lambda>_.
     kret (- 1)))"

text \<open>The loop over the program headers, \<open>k\<close> of them to go; \<open>None\<close> is a jump to \<^verbatim>\<open>bad\<close>.\<close>

primrec load_segments :: "nat \<Rightarrow> nat \<Rightarrow> u32 \<Rightarrow> u32 \<Rightarrow> u32 \<Rightarrow> ('x kfs_scheme, u32 option) kop" where
  "load_segments 0 ip pgdir off sz = kret (Some sz)"
| "load_segments (Suc k) ip pgdir off sz =
     kdo (readi ip off 32) (\<lambda>(r, d).
     if r \<noteq> 32 then kret None
     else let ph = get_proghdr d in
     if ph_type ph \<noteq> ELF_PROG_LOAD then load_segments k ip pgdir (off + 32) sz
     else if ph_memsz ph < ph_filesz ph then kret None
     else if ph_vaddr ph + ph_memsz ph < ph_vaddr ph then kret None
     else
     kdo (allocuvm pgdir sz (ph_vaddr ph + ph_memsz ph)) (\<lambda>sz.
     if sz = 0 then kret None
     else if ph_vaddr ph mod PGSIZE \<noteq> 0 then kret None
     else
     kdo (loaduvm pgdir (ph_vaddr ph) ip (ph_off ph) (ph_filesz ph)) (\<lambda>r.
     if r < 0 then kret None
     else load_segments k ip pgdir (off + 32) sz)))"

text \<open>The loop that pushes the arguments from number \<open>argc\<close> on: the stack pointer and the addresses
  of the strings, or \<open>None\<close> for a jump to \<^verbatim>\<open>bad\<close>.\<close>

primrec push_args :: "u8 list list \<Rightarrow> nat \<Rightarrow> u32 \<Rightarrow> u32 \<Rightarrow> u32 list \<Rightarrow> ('x kmem_scheme, (u32 \<times> u32 list) option) kop" where
  "push_args [] argc pgdir sp acc = kret (Some (sp, acc))"
| "push_args (a # as) argc pgdir sp acc =
     (if argc \<ge> MAXARG then kret None
      else
      let sp = (sp - of_nat (length a + 1)) AND NOT 3 in
      kdo (copyout pgdir sp (a @ [0])) (\<lambda>r.
      if r < 0 then kret None
      else push_args as (argc + 1) pgdir sp (acc @ [sp])))"

definition exec_ustack :: "u32 \<Rightarrow> u32 list \<Rightarrow> u32 list" where
  "exec_ustack sp ptrs = [0xffffffff, of_nat (length ptrs), sp - of_nat (length ptrs + 1) * 4] @ ptrs @ [0]"

definition words_bytes :: "u32 list \<Rightarrow> u8 list" where
  "words_bytes ws = concat (map (\<lambda>w. to_le 4 (unat w)) ws)"

definition path_last :: "u8 list \<Rightarrow> u8 list" where
  "path_last path = rev (takeWhile (\<lambda>c. c \<noteq> 0x2F) (rev path))"

text \<open>From the user stack on.\<close>

definition exec_image :: "u32 \<Rightarrow> u32 \<Rightarrow> u32 \<Rightarrow> u8 list \<Rightarrow> u8 list list \<Rightarrow> ('x klife_scheme, int) kop" where
  "exec_image pgdir sz entry path argv =
     kdo (allocuvm pgdir (PGROUNDUP sz) (PGROUNDUP sz + 2 * PGSIZE)) (\<lambda>sz.
     if sz = 0 then exec_bad pgdir None
     else
     kdo (clearpteu pgdir (sz - 2 * PGSIZE)) (\<lambda>_.
     kdo (push_args argv 0 pgdir sz []) (\<lambda>r.
     case r of None \<Rightarrow> exec_bad pgdir None | Some (sp, ptrs) \<Rightarrow>
     let ustack = exec_ustack sp ptrs; sp = sp - of_nat (3 + length ptrs + 1) * 4 in
     kdo (copyout pgdir sp (words_bytes ustack)) (\<lambda>r.
     if r < 0 then exec_bad pgdir None
     else
     kdo curproc (\<lambda>c.
     kdo (kmod (upd_proc c (\<lambda>p. p\<lparr>p_name := copy_name (path_last path) (p_name p)\<rparr>))) (\<lambda>_.
     kdo (kget (\<lambda>s. p_pgdir (procs s ! c))) (\<lambda>oldpgdir.
     kdo (kmod (upd_proc c (\<lambda>p. p\<lparr>p_pgdir := pgdir, p_sz := sz\<rparr>))) (\<lambda>_.
     kdo (kget (\<lambda>s. p_tf (procs s ! c))) (\<lambda>tf.
     kdo (set_mem (\<lambda>m. store32 m (tf + tf_eip) entry)) (\<lambda>_.
     kdo (set_mem (\<lambda>m. store32 m (tf + tf_esp) sp)) (\<lambda>_.
     kdo (switchuvm c) (\<lambda>_.
     kdo (freevm oldpgdir) (\<lambda>_.
     kret 0)))))))))))))"

definition exec :: "u8 list \<Rightarrow> u8 list list \<Rightarrow> ('x klife_scheme, int) kop" where
  "exec path argv =
     kdo begin_op (\<lambda>_.
     kdo (namei path) (\<lambda>r.
     case r of
       None \<Rightarrow>
         kdo end_op (\<lambda>_.
         kdo (cprintf (map of_char (''exec: fail'' @ [CHR 0x0A])) []) (\<lambda>_.
         kret (- 1)))
     | Some ip \<Rightarrow>
         kdo (ilock ip) (\<lambda>_.
         kdo (readi ip 0 52) (\<lambda>(r, d).
         let elf = get_elfhdr d in
         if r \<noteq> 52 then exec_bad 0 (Some ip)
         else if e_magic elf \<noteq> ELF_MAGIC then exec_bad 0 (Some ip)
         else
         kdo setupkvm (\<lambda>pgdir.
         if pgdir = 0 then exec_bad 0 (Some ip)
         else
         kdo (load_segments (e_phnum elf) ip pgdir (e_phoff elf) 0) (\<lambda>r.
         case r of None \<Rightarrow> exec_bad pgdir (Some ip) | Some sz \<Rightarrow>
         kdo (iunlockput ip) (\<lambda>_.
         kdo end_op (\<lambda>_.
         exec_image pgdir sz (e_entry elf) path argv))))))))"

end
