(* ===== verification/Sysfile.thy ===== *)
theory Sysfile
  imports Exec
begin

text \<open>
  System calls on files: the argument fetching of \<^verbatim>\<open>src/kern/syscall/syscall.c\<close> and all of
  \<^verbatim>\<open>src/kern/syscall/sysfile.c\<close>. A fetch gives \<open>None\<close> for a return of \<open>-1\<close>. A string argument is its bytes
  up to the terminator, a descriptor argument the descriptor and the file. A string has at most as many
  bytes as the process has memory above it, so the loop of \<^verbatim>\<open>fetchstr\<close> is recursion on that number.
\<close>

definition O_WRONLY :: u32 where [const_defs]: "O_WRONLY = 1"
definition O_RDWR :: u32 where [const_defs]: "O_RDWR = 2"
definition O_CREATE :: u32 where [const_defs]: "O_CREATE = 0x200"

section \<open>Arguments\<close>

definition cur_sz :: "('x kproc_scheme, u32) kop" where
  "cur_sz = kdo curproc (\<lambda>c. kget (\<lambda>s. p_sz (procs s ! c)))"

definition fetchint :: "u32 \<Rightarrow> ('x kproc_scheme, u32 option) kop" where
  "fetchint addr =
     kdo cur_sz (\<lambda>sz.
     if addr \<ge> sz \<or> addr + 4 > sz then kret None
     else kdo (vbytes 4 addr) (\<lambda>bs. kret (Some (word_of_nat (of_le bs)))))"

primrec fetchstr_from :: "nat \<Rightarrow> u32 \<Rightarrow> ('x kproc_scheme, u8 list option) kop" where
  "fetchstr_from 0 a = kret None"
| "fetchstr_from (Suc k) a =
     kdo (vload a) (\<lambda>b.
     if b = 0 then kret (Some [])
     else kdo (fetchstr_from k (a + 1)) (\<lambda>r. kret (map_option (\<lambda>bs. b # bs) r)))"

definition fetchstr :: "u32 \<Rightarrow> ('x kproc_scheme, u8 list option) kop" where
  "fetchstr addr =
     kdo cur_sz (\<lambda>sz.
     if addr \<ge> sz then kret None
     else fetchstr_from (unat sz - unat addr) addr)"

definition argint :: "nat \<Rightarrow> ('x kproc_scheme, u32 option) kop" where
  "argint n =
     kdo curproc (\<lambda>c.
     kdo (kget (\<lambda>s. load32 (mem s) (p_tf (procs s ! c) + tf_esp))) (\<lambda>esp.
     fetchint (esp + 4 + 4 * of_nat n)))"

definition argptr :: "nat \<Rightarrow> int \<Rightarrow> ('x kproc_scheme, u32 option) kop" where
  "argptr n sz =
     kdo (argint n) (\<lambda>r.
     case r of None \<Rightarrow> kret None | Some i \<Rightarrow>
     kdo cur_sz (\<lambda>psz.
     if sz < 0 \<or> i \<ge> psz \<or> i + word_of_int sz > psz then kret None
     else kret (Some i)))"

definition argstr :: "nat \<Rightarrow> ('x kproc_scheme, u8 list option) kop" where
  "argstr n =
     kdo (argint n) (\<lambda>r.
     case r of None \<Rightarrow> kret None | Some addr \<Rightarrow> fetchstr addr)"

definition argfd :: "nat \<Rightarrow> ('x kproc_scheme, (nat \<times> nat) option) kop" where
  "argfd n =
     kdo (argint n) (\<lambda>r.
     case r of None \<Rightarrow> kret None | Some fd \<Rightarrow>
     if sint fd < 0 \<or> sint fd \<ge> int NOFILE then kret None
     else
     kdo curproc (\<lambda>c.
     kdo (kget (\<lambda>s. p_ofile (procs s ! c) ! unat fd)) (\<lambda>f.
     kret (map_option (\<lambda>f. (unat fd, f)) f))))"

definition fdalloc :: "nat \<Rightarrow> ('x kproc_scheme, nat option) kop" where
  "fdalloc f =
     kdo curproc (\<lambda>c.
     kdo (kget (\<lambda>s. List.find (\<lambda>fd. p_ofile (procs s ! c) ! fd = None) [0..<NOFILE])) (\<lambda>r.
     case r of None \<Rightarrow> kret None
     | Some fd \<Rightarrow>
         kdo (kmod (upd_proc c (\<lambda>p. p\<lparr>p_ofile := (p_ofile p)[fd := Some f]\<rparr>))) (\<lambda>_.
         kret (Some fd))))"

definition clear_fd :: "nat \<Rightarrow> ('x kproc_scheme, unit) kop" where
  "clear_fd fd = kdo curproc (\<lambda>c. kmod (upd_proc c (\<lambda>p. p\<lparr>p_ofile := (p_ofile p)[fd := None]\<rparr>)))"

section \<open>Descriptors\<close>

definition sys_dup :: "('x klife_scheme, int) kop" where
  "sys_dup =
     kdo (argfd 0) (\<lambda>r.
     case r of None \<Rightarrow> kret (- 1) | Some (_, f) \<Rightarrow>
     kdo (fdalloc f) (\<lambda>r.
     case r of None \<Rightarrow> kret (- 1) | Some fd \<Rightarrow>
     kdo (filedup f) (\<lambda>_.
     kret (int fd))))"

definition rw_args :: "('x klife_scheme, (nat \<times> u32 \<times> int) option) kop" where
  "rw_args =
     kdo (argfd 0) (\<lambda>r.
     case r of None \<Rightarrow> kret None | Some (_, f) \<Rightarrow>
     kdo (argint 2) (\<lambda>r.
     case r of None \<Rightarrow> kret None | Some n \<Rightarrow>
     kdo (argptr 1 (sint n)) (\<lambda>r.
     case r of None \<Rightarrow> kret None | Some p \<Rightarrow> kret (Some (f, p, sint n)))))"

definition sys_read :: "('x klife_scheme, int) kop" where
  "sys_read =
     kdo rw_args (\<lambda>r.
     case r of None \<Rightarrow> kret (- 1) | Some (f, p, n) \<Rightarrow> fileread f p n)"

definition sys_write :: "('x klife_scheme, int) kop" where
  "sys_write =
     kdo rw_args (\<lambda>r.
     case r of None \<Rightarrow> kret (- 1) | Some (f, p, n) \<Rightarrow> filewrite f p n)"

definition sys_close :: "('x klife_scheme, int) kop" where
  "sys_close =
     kdo (argfd 0) (\<lambda>r.
     case r of None \<Rightarrow> kret (- 1) | Some (fd, f) \<Rightarrow>
     kdo (clear_fd fd) (\<lambda>_.
     kdo (fileclose f) (\<lambda>_.
     kret 0)))"

text \<open>The 20 bytes of \<^verbatim>\<open>struct stat\<close>, field by field: padding is left as it is.\<close>

definition put_stat :: "u32 \<Rightarrow> stat \<Rightarrow> ('x kproc_scheme, unit) kop" where
  "put_stat a st =
     kdo (vput a (to_le 2 (unat (st_type st)))) (\<lambda>_.
     kdo (vput (a + 4) (to_le 4 (st_dev st))) (\<lambda>_.
     kdo (vput (a + 8) (to_le 4 (st_ino st))) (\<lambda>_.
     kdo (vput (a + 12) (to_le 2 (unat (st_nlink st)))) (\<lambda>_.
     vput (a + 16) (to_le 4 (unat (st_size st)))))))"

definition sys_fstat :: "('x klife_scheme, int) kop" where
  "sys_fstat =
     kdo (argfd 0) (\<lambda>r.
     case r of None \<Rightarrow> kret (- 1) | Some (_, f) \<Rightarrow>
     kdo (argptr 1 20) (\<lambda>r.
     case r of None \<Rightarrow> kret (- 1) | Some a \<Rightarrow>
     kdo (filestat f) (\<lambda>r.
     case r of None \<Rightarrow> kret (- 1) | Some st \<Rightarrow>
     kdo (put_stat a st) (\<lambda>_.
     kret 0))))"

section \<open>Links\<close>

definition add_nlink :: "u16 \<Rightarrow> inode \<Rightarrow> inode" where
  "add_nlink d x = x\<lparr>d_nlink := d_nlink x + d\<rparr>"

definition link_bad :: "nat \<Rightarrow> ('x kfs_scheme, int) kop" where
  "link_bad ip =
     kdo (ilock ip) (\<lambda>_.
     kdo (kmod (upd_inode ip (add_nlink (- 1)))) (\<lambda>_.
     kdo (iupdate ip) (\<lambda>_.
     kdo (iunlockput ip) (\<lambda>_.
     kdo end_op (\<lambda>_.
     kret (- 1))))))"

definition sys_link :: "('x klife_scheme, int) kop" where
  "sys_link =
     kdo (argstr 0) (\<lambda>r. case r of None \<Rightarrow> kret (- 1) | Some old \<Rightarrow>
     kdo (argstr 1) (\<lambda>r. case r of None \<Rightarrow> kret (- 1) | Some new \<Rightarrow>
     kdo begin_op (\<lambda>_.
     kdo (namei old) (\<lambda>r. case r of None \<Rightarrow> kdo end_op (\<lambda>_. kret (- 1)) | Some ip \<Rightarrow>
     kdo (ilock ip) (\<lambda>_.
     kdo (kget (\<lambda>s. d_type (inodes s ! ip))) (\<lambda>t.
     if t = T_DIR then
       kdo (iunlockput ip) (\<lambda>_.
       kdo end_op (\<lambda>_.
       kret (- 1)))
     else
     kdo (kmod (upd_inode ip (add_nlink 1))) (\<lambda>_.
     kdo (iupdate ip) (\<lambda>_.
     kdo (iunlock ip) (\<lambda>_.
     kdo (nameiparent new) (\<lambda>(r, name). case r of None \<Rightarrow> link_bad ip | Some dp \<Rightarrow>
     kdo (ilock dp) (\<lambda>_.
     kdo (kget (\<lambda>s. i_dev (inodes s ! dp) \<noteq> i_dev (inodes s ! ip))) (\<lambda>cross.
     kdo (if cross then kret (- 1) else kdo (kget (\<lambda>s. i_inum (inodes s ! ip))) (\<lambda>inum. dirlink dp name inum)) (\<lambda>r.
     if r < 0 then
       kdo (iunlockput dp) (\<lambda>_.
       link_bad ip)
     else
       kdo (iunlockput dp) (\<lambda>_.
       kdo (iput ip) (\<lambda>_.
       kdo end_op (\<lambda>_.
       kret 0))))))))))))))))"

primrec isdirempty_from :: "nat \<Rightarrow> nat \<Rightarrow> u32 \<Rightarrow> ('x kfs_scheme, bool) kop" where
  "isdirempty_from 0 dp off = kfail Diverge"
| "isdirempty_from (Suc k) dp off =
     kdo (kget (\<lambda>s. d_size (inodes s ! dp))) (\<lambda>sz.
     if off < sz then
       kdo (readi dp off DIRENT) (\<lambda>(r, de).
       if r \<noteq> sint DIRENT then kpanic ''isdirempty: readi''
       else if de_inum de \<noteq> 0 then kret False
       else isdirempty_from k dp (off + DIRENT))
     else kret True)"

definition isdirempty :: "nat \<Rightarrow> ('x kfs_scheme, bool) kop" where
  "isdirempty dp =
     kdo (kget (\<lambda>s. unat (d_size (inodes s ! dp)))) (\<lambda>sz.
     isdirempty_from (sz div 16 + 2) dp (2 * DIRENT))"

definition unlink_bad :: "nat \<Rightarrow> ('x kfs_scheme, int) kop" where
  "unlink_bad dp =
     kdo (iunlockput dp) (\<lambda>_.
     kdo end_op (\<lambda>_.
     kret (- 1)))"

definition sys_unlink :: "('x klife_scheme, int) kop" where
  "sys_unlink =
     kdo (argstr 0) (\<lambda>r. case r of None \<Rightarrow> kret (- 1) | Some path \<Rightarrow>
     kdo begin_op (\<lambda>_.
     kdo (nameiparent path) (\<lambda>(r, name). case r of None \<Rightarrow> kdo end_op (\<lambda>_. kret (- 1)) | Some dp \<Rightarrow>
     kdo (ilock dp) (\<lambda>_.
     if namecmp name [0x2E] = 0 \<or> namecmp name [0x2E, 0x2E] = 0 then unlink_bad dp
     else
     kdo (dirlookup dp name) (\<lambda>r. case r of None \<Rightarrow> unlink_bad dp | Some (ip, off) \<Rightarrow>
     kdo (ilock ip) (\<lambda>_.
     kdo (kget (\<lambda>s. inodes s ! ip)) (\<lambda>x.
     if sint (d_nlink x) < 1 then kpanic ''unlink: nlink < 1''
     else
     kdo (if d_type x = T_DIR then isdirempty ip else kret True) (\<lambda>empty.
     if \<not> empty then
       kdo (iunlockput ip) (\<lambda>_.
       unlink_bad dp)
     else
     kdo (writei dp (replicate 16 0) off DIRENT) (\<lambda>r.
     if r \<noteq> sint DIRENT then kpanic ''unlink: writei''
     else
     kdo (kwhen (d_type x = T_DIR)
       (kdo (kmod (upd_inode dp (add_nlink (- 1)))) (\<lambda>_.
        iupdate dp))) (\<lambda>_.
     kdo (iunlockput dp) (\<lambda>_.
     kdo (kmod (upd_inode ip (add_nlink (- 1)))) (\<lambda>_.
     kdo (iupdate ip) (\<lambda>_.
     kdo (iunlockput ip) (\<lambda>_.
     kdo end_op (\<lambda>_.
     kret 0)))))))))))))))"

section \<open>Creating and opening\<close>

definition create :: "u8 list \<Rightarrow> u16 \<Rightarrow> u16 \<Rightarrow> u16 \<Rightarrow> ('x kfs_scheme, nat option) kop" where
  "create path type major minor =
     kdo (nameiparent path) (\<lambda>(r, name). case r of None \<Rightarrow> kret None | Some dp \<Rightarrow>
     kdo (ilock dp) (\<lambda>_.
     kdo (dirlookup dp name) (\<lambda>r.
     case r of
       Some (ip, _) \<Rightarrow>
         kdo (iunlockput dp) (\<lambda>_.
         kdo (ilock ip) (\<lambda>_.
         kdo (kget (\<lambda>s. d_type (inodes s ! ip))) (\<lambda>t.
         if type = T_FILE \<and> t = T_FILE then kret (Some ip)
         else
         kdo (iunlockput ip) (\<lambda>_.
         kret None))))
     | None \<Rightarrow>
         kdo (kget (\<lambda>s. inodes s ! dp)) (\<lambda>d.
         kdo (ialloc (i_dev d) type) (\<lambda>ip.
         kdo (ilock ip) (\<lambda>_.
         kdo (kmod (upd_inode ip (\<lambda>x. x\<lparr>d_major := major, d_minor := minor, d_nlink := 1\<rparr>))) (\<lambda>_.
         kdo (iupdate ip) (\<lambda>_.
         kdo (kget (\<lambda>s. i_inum (inodes s ! ip))) (\<lambda>inum.
         kdo (if type = T_DIR then
                kdo (kmod (upd_inode dp (add_nlink 1))) (\<lambda>_.
                kdo (iupdate dp) (\<lambda>_.
                kdo (dirlink ip [0x2E] inum) (\<lambda>r.
                if r < 0 then kpanic ''create dots''
                else
                kdo (dirlink ip [0x2E, 0x2E] (i_inum d)) (\<lambda>r.
                if r < 0 then kpanic ''create dots'' else kret ()))))
              else kret ()) (\<lambda>_.
         kdo (dirlink dp name inum) (\<lambda>r.
         if r < 0 then kpanic ''create: dirlink''
         else
         kdo (iunlockput dp) (\<lambda>_.
         kret (Some ip)))))))))))))"

definition fail_op :: "('x kfs_scheme, int) kop" where
  "fail_op = kdo end_op (\<lambda>_. kret (- 1))"

text \<open>The inode \<^verbatim>\<open>sys_open\<close> works on, locked; \<open>None\<close> where it ends the transaction and returns \<open>-1\<close>.\<close>

definition open_inode :: "u8 list \<Rightarrow> u32 \<Rightarrow> ('x klife_scheme, nat option) kop" where
  "open_inode path omode =
     (if omode AND O_CREATE \<noteq> 0 then create path T_FILE 0 0
      else
      kdo (namei path) (\<lambda>r. case r of None \<Rightarrow> kret None | Some ip \<Rightarrow>
      kdo (ilock ip) (\<lambda>_.
      kdo (kget (\<lambda>s. d_type (inodes s ! ip))) (\<lambda>t.
      if t = T_DIR \<and> omode \<noteq> 0 then
        kdo (iunlockput ip) (\<lambda>_.
        kret None)
      else kret (Some ip)))))"

definition sys_open :: "('x klife_scheme, int) kop" where
  "sys_open =
     kdo (argstr 0) (\<lambda>r. case r of None \<Rightarrow> kret (- 1) | Some path \<Rightarrow>
     kdo (argint 1) (\<lambda>r. case r of None \<Rightarrow> kret (- 1) | Some omode \<Rightarrow>
     kdo begin_op (\<lambda>_.
     kdo (open_inode path omode) (\<lambda>r. case r of None \<Rightarrow> fail_op | Some ip \<Rightarrow>
     kdo filealloc (\<lambda>f.
     kdo (case f of None \<Rightarrow> kret None | Some f \<Rightarrow> fdalloc f) (\<lambda>fd.
     case (f, fd) of
       (Some f, Some fd) \<Rightarrow>
         kdo (iunlock ip) (\<lambda>_.
         kdo end_op (\<lambda>_.
         kdo (kmod (upd_file f (\<lambda>x. x\<lparr>f_type := FD_INODE, f_ip := ip, f_off := 0,
            f_readable := (omode AND O_WRONLY = 0),
            f_writable := (omode AND O_WRONLY \<noteq> 0 \<or> omode AND O_RDWR \<noteq> 0)\<rparr>))) (\<lambda>_.
         kret (int fd))))
     | _ \<Rightarrow>
         kdo (close_opt f) (\<lambda>_.
         kdo (iunlockput ip) (\<lambda>_.
         fail_op))))))))"

definition sys_mkdir :: "('x klife_scheme, int) kop" where
  "sys_mkdir =
     kdo begin_op (\<lambda>_.
     kdo (argstr 0) (\<lambda>r. case r of None \<Rightarrow> fail_op | Some path \<Rightarrow>
     kdo (create path T_DIR 0 0) (\<lambda>r. case r of None \<Rightarrow> fail_op | Some ip \<Rightarrow>
     kdo (iunlockput ip) (\<lambda>_.
     kdo end_op (\<lambda>_.
     kret 0)))))"

definition sys_mknod :: "('x klife_scheme, int) kop" where
  "sys_mknod =
     kdo begin_op (\<lambda>_.
     kdo (argstr 0) (\<lambda>r. case r of None \<Rightarrow> fail_op | Some path \<Rightarrow>
     kdo (argint 1) (\<lambda>r. case r of None \<Rightarrow> fail_op | Some major \<Rightarrow>
     kdo (argint 2) (\<lambda>r. case r of None \<Rightarrow> fail_op | Some minor \<Rightarrow>
     kdo (create path T_DEV (ucast major) (ucast minor)) (\<lambda>r. case r of None \<Rightarrow> fail_op | Some ip \<Rightarrow>
     kdo (iunlockput ip) (\<lambda>_.
     kdo end_op (\<lambda>_.
     kret 0)))))))"

definition sys_chdir :: "('x klife_scheme, int) kop" where
  "sys_chdir =
     kdo curproc (\<lambda>c.
     kdo begin_op (\<lambda>_.
     kdo (argstr 0) (\<lambda>r. case r of None \<Rightarrow> fail_op | Some path \<Rightarrow>
     kdo (namei path) (\<lambda>r. case r of None \<Rightarrow> fail_op | Some ip \<Rightarrow>
     kdo (ilock ip) (\<lambda>_.
     kdo (kget (\<lambda>s. d_type (inodes s ! ip))) (\<lambda>t.
     if t \<noteq> T_DIR then
       kdo (iunlockput ip) (\<lambda>_.
       fail_op)
     else
     kdo (iunlock ip) (\<lambda>_.
     kdo (kget (\<lambda>s. p_cwd (procs s ! c))) (\<lambda>cwd.
     kdo (case cwd of None \<Rightarrow> kfail (Undef ''null inode'') | Some d \<Rightarrow> iput d) (\<lambda>_.
     kdo end_op (\<lambda>_.
     kdo (kmod (upd_proc c (\<lambda>p. p\<lparr>p_cwd := Some ip\<rparr>))) (\<lambda>_.
     kret 0)))))))))))"

section \<open>exec and pipe\<close>

primrec fetch_argv :: "nat \<Rightarrow> u32 \<Rightarrow> u8 list list \<Rightarrow> ('x kproc_scheme, u8 list list option) kop" where
  "fetch_argv 0 uargv argv = kret None"
| "fetch_argv (Suc k) uargv argv =
     kdo (fetchint uargv) (\<lambda>r. case r of None \<Rightarrow> kret None | Some uarg \<Rightarrow>
     if uarg = 0 then kret (Some argv)
     else
     kdo (fetchstr uarg) (\<lambda>r. case r of None \<Rightarrow> kret None | Some a \<Rightarrow>
     fetch_argv k (uargv + 4) (argv @ [a])))"

definition sys_exec :: "('x klife_scheme, int) kop" where
  "sys_exec =
     kdo (argstr 0) (\<lambda>r. case r of None \<Rightarrow> kret (- 1) | Some path \<Rightarrow>
     kdo (argint 1) (\<lambda>r. case r of None \<Rightarrow> kret (- 1) | Some uargv \<Rightarrow>
     kdo (fetch_argv MAXARG uargv []) (\<lambda>r. case r of None \<Rightarrow> kret (- 1) | Some argv \<Rightarrow>
     exec path argv)))"

definition sys_pipe :: "('x klife_scheme, int) kop" where
  "sys_pipe =
     kdo (argptr 0 8) (\<lambda>r. case r of None \<Rightarrow> kret (- 1) | Some fd \<Rightarrow>
     kdo pipealloc (\<lambda>r. case r of None \<Rightarrow> kret (- 1) | Some (rf, wrf) \<Rightarrow>
     kdo (fdalloc rf) (\<lambda>fd0.
     kdo (case fd0 of None \<Rightarrow> kret None | Some _ \<Rightarrow> fdalloc wrf) (\<lambda>fd1.
     case (fd0, fd1) of
       (Some fd0, Some fd1) \<Rightarrow>
         kdo (vput fd (to_le 4 fd0)) (\<lambda>_.
         kdo (vput (fd + 4) (to_le 4 fd1)) (\<lambda>_.
         kret 0))
     | _ \<Rightarrow>
         kdo (case fd0 of None \<Rightarrow> kret () | Some fd0 \<Rightarrow> clear_fd fd0) (\<lambda>_.
         kdo (fileclose rf) (\<lambda>_.
         kdo (fileclose wrf) (\<lambda>_.
         kret (- 1))))))))"

end
