(* ===== verification/Trap.thy ===== *)
theory Trap
  imports Sysfile Keyboard
begin

text \<open>
  Traps and system calls: \<^verbatim>\<open>src/kern/syscall/sysproc.c\<close>, the dispatcher of \<^verbatim>\<open>src/kern/syscall/syscall.c\<close>,
  \<^verbatim>\<open>timerintr\<close> of \<^verbatim>\<open>src/drivers/timer/timer.cc\<close> and \<^verbatim>\<open>src/kern/trap/trap.c\<close>.

  What the hardware tells the handler is an argument: the number of the CPU, the faulting address
  in \<^verbatim>\<open>%cr2\<close>, and the bytes the keyboard controller and the serial port have waiting. The write that
  acknowledges an interrupt counts in \<open>eois\<close>. The keyboard's static \<^verbatim>\<open>shift\<close> is a field of the state.
\<close>

definition T_SYSCALL :: u32 where [const_defs]: "T_SYSCALL = 64"
definition T_IRQ0 :: u32 where [const_defs]: "T_IRQ0 = 32"
definition IRQ_TIMER :: u32 where [const_defs]: "IRQ_TIMER = 0"
definition IRQ_KBD :: u32 where [const_defs]: "IRQ_KBD = 1"
definition IRQ_COM1 :: u32 where [const_defs]: "IRQ_COM1 = 4"
definition IRQ_IDE :: u32 where [const_defs]: "IRQ_IDE = 14"
definition IRQ_SPURIOUS :: u32 where [const_defs]: "IRQ_SPURIOUS = 31"

record ktrap = klife +
  kbd_shift :: u32
  eois :: nat

section \<open>System calls on processes\<close>

definition sys_fork :: "('x klife_scheme, int) kop" where
  "sys_fork = fork"

definition sys_exit :: "('x klife_scheme, int) kop" where
  "sys_exit = kdo exit (\<lambda>_. kret 0)"

definition sys_wait :: "('x klife_scheme, int) kop" where
  "sys_wait = wait"

definition sys_kill :: "('x klife_scheme, int) kop" where
  "sys_kill =
     kdo (argint 0) (\<lambda>r. case r of None \<Rightarrow> kret (- 1) | Some pid \<Rightarrow> kill (sint pid))"

definition sys_getpid :: "('x klife_scheme, int) kop" where
  "sys_getpid = kdo curproc (\<lambda>c. kget (\<lambda>s. p_pid (procs s ! c)))"

definition sys_sbrk :: "('x klife_scheme, int) kop" where
  "sys_sbrk =
     kdo (argint 0) (\<lambda>r. case r of None \<Rightarrow> kret (- 1) | Some n \<Rightarrow>
     kdo cur_sz (\<lambda>addr.
     kdo (growproc (sint n)) (\<lambda>r.
     if r < 0 then kret (- 1) else kret (sint addr))))"

definition sys_sleep_loop :: "u32 \<Rightarrow> u32 \<Rightarrow> ('x klife_scheme, int) kop" where
  "sys_sleep_loop ticks0 n =
     kdo (kget ticks) (\<lambda>now.
     if now - ticks0 < n then
       kdo curproc (\<lambda>c.
       kdo (kget (\<lambda>s. p_killed (procs s ! c))) (\<lambda>killed.
       if killed then kret (- 1)
       else
       kdo (sleep CTicks None) (\<lambda>_.
       kfail Diverge)))
     else kret 0)"

definition sys_sleep :: "('x klife_scheme, int) kop" where
  "sys_sleep =
     kdo (argint 0) (\<lambda>r. case r of None \<Rightarrow> kret (- 1) | Some n \<Rightarrow>
     kdo (kget ticks) (\<lambda>ticks0.
     sys_sleep_loop ticks0 n))"

definition sys_sleep_resume :: "u32 \<Rightarrow> u32 \<Rightarrow> ('x klife_scheme, int) kop" where
  "sys_sleep_resume ticks0 n =
     kdo (sleep_resume None) (\<lambda>_.
     sys_sleep_loop ticks0 n)"

definition sys_uptime :: "('x klife_scheme, int) kop" where
  "sys_uptime = kget (\<lambda>s. sint (ticks s))"

section \<open>The dispatcher\<close>

text \<open>The table \<^verbatim>\<open>syscalls\<close>, from number 1 on.\<close>

definition syscalls :: "('x klife_scheme, int) kop list" where
  "syscalls = [sys_fork, sys_exit, sys_wait, sys_pipe, sys_read, sys_kill, sys_exec, sys_fstat, sys_chdir,
     sys_dup, sys_getpid, sys_sbrk, sys_sleep, sys_uptime, sys_open, sys_write, sys_mknod, sys_unlink,
     sys_link, sys_mkdir, sys_close]"

definition syscall :: "('x klife_scheme, unit) kop" where
  "syscall =
     kdo curproc (\<lambda>c.
     kdo (kget (\<lambda>s. sint (load32 (mem s) (p_tf (procs s ! c) + tf_eax)))) (\<lambda>num.
     kdo (if num > 0 \<and> num < 22 then syscalls ! (nat num - 1)
          else
            kdo (kget (\<lambda>s. procs s ! c)) (\<lambda>p.
            kdo (cprint (int_chars (word_of_int (p_pid p)) 10 True @ [0x20] @ name_chars p
               @ map of_char '': unknown sys call '' @ int_chars (word_of_int num) 10 True @ [0x0A])) (\<lambda>_.
            kret (- 1)))) (\<lambda>r.
     kdo (kget (\<lambda>s. p_tf (procs s ! c))) (\<lambda>tf.
     set_mem (\<lambda>m. store32 m (tf + tf_eax) (word_of_int r))))))"

section \<open>Interrupts\<close>

definition timerintr :: "nat \<Rightarrow> ('x kfile_scheme, bool) kop" where
  "timerintr cpu =
     (if cpu = 0 then kdo (kmod (\<lambda>s. s\<lparr>ticks := ticks s + 1\<rparr>)) (\<lambda>_. kret True)
      else kret False)"

definition lapiceoi :: "('x ktrap_scheme, unit) kop" where
  "lapiceoi = kmod (\<lambda>s. s\<lparr>eois := eois s + 1\<rparr>)"

definition killed_now :: "('x kproc_scheme, bool) kop" where
  "killed_now = kdo curproc (\<lambda>c. kget (\<lambda>s. p_killed (procs s ! c)))"

text \<open>\<^verbatim>\<open>myproc() && myproc()->killed && (tf->cs & 3) == DPL_USER\<close>, and then \<^verbatim>\<open>exit\<close>.\<close>

definition exit_if_killed :: "u32 \<Rightarrow> ('x klife_scheme, unit) kop" where
  "exit_if_killed tf =
     kdo (kget (\<lambda>s. case cpu_proc s of None \<Rightarrow> False
        | Some c \<Rightarrow> p_killed (procs s ! c) \<and> load16 (mem s) (tf + tf_cs) AND 3 = DPL_USER)) (\<lambda>b.
     kwhen b exit)"

definition trap_default :: "nat \<Rightarrow> u32 \<Rightarrow> u32 \<Rightarrow> u32 \<Rightarrow> ('x ktrap_scheme, unit) kop" where
  "trap_default cpu cr2 trapno tf =
     kdo (kget (\<lambda>s. load16 (mem s) (tf + tf_cs))) (\<lambda>cs.
     kdo (kget (\<lambda>s. load32 (mem s) (tf + tf_eip))) (\<lambda>eip.
     kdo (kget (\<lambda>s. load32 (mem s) (tf + tf_err))) (\<lambda>err.
     kdo myproc (\<lambda>me.
     case (me, cs AND 3 = 0) of
       (Some c, False) \<Rightarrow>
         kdo (kget (\<lambda>s. procs s ! c)) (\<lambda>p.
         kdo (cprint (map of_char ''pid '' @ int_chars (word_of_int (p_pid p)) 10 True @ [0x20] @ name_chars p
            @ map of_char '': trap '' @ int_chars trapno 10 True @ map of_char '' err '' @ int_chars err 10 True
            @ map of_char '' on cpu '' @ int_chars (of_nat cpu) 10 True @ map of_char '' eip 0x'' @ int_chars eip 16 False
            @ map of_char '' addr 0x'' @ int_chars cr2 16 False @ map of_char ''--kill proc'' @ [0x0A])) (\<lambda>_.
         kmod (upd_proc c (\<lambda>p. p\<lparr>p_killed := True\<rparr>))))
     | _ \<Rightarrow>
         kdo (cprint (map of_char ''unexpected trap '' @ int_chars trapno 10 True @ map of_char '' from cpu ''
            @ int_chars (of_nat cpu) 10 True @ map of_char '' eip '' @ int_chars eip 16 False
            @ map of_char '' (cr2=0x'' @ int_chars cr2 16 False @ map of_char '')'' @ [0x0A])) (\<lambda>_.
         kpanic ''trap'')))))"

definition trap_irq :: "nat \<Rightarrow> u32 \<Rightarrow> u8 list \<Rightarrow> u8 list \<Rightarrow> u32 \<Rightarrow> u32 \<Rightarrow> ('x ktrap_scheme, unit) kop" where
  "trap_irq cpu cr2 kbd com trapno tf =
     (if trapno = T_IRQ0 + IRQ_TIMER then
        kdo (timerintr cpu) (\<lambda>b.
        kdo (kwhen b (wakeup CTicks)) (\<lambda>_.
        lapiceoi))
      else if trapno = T_IRQ0 + IRQ_IDE then lapiceoi
      else if trapno = T_IRQ0 + IRQ_IDE + 1 then kret ()
      else if trapno = T_IRQ0 + IRQ_KBD then
        kdo (kget kbd_shift) (\<lambda>shift.
        kdo (kbdintr shift kbd) (\<lambda>(dump, shift).
        kdo (kmod (\<lambda>s. s\<lparr>kbd_shift := shift\<rparr>)) (\<lambda>_.
        kdo (kwhen dump procdump) (\<lambda>_.
        lapiceoi))))
      else if trapno = T_IRQ0 + IRQ_COM1 then
        kdo (uartintr com) (\<lambda>dump.
        kdo (kwhen dump procdump) (\<lambda>_.
        lapiceoi))
      else if trapno = T_IRQ0 + 7 \<or> trapno = T_IRQ0 + IRQ_SPURIOUS then
        kdo (kget (\<lambda>s. load16 (mem s) (tf + tf_cs))) (\<lambda>cs.
        kdo (kget (\<lambda>s. load32 (mem s) (tf + tf_eip))) (\<lambda>eip.
        kdo (cprint (map of_char ''cpu'' @ int_chars (of_nat cpu) 10 True @ map of_char '': spurious interrupt at ''
           @ int_chars (ucast cs) 16 False @ map of_char '':'' @ int_chars eip 16 False @ [0x0A])) (\<lambda>_.
        lapiceoi)))
      else trap_default cpu cr2 trapno tf)"

text \<open>\<^verbatim>\<open>yield\<close> leaves the CPU; \<open>trap_resume\<close> is what is left of the handler when the process runs again.\<close>

definition trap :: "nat \<Rightarrow> u32 \<Rightarrow> u8 list \<Rightarrow> u8 list \<Rightarrow> u32 \<Rightarrow> ('x ktrap_scheme, unit) kop" where
  "trap cpu cr2 kbd com tf =
     kdo (kget (\<lambda>s. load32 (mem s) (tf + tf_trapno))) (\<lambda>trapno.
     if trapno = T_SYSCALL then
       kdo killed_now (\<lambda>k.
       kdo (kwhen k exit) (\<lambda>_.
       kdo curproc (\<lambda>c.
       kdo (kmod (upd_proc c (\<lambda>p. p\<lparr>p_tf := tf\<rparr>))) (\<lambda>_.
       kdo syscall (\<lambda>_.
       kdo killed_now (\<lambda>k.
       kwhen k exit))))))
     else
       kdo (trap_irq cpu cr2 kbd com trapno tf) (\<lambda>_.
       kdo (exit_if_killed tf) (\<lambda>_.
       kdo (kget (\<lambda>s. case cpu_proc s of None \<Rightarrow> False | Some c \<Rightarrow> p_state (procs s ! c) = RUNNING)) (\<lambda>b.
       kdo (kwhen (b \<and> trapno = T_IRQ0 + IRQ_TIMER) yield) (\<lambda>_.
       exit_if_killed tf)))))"

definition trap_resume :: "u32 \<Rightarrow> ('x ktrap_scheme, unit) kop" where
  "trap_resume tf = kdo yield_resume (\<lambda>_. exit_if_killed tf)"

end
