(* ===== verification/Pagetable.thy ===== *)
theory Pagetable
  imports File
begin

text \<open>
  Two-level page tables as maps. \<open>pte\<close> reads the entry of a virtual address out of the tables in kernel
  memory; \<open>vs_ok\<close> says that the directory and its tables are different pages that the allocator has
  handed out. \<^verbatim>\<open>walkpgdir\<close>, \<^verbatim>\<open>mappages\<close>, \<^verbatim>\<open>allocuvm\<close> and \<^verbatim>\<open>copyout\<close> are then described by what they do to \<open>pte\<close>
  and to the pages behind it, with the page allocator through its contract \<open>page_allocator\<close>.
\<close>

section \<open>Slots of a page\<close>

lemma apart4:
  assumes "unat a + 4 \<le> 4294967296" "unat b + 4 \<le> 4294967296" "unat a + 4 \<le> unat b \<or> unat b + 4 \<le> unat a"
  shows "disjoint4 a b"
  unfolding disjoint4_def
proof (intro allI impI notI)
  fix i :: u32 assume i: "i < 4" and "b + i - a < 4"
  moreover define k where "k = b + i - a"
  ultimately have k: "unat i < 4" "unat k < 4" by (simp_all add: word_less_nat_alt)
  have "unat (b + i) = (unat b + unat i) mod 4294967296" "unat (a + k) = (unat a + unat k) mod 4294967296"
    by (simp_all add: unat_word_ariths)
  then have "unat (b + i) = unat b + unat i" "unat (a + k) = unat a + unat k" using assms(1,2) k by simp_all
  moreover have "b + i = a + k" by (simp add: k_def)
  ultimately have "unat b + unat i = unat a + unat k" by simp
  then show False using k assms(3) by linarith
qed

lemma load32_upd: "4 \<le> x - a \<Longrightarrow> load32 (m(x := v)) a = load32 m a"
  by (auto simp: load32_def word_le_nat_alt)

definition slot :: "u32 \<Rightarrow> nat \<Rightarrow> u32" where
  "slot p i = p + of_nat (4 * i)"

lemma unat_slot:
  assumes "page_aligned p" "i < 1024"
  shows "unat (slot p i) = unat p + 4 * i" "unat p + 4096 \<le> 4294967296"
proof -
  obtain k where k: "unat p = 4096 * k" "k < 2 ^ 20" using assms(1) by (rule page_alignedE)
  then show l: "unat p + 4096 \<le> 4294967296" by simp
  have "unat (slot p i) = (unat p + 4 * i) mod 4294967296"
    using assms(2) by (simp add: slot_def unat_word_ariths unat_of_nat)
  then show "unat (slot p i) = unat p + 4 * i" using l assms(2) by simp
qed

lemma unat_offset: "i < 1024 \<Longrightarrow> unat (of_nat (4 * i) :: u32) = 4 * i"
  using unat_of_nat32 [of "4 * i"] by (simp del: of_nat_mult)

lemma small_offset: "i < 1024 \<Longrightarrow> of_nat (4 * i) \<le> (4092 :: u32)" "i < 1024 \<Longrightarrow> of_nat (4 * i) < (4096 :: u32)"
  using unat_offset [of i] by (simp_all add: word_le_nat_alt word_less_nat_alt del: of_nat_mult)

lemma digits_eq:
  fixes i j k l :: nat
  assumes "i < 1024" "j < 1024"
  shows "1024 * k + i = 1024 * l + j \<longleftrightarrow> k = l \<and> i = j"
proof
  assume e: "1024 * k + i = 1024 * l + j"
  have "(1024 * k + i) div 1024 = k" "(1024 * l + j) div 1024 = l" using assms by simp_all
  then show "k = l \<and> i = j" using e by simp
qed simp

lemma slot_page [simp]: "page_aligned p \<Longrightarrow> i < 1024 \<Longrightarrow> PGROUNDDOWN (slot p i) = p"
  unfolding slot_def by (rule PGROUNDDOWN_add [OF _ small_offset(2)])

lemma slot_disjoint:
  assumes "page_aligned p" "page_aligned q" "i < 1024" "j < 1024" "p \<noteq> q \<or> i \<noteq> j"
  shows "disjoint4 (slot p i) (slot q j)"
proof -
  obtain k where k: "unat p = 4096 * k" using assms(1) by (rule page_alignedE)
  obtain l where l: "unat q = 4096 * l" using assms(2) by (rule page_alignedE)
  note u = unat_slot [OF assms(1,3)] unat_slot [OF assms(2,4)]
  have "k \<noteq> l \<or> i \<noteq> j" using assms(5) k l by (auto simp: word_unat_eq_iff)
  then have "1024 * k + i \<noteq> 1024 * l + j" using digits_eq [OF assms(3,4), of k l] by simp
  then have "1024 * k + i + 1 \<le> 1024 * l + j \<or> 1024 * l + j + 1 \<le> 1024 * k + i" by linarith
  then show ?thesis using u k l assms(3,4) by (intro apart4) auto
qed

lemma load_store_slot:
  assumes "page_aligned p" "page_aligned q" "i < 1024" "j < 1024"
  shows "load32 (store32 m (slot p i) v) (slot q j) = (if p = q \<and> i = j then v else load32 m (slot q j))"
  using slot_disjoint [OF assms] load32_store32_other [of "slot p i" "slot q j" m v] by auto

lemma store_slot_other:
  assumes "page_aligned p" "i < 1024" "PGROUNDDOWN x \<noteq> p"
  shows "store32 m (slot p i) v x = m x"
proof -
  have "PGROUNDDOWN x = p" if "x - slot p i < 4"
  proof -
    have "unat (of_nat (4 * i) + (x - slot p i)) < 4096"
      using that assms(2) by (auto simp: unat_word_ariths unat_of_nat word_less_nat_alt intro!: le_less_trans [OF mod_less_eq_dividend])
    then have "PGROUNDDOWN (p + (of_nat (4 * i) + (x - slot p i))) = p" by (intro PGROUNDDOWN_add [OF assms(1)]) (simp add: word_less_nat_alt)
    then show ?thesis by (simp add: slot_def)
  qed
  then show ?thesis using assms(3) by (auto simp: store32_def)
qed

lemma load_slot_cong:
  assumes "page_aligned p" "i < 1024" "\<And>x. PGROUNDDOWN x = p \<Longrightarrow> m x = m' x"
  shows "load32 m (slot p i) = load32 m' (slot p i)"
  unfolding slot_def by (rule load32_cong [OF assms(3) assms(1) small_offset(1) [OF assms(2)]])

lemma mem_set_page: "page_aligned p \<Longrightarrow> mem_set m p c PGSIZE x = (if PGROUNDDOWN x = p then c else m x)"
  using in_page [of p x] by (simp add: mem_set_def PGSIZE_def)

lemma load_zero_page: "page_aligned p \<Longrightarrow> i < 1024 \<Longrightarrow> load32 (mem_set m p 0 PGSIZE) (slot p i) = 0"
  by (subst load_slot_cong [where m' = "\<lambda>_. 0"]) (simp_all add: mem_set_page load32_def)

section \<open>Indices of an address\<close>

definition dx :: "u32 \<Rightarrow> nat" where "dx va = unat va div 4194304"
definition tx :: "u32 \<Rightarrow> nat" where "tx va = unat va div 4096 mod 1024"

lemma and_1023: "w AND 0x3FF = take_bit 10 w" for w :: u32
  by (simp add: take_bit_eq_mask mask_eq_exp_minus_1)

lemma unat_PDX: "unat (PDX va) = dx va"
proof -
  have "unat va < 4294967296" using unsigned_less [of va, where ?'a = nat] by simp
  then have "dx va < 1024" by (simp add: dx_def)
  then show ?thesis by (simp add: PDX_def and_1023 dx_def unsigned_take_bit_eq unat_drop_bit_eq drop_bit_nat_def take_bit_nat_eq_self)
qed

lemma unat_PTX: "unat (PTX va) = tx va"
  by (simp add: PTX_def and_1023 tx_def unsigned_take_bit_eq unat_drop_bit_eq drop_bit_nat_def take_bit_nat_def)

lemma dx_bound [simp]: "dx va < 1024"
  using unsigned_less [of va, where ?'a = nat] by (simp add: dx_def)

lemma tx_bound [simp]: "tx va < 1024"
  by (simp add: tx_def)

lemma slot_PDX: "p + 4 * PDX va = slot p (dx va)"
  by (simp add: slot_def unat_PDX [symmetric])

lemma slot_PTX: "p + 4 * PTX va = slot p (tx va)"
  by (simp add: slot_def unat_PTX [symmetric])

lemma same_page: "dx v = dx w \<and> tx v = tx w \<longleftrightarrow> PGROUNDDOWN v = PGROUNDDOWN w"
proof -
  have "unat x div 4096 = 1024 * dx x + tx x" for x
    unfolding dx_def tx_def by (simp add: div_mult2_eq [of "unat x" 4096 1024, simplified])
  then have "dx v = dx w \<and> tx v = tx w \<longleftrightarrow> unat v div 4096 = unat w div 4096"
    using digits_eq [OF tx_bound [of v] tx_bound [of w], of "dx v" "dx w"] by auto
  then show ?thesis by (auto simp: word_unat_eq_iff unat_PGROUNDDOWN)
qed

section \<open>Entries\<close>

definition present :: "u32 \<Rightarrow> bool" where "present e \<longleftrightarrow> e AND PTE_P \<noteq> 0"
definition tab_of :: "u32 \<Rightarrow> u32" where "tab_of e = P2V (PTE_ADDR e)"
definition pde :: "memory \<Rightarrow> u32 \<Rightarrow> nat \<Rightarrow> u32" where "pde m pgdir i = load32 m (slot pgdir i)"

definition pte :: "memory \<Rightarrow> u32 \<Rightarrow> u32 \<Rightarrow> u32" where
  "pte m pgdir va = (if present (pde m pgdir (dx va)) then load32 m (slot (tab_of (pde m pgdir (dx va))) (tx va)) else 0)"

definition tabs :: "memory \<Rightarrow> u32 \<Rightarrow> u32 set" where
  "tabs m pgdir = insert pgdir (tab_of ` pde m pgdir ` {i. i < 1024 \<and> present (pde m pgdir i)})"

lemma PTE_ADDR_round: "PTE_ADDR e = PGROUNDDOWN e"
  by (simp add: PTE_ADDR_def PGROUNDDOWN_def PGSIZE_def)

lemma PGROUNDDOWN_small: "f < 4096 \<Longrightarrow> PGROUNDDOWN f = 0"
  using PGROUNDDOWN_add [of 0 f] by (simp add: page_aligned_def)

lemma entry_addr:
  assumes "page_aligned pa" "f < 4096"
  shows "PTE_ADDR (pa OR f) = pa"
proof -
  have "PGROUNDDOWN (pa OR f) = PGROUNDDOWN pa OR PGROUNDDOWN f"
    unfolding PGROUNDDOWN_def by (rule bit.conj_disj_distrib2)
  then show ?thesis using assms by (simp add: PTE_ADDR_round PGROUNDDOWN_self PGROUNDDOWN_small)
qed

lemma entry_present [simp]: "present (x OR PTE_P)" "\<not> present 0"
proof -
  have "(x OR 1) AND 1 = (x AND 1) OR 1" by (rule trans [OF bit.conj_disj_distrib2]) simp
  also have "\<dots> \<noteq> 0" by (simp add: or_eq_0_iff)
  finally show "present (x OR PTE_P)" by (simp add: present_def PTE_P_def)
qed (simp add: present_def)

lemma page_aligned_V2P: "page_aligned p \<Longrightarrow> KERNBASE \<le> p \<Longrightarrow> page_aligned (V2P p)"
proof -
  assume p: "page_aligned p" "KERNBASE \<le> p"
  have "unat (V2P p) = unat p - 2147483648" using p(2) by (simp add: V2P_def KERNBASE_def unat_sub)
  moreover have "(2147483648 :: nat) mod 4096 = 0" "(2147483648 :: nat) \<le> unat p" using p(2) by (simp_all add: KERNBASE_def word_le_nat_alt)
  ultimately show "page_aligned (V2P p)" using p(1) unfolding page_aligned_def by (simp add: mod_eq_0_iff_dvd)
qed

lemma or_less_4096: "f < 4096 \<Longrightarrow> g < 4096 \<Longrightarrow> f OR g < 4096" for f g :: u32
proof -
  assume a: "f < 4096" "g < 4096"
  have "PGROUNDDOWN (f OR g) = PGROUNDDOWN f OR PGROUNDDOWN g" unfolding PGROUNDDOWN_def by (rule bit.conj_disj_distrib2)
  then have "PGROUNDDOWN (f OR g) = 0" using a by (simp add: PGROUNDDOWN_small)
  then show ?thesis using in_page [of 0 "f OR g"] by (simp add: page_aligned_def)
qed

lemma tabs_dir [simp]: "pgdir \<in> tabs m pgdir"
  by (simp add: tabs_def)

lemma tabs_iff: "p \<in> tabs m pgdir \<longleftrightarrow> p = pgdir \<or> (\<exists>i < 1024. present (pde m pgdir i) \<and> p = tab_of (pde m pgdir i))"
  by (auto simp: tabs_def)

lemma tabs_tab: "present (pde m pgdir i) \<Longrightarrow> i < 1024 \<Longrightarrow> tab_of (pde m pgdir i) \<in> tabs m pgdir"
  by (auto simp: tabs_def)

text \<open>The tables decide the entries.\<close>

lemma pte_cong:
  assumes "\<And>p. p \<in> tabs m pgdir \<Longrightarrow> page_aligned p" "\<And>x. PGROUNDDOWN x \<in> tabs m pgdir \<Longrightarrow> m' x = m x"
  shows "pde m' pgdir i = pde m pgdir i \<or> \<not> i < 1024" "tabs m' pgdir = tabs m pgdir" "pte m' pgdir va = pte m pgdir va"
proof -
  have d: "pde m' pgdir i = pde m pgdir i" if "i < 1024" for i
    unfolding pde_def by (rule load_slot_cong [OF assms(1) [OF tabs_dir] that]) (use assms(2) in simp)
  then show "pde m' pgdir i = pde m pgdir i \<or> \<not> i < 1024" by blast
  have "{i. i < 1024 \<and> present (pde m' pgdir i)} = {i. i < 1024 \<and> present (pde m pgdir i)}" using d by auto
  then show "tabs m' pgdir = tabs m pgdir" unfolding tabs_def using d by (auto simp: image_iff)
  show "pte m' pgdir va = pte m pgdir va"
  proof (cases "present (pde m pgdir (dx va))")
    case True
    let ?q = "tab_of (pde m pgdir (dx va))"
    have q: "?q \<in> tabs m pgdir" using tabs_tab [OF True] by simp
    have "load32 m' (slot ?q (tx va)) = load32 m (slot ?q (tx va))"
      by (rule load_slot_cong [OF assms(1) [OF q]]) (use assms(2) q in simp_all)
    then show ?thesis using True by (simp add: pte_def d)
  qed (simp add: pte_def d)
qed

section \<open>Well-formed address spaces\<close>

definition vs_ok :: "'x kmem_scheme \<Rightarrow> u32 \<Rightarrow> bool" where
  "vs_ok s pgdir \<longleftrightarrow> ka_ok s \<and> (\<forall>p \<in> tabs (mem s) pgdir. ka_page s p \<and> p \<notin> ka_pages s) \<and>
     (\<forall>i < 1024. present (pde (mem s) pgdir i) \<longrightarrow> tab_of (pde (mem s) pgdir i) \<noteq> pgdir) \<and>
     (\<forall>i < 1024. \<forall>j < 1024. present (pde (mem s) pgdir i) \<longrightarrow> present (pde (mem s) pgdir j) \<longrightarrow>
        tab_of (pde (mem s) pgdir i) = tab_of (pde (mem s) pgdir j) \<longrightarrow> i = j)"

lemma vs_okD:
  assumes "vs_ok s pgdir"
  shows "ka_ok s" "p \<in> tabs (mem s) pgdir \<Longrightarrow> ka_page s p" "p \<in> tabs (mem s) pgdir \<Longrightarrow> p \<notin> ka_pages s"
    "p \<in> tabs (mem s) pgdir \<Longrightarrow> page_aligned p"
    "i < 1024 \<Longrightarrow> present (pde (mem s) pgdir i) \<Longrightarrow> tab_of (pde (mem s) pgdir i) \<noteq> pgdir"
    "i < 1024 \<Longrightarrow> j < 1024 \<Longrightarrow> present (pde (mem s) pgdir i) \<Longrightarrow> present (pde (mem s) pgdir j) \<Longrightarrow>
       tab_of (pde (mem s) pgdir i) = tab_of (pde (mem s) pgdir j) \<Longrightarrow> i = j"
proof -
  show o: "ka_ok s" and p: "p \<in> tabs (mem s) pgdir \<Longrightarrow> ka_page s p" "p \<in> tabs (mem s) pgdir \<Longrightarrow> p \<notin> ka_pages s"
    using assms by (auto simp: vs_ok_def)
  show "p \<in> tabs (mem s) pgdir \<Longrightarrow> page_aligned p" using kap.page_aligned [OF o p(1)] .
qed (use assms in \<open>auto simp: vs_ok_def\<close>)

text \<open>Memory may change freely outside the tables and the free pages.\<close>

lemma vs_ok_write:
  assumes "vs_ok s pgdir" "\<And>x. PGROUNDDOWN x \<in> tabs (mem s) pgdir \<Longrightarrow> m x = mem s x" "\<And>x. PGROUNDDOWN x \<in> ka_pages s \<Longrightarrow> m x = mem s x"
  shows "vs_ok (s\<lparr>mem := m\<rparr>) pgdir" "pte m pgdir va = pte (mem s) pgdir va" "tabs m pgdir = tabs (mem s) pgdir"
    "ka_pages (s\<lparr>mem := m\<rparr>) = ka_pages s" "ka_page (s\<lparr>mem := m\<rparr>) = ka_page s"
proof -
  note c = pte_cong [of "mem s" pgdir m, OF vs_okD(4) [OF assms(1)] assms(2)]
  show t: "tabs m pgdir = tabs (mem s) pgdir" and "pte m pgdir va = pte (mem s) pgdir va" by (rule c; assumption)+
  note k = kap.write_law [OF vs_okD(1) [OF assms(1)] assms(3)]
  then show p: "ka_pages (s\<lparr>mem := m\<rparr>) = ka_pages s" "ka_page (s\<lparr>mem := m\<rparr>) = ka_page s" by blast+
  have d: "pde m pgdir i = pde (mem s) pgdir i" if "i < 1024" for i using c(1) that by blast
  show "vs_ok (s\<lparr>mem := m\<rparr>) pgdir" using assms(1) k p t d by (simp add: vs_ok_def)
qed

text \<open>What an operation on one address space keeps: it changes memory only in the tables, and takes its
  tables from the free pages.\<close>

definition vstep :: "u32 \<Rightarrow> 'x kmem_scheme \<Rightarrow> 'x kmem_scheme \<Rightarrow> bool" where
  "vstep pgdir s t \<longleftrightarrow> only_mem s t \<and> vs_ok t pgdir \<and> ka_page t = ka_page s \<and> tabs (mem s) pgdir \<subseteq> tabs (mem t) pgdir \<and>
     tabs (mem t) pgdir \<union> ka_pages t = tabs (mem s) pgdir \<union> ka_pages s \<and>
     (\<forall>x. PGROUNDDOWN x \<notin> tabs (mem t) pgdir \<longrightarrow> mem t x = mem s x)"

lemma vstep_refl: "vs_ok s pgdir \<Longrightarrow> vstep pgdir s s"
  by (simp add: vstep_def)

lemma vstep_trans: "vstep pgdir s t \<Longrightarrow> vstep pgdir t u \<Longrightarrow> vstep pgdir s u"
  unfolding vstep_def by (metis only_mem_trans subset_trans subsetD)

lemma vstep_pages: "vstep pgdir s t \<Longrightarrow> ka_pages t \<subseteq> ka_pages s"
  unfolding vstep_def vs_ok_def by blast

definition walked :: "memory \<Rightarrow> u32 \<Rightarrow> u32 \<Rightarrow> u32 \<Rightarrow> bool" where
  "walked m pgdir va p \<longleftrightarrow> present (pde m pgdir (dx va)) \<and> p = slot (tab_of (pde m pgdir (dx va))) (tx va)"

lemma load_walked: "walked m pgdir va p \<Longrightarrow> load32 m p = pte m pgdir va"
  by (simp add: walked_def pte_def)

lemma vs_page_nonzero:
  assumes "ka_ok s" "ka_page s q" "i < 1024"
  shows "slot q i \<noteq> 0"
proof
  assume "slot q i = 0"
  then have "unat (slot q i) = 0" by simp
  then have "unat q = 0" using unat_slot(1) [OF kap.page_aligned [OF assms(1,2)] assms(3)] by simp
  then show False using kap.page_nonzero [OF assms(1,2)] by (simp add: unat_eq_zero)
qed

lemma walk_found:
  assumes "present (pde (mem s) pgdir (dx va))"
  shows "walkpgdir pgdir va alloc s = Ok (slot (tab_of (pde (mem s) pgdir (dx va))) (tx va)) s"
  using assms unfolding walkpgdir_def slot_PDX slot_PTX by (simp add: kdo_def kop_defs present_def pde_def tab_of_def)

lemma walk_absent:
  assumes "\<not> present (pde (mem s) pgdir (dx va))"
  shows "walkpgdir pgdir va False s = Ok 0 s"
  using assms unfolding walkpgdir_def slot_PDX slot_PTX by (simp add: kdo_def kop_defs present_def pde_def tab_of_def)

text \<open>A new, empty table for the directory entry \<open>d\<close>.\<close>

lemma new_table:
  assumes "vs_ok s pgdir" "d < 1024" "\<not> present (pde (mem s) pgdir d)"
    and "only_mem s a" "ka_ok a" "mem a = mem s" "ka_page a = ka_page s" "q \<in> ka_pages s" "ka_pages a = ka_pages s - {q}"
    and "m = store32 (mem_set (mem s) q 0 PGSIZE) (slot pgdir d) (V2P q OR PTE_P OR PTE_W OR PTE_U)" "t = a\<lparr>mem := m\<rparr>"
  shows "vstep pgdir s t" "ka_pages t = ka_pages s - {q}" "present (pde m pgdir d)" "tab_of (pde m pgdir d) = q"
    "pte m pgdir v = pte (mem s) pgdir v"
proof -
  note ok = vs_okD [OF assms(1)]
  have qp: "ka_page s q" and qt: "q \<notin> tabs (mem s) pgdir" using kap.pages_page [OF ok(1) assms(8)] ok(3) assms(8) by blast+
  have qa: "page_aligned q" and qk: "KERNBASE < q" using kap.page_aligned [OF ok(1) qp] kap.page_range [OF ok(1) qp] by blast+
  have da: "page_aligned pgdir" using ok(4) [OF tabs_dir] .
  have dq: "pgdir \<noteq> q" using qt tabs_dir [of pgdir "mem s"] by blast
  let ?e = "V2P q OR PTE_P OR PTE_W OR PTE_U"
  have e: "?e = (V2P q OR 6) OR PTE_P" "?e = V2P q OR 7"
    by (simp_all add: PTE_P_def PTE_W_def PTE_U_def or.assoc or.commute [of _ "V2P q"])
  have pe: "present ?e" unfolding e(1) by (rule entry_present)
  have te: "tab_of ?e = q"
    using entry_addr [OF page_aligned_V2P [OF qa less_imp_le [OF qk]], of 7] unfolding e(2) by (simp add: tab_of_def)
  note pe = pe te
  have mx: "m x = mem s x" if "PGROUNDDOWN x \<noteq> q" "PGROUNDDOWN x \<noteq> pgdir" for x
    using that store_slot_other [OF da assms(2)] mem_set_page [OF qa] by (simp add: assms(10))
  have pd: "pde m pgdir i = (if i = d then ?e else pde (mem s) pgdir i)" if "i < 1024" for i
  proof -
    have "load32 (mem_set (mem s) q 0 PGSIZE) (slot pgdir i) = load32 (mem s) (slot pgdir i)"
      using dq mem_set_page [OF qa] by (intro load_slot_cong [OF da that]) simp
    then show ?thesis using load_store_slot [OF da da assms(2) that] that by (simp add: pde_def assms(10))
  qed
  then show new: "present (pde m pgdir d)" "tab_of (pde m pgdir d) = q" using assms(2) pe by simp_all
  have tb: "tabs m pgdir = insert q (tabs (mem s) pgdir)"
  proof (rule set_eqI)
    fix p
    have "(\<exists>i < 1024. present (pde m pgdir i) \<and> p = tab_of (pde m pgdir i)) \<longleftrightarrow>
        p = q \<or> (\<exists>i < 1024. present (pde (mem s) pgdir i) \<and> p = tab_of (pde (mem s) pgdir i))"
      using pd assms(2,3) pe by metis
    then show "p \<in> tabs m pgdir \<longleftrightarrow> p \<in> insert q (tabs (mem s) pgdir)" unfolding insert_iff tabs_iff by blast
  qed
  have zero: "load32 m (slot q i) = 0" if "i < 1024" for i
  proof -
    have "load32 m (slot q i) = load32 (mem_set (mem s) q 0 PGSIZE) (slot q i)"
      using load_store_slot [OF da qa assms(2) that] dq by (simp add: assms(10))
    then show ?thesis using load_zero_page [OF qa that] by simp
  qed
  show "pte m pgdir v = pte (mem s) pgdir v"
  proof (cases "dx v = d")
    case True
    then show ?thesis using assms(2,3) new zero by (simp add: pte_def)
  next
    case False
    show ?thesis
    proof (cases "present (pde (mem s) pgdir (dx v))")
      case True
      let ?q = "tab_of (pde (mem s) pgdir (dx v))"
      have t: "?q \<in> tabs (mem s) pgdir" using tabs_tab [OF True] by simp
      have "?q \<noteq> pgdir" "?q \<noteq> q" using ok(5) [OF _ True] t qt by auto
      then have "load32 m (slot ?q (tx v)) = load32 (mem s) (slot ?q (tx v))" by (intro load_slot_cong [OF ok(4) [OF t]] mx) simp_all
      then show ?thesis using True False pd by (simp add: pte_def)
    qed (use False pd in \<open>simp add: pte_def\<close>)
  qed
  have "m x = mem a x" if "PGROUNDDOWN x \<in> ka_pages a" for x
    using that mx [of x] ok(3) [of pgdir] assms(6,9) by auto
  note k = kap.write_law [OF assms(5) this]
  then show pg: "ka_pages t = ka_pages s - {q}" using assms(9,11) by simp
  have "vs_ok t pgdir" unfolding vs_ok_def
  proof (intro conjI ballI allI impI)
    show "ka_ok t" using k assms(11) by simp
    fix p assume "p \<in> tabs (mem t) pgdir"
    then have "p = q \<or> p \<in> tabs (mem s) pgdir" using tb assms(11) by simp
    then show "ka_page t p" "p \<notin> ka_pages t" using k ok(2,3) qp pg assms(7,11) by auto
  next
    fix i assume "i < (1024 :: nat)" "present (pde (mem t) pgdir i)"
    then show "tab_of (pde (mem t) pgdir i) \<noteq> pgdir" using pd ok(5) new dq assms(11) by (auto split: if_splits)
  next
    fix i j :: nat assume ij: "i < 1024" "j < 1024" "present (pde (mem t) pgdir i)" "present (pde (mem t) pgdir j)"
      "tab_of (pde (mem t) pgdir i) = tab_of (pde (mem t) pgdir j)"
    have "tab_of (pde (mem s) pgdir k) \<noteq> q" if "present (pde (mem s) pgdir k)" "k < 1024" for k
      using tabs_tab [OF that] qt by auto
    then show "i = j" using ij pd ok(6) pe assms(11) by (auto split: if_splits)
  qed
  moreover have "m x = mem s x" if "PGROUNDDOWN x \<notin> tabs m pgdir" for x
    using that by (intro mx) (auto simp: tb)
  ultimately show "vstep pgdir s t" unfolding vstep_def
    using tb pg k assms(4,7,8,11) by (auto intro: only_mem_trans)
qed

lemma walk_law:
  assumes "vs_ok s pgdir"
  shows "runs (walkpgdir pgdir va True) s (\<lambda>p t. vstep pgdir s t \<and> (\<forall>v. pte (mem t) pgdir v = pte (mem s) pgdir v) \<and>
    (p = 0 \<and> ka_pages t = {} \<or> p \<noteq> 0 \<and> walked (mem t) pgdir va p))"
proof (cases "present (pde (mem s) pgdir (dx va))")
  case True
  let ?q = "tab_of (pde (mem s) pgdir (dx va))"
  have "ka_page s ?q" using vs_okD(2) [OF assms tabs_tab [OF True]] by simp
  then have "slot ?q (tx va) \<noteq> 0" using vs_page_nonzero [OF vs_okD(1) [OF assms]] by simp
  then show ?thesis using True vstep_refl [OF assms] by (simp add: runs_def walk_found walked_def)
next
  case False
  let ?d = "dx va"
  let ?Q = "\<lambda>p t. vstep pgdir s t \<and> (\<forall>v. pte (mem t) pgdir v = pte (mem s) pgdir v) \<and>
    (p = 0 \<and> ka_pages t = {} \<or> p \<noteq> 0 \<and> walked (mem t) pgdir va p)"
  let ?rest = "\<lambda>pgtab. if pgtab = 0 then kret 0 else
     kdo (kmod (\<lambda>s. s\<lparr>mem := memset (mem s) pgtab 0 PGSIZE\<rparr>)) (\<lambda>_.
     kdo (kmod (\<lambda>s. s\<lparr>mem := store32 (mem s) (slot pgdir ?d) (V2P pgtab OR PTE_P OR PTE_W OR PTE_U)\<rparr>)) (\<lambda>_.
     kret (slot pgtab (tx va))))"
  have e: "walkpgdir pgdir va True s = kdo kalloc ?rest s"
    unfolding walkpgdir_def slot_PDX slot_PTX using False by (simp add: kdo_def kop_defs present_def pde_def)
  have "runs (?rest q) a ?Q"
    if a: "only_mem s a" "ka_ok a" "mem a = mem s" "ka_page a = ka_page s"
      "q = 0 \<and> ka_pages s = {} \<and> ka_pages a = {} \<or> q \<in> ka_pages s \<and> ka_pages a = ka_pages s - {q}" for q a
  proof (cases "q = 0")
    case True
    then have k: "ka_pages s = {}" "ka_pages a = {}"
      using a(5) kap.page_nonzero [OF vs_okD(1) [OF assms] kap.pages_page [OF vs_okD(1) [OF assms]]] by blast+
    have "vs_ok a pgdir" using assms a k by (simp add: vs_ok_def)
    then have "vstep pgdir s a" using a k by (simp add: vstep_def)
    then show ?thesis using True a(3) k by simp
  next
    case q: False
    then have q: "q \<noteq> 0" "q \<in> ka_pages s" "ka_pages a = ka_pages s - {q}" using a(5) by auto
    let ?m = "store32 (mem_set (mem s) q 0 PGSIZE) (slot pgdir ?d) (V2P q OR PTE_P OR PTE_W OR PTE_U)"
    note n = new_table [OF assms dx_bound False a(1-4) q(2,3) refl refl]
    have "ka_page s q" using kap.pages_page [OF vs_okD(1) [OF assms] q(2)] .
    then have z: "slot q (tx va) \<noteq> 0" using vs_page_nonzero [OF vs_okD(1) [OF assms]] by simp
    have "runs (?rest q) a ?Q = ?Q (slot q (tx va)) (a\<lparr>mem := ?m\<rparr>)"
      using q(1) a(3) by (simp add: memset_eq)
    then show ?thesis using n z by (simp add: walked_def)
  qed
  then have "runs (kdo kalloc ?rest) s ?Q"
    unfolding runs_kdo by (intro runs_weaken [OF kap.alloc_law [OF vs_okD(1) [OF assms]]]) blast
  then show ?thesis by (simp add: runs_def e)
qed

text \<open>Storing an entry through the pointer \<^verbatim>\<open>walkpgdir\<close> returned.\<close>

lemma store_law:
  assumes "vs_ok s pgdir" "walked (mem s) pgdir va p" "m = store32 (mem s) p e"
  shows "vstep pgdir s (s\<lparr>mem := m\<rparr>)" "ka_pages (s\<lparr>mem := m\<rparr>) = ka_pages s" "tabs m pgdir = tabs (mem s) pgdir"
    "pte m pgdir v = (if PGROUNDDOWN v = PGROUNDDOWN va then e else pte (mem s) pgdir v)"
proof -
  note ok = vs_okD [OF assms(1)]
  let ?q = "tab_of (pde (mem s) pgdir (dx va))"
  have pr: "present (pde (mem s) pgdir (dx va))" and p: "p = slot ?q (tx va)" using assms(2) by (auto simp: walked_def)
  have qt: "?q \<in> tabs (mem s) pgdir" "page_aligned ?q" using tabs_tab [OF pr] ok(4) by simp_all
  have mx: "m x = mem s x" if "PGROUNDDOWN x \<noteq> ?q" for x
    using store_slot_other [OF qt(2) tx_bound that] by (simp add: assms(3) p)
  have ne: "?q \<noteq> pgdir" using ok(5) [OF dx_bound pr] .
  have d: "pde m pgdir i = pde (mem s) pgdir i" if "i < 1024" for i
    unfolding pde_def using ne by (intro load_slot_cong [OF ok(4) [OF tabs_dir] that] mx) simp
  show t: "tabs m pgdir = tabs (mem s) pgdir" unfolding set_eq_iff tabs_iff using d by metis
  have "m x = mem s x" if "PGROUNDDOWN x \<in> ka_pages s" for x using mx [of x] that ok(3) [OF qt(1)] by metis
  note k = kap.write_law [OF ok(1) this]
  then show "ka_pages (s\<lparr>mem := m\<rparr>) = ka_pages s" by simp
  have "vs_ok (s\<lparr>mem := m\<rparr>) pgdir" using assms(1) k t d by (simp add: vs_ok_def)
  moreover have "\<forall>x. PGROUNDDOWN x \<notin> tabs (mem s) pgdir \<longrightarrow> m x = mem s x" using mx qt(1) by metis
  ultimately show "vstep pgdir s (s\<lparr>mem := m\<rparr>)" unfolding vstep_def using k t by simp
  show "pte m pgdir v = (if PGROUNDDOWN v = PGROUNDDOWN va then e else pte (mem s) pgdir v)"
  proof (cases "present (pde (mem s) pgdir (dx v))")
    case True
    let ?r = "tab_of (pde (mem s) pgdir (dx v))"
    have "page_aligned ?r" using ok(4) [OF tabs_tab [OF True]] by simp
    moreover have "?q = ?r \<and> tx va = tx v \<longleftrightarrow> PGROUNDDOWN v = PGROUNDDOWN va"
      unfolding same_page [symmetric] using ok(6) [OF dx_bound dx_bound pr True] by auto
    ultimately show ?thesis using True d load_store_slot [OF qt(2), of ?r "tx va" "tx v" "mem s" e]
      by (simp add: pte_def assms(3) p)
  next
    case False
    then have "PGROUNDDOWN v \<noteq> PGROUNDDOWN va" using pr unfolding same_page [symmetric] by auto
    then show ?thesis using False d by (simp add: pte_def)
  qed
qed

section \<open>Mapping a range\<close>

text \<open>The entries after \<open>n\<close> pages from \<open>a\<close> on have been mapped to consecutive frames from \<open>pa\<close> on.\<close>

definition map_range :: "u32 \<Rightarrow> nat \<Rightarrow> u32 \<Rightarrow> u32 \<Rightarrow> (u32 \<Rightarrow> u32) \<Rightarrow> u32 \<Rightarrow> u32" where
  "map_range a n pa perm f v =
     (if unat (PGROUNDDOWN v - a) < 4096 * n then (pa + (PGROUNDDOWN v - a)) OR perm OR PTE_P else f v)"

lemma map_range_0 [simp]: "map_range a 0 pa perm f = f"
  by (simp add: map_range_def fun_eq_iff)

lemma page_diff:
  assumes "page_aligned p" "page_aligned q"
  shows "page_aligned (p - q)"
proof -
  obtain k where k: "unat p = 4096 * k" using assms(1) by (rule page_alignedE)
  obtain l where l: "unat q = 4096 * l" using assms(2) by (rule page_alignedE)
  have "4096 dvd unat (p - q)"
    by (simp add: unat_sub_if_size word_size k l dvd_diff_nat)
  then show ?thesis by (simp add: page_aligned_def mod_eq_0_iff_dvd)
qed

lemma next_page:
  assumes "page_aligned a" "n < 1048576"
  shows "unat (PGROUNDDOWN v - a) < 4096 * Suc n \<longleftrightarrow> PGROUNDDOWN v = a \<or> unat (PGROUNDDOWN v - (a + PGSIZE)) < 4096 * n"
    "PGROUNDDOWN v = a \<Longrightarrow> \<not> unat (PGROUNDDOWN v - (a + PGSIZE)) < 4096 * n"
proof -
  have "unat (- 4096 :: u32) = 4294963200" by simp
  then show 1: "\<not> unat (PGROUNDDOWN v - (a + PGSIZE)) < 4096 * n" if "PGROUNDDOWN v = a"
    using that assms(2) by (simp add: PGSIZE_def)
  show "unat (PGROUNDDOWN v - a) < 4096 * Suc n \<longleftrightarrow> PGROUNDDOWN v = a \<or> unat (PGROUNDDOWN v - (a + PGSIZE)) < 4096 * n"
  proof (cases "PGROUNDDOWN v = a")
    case False
    let ?d = "PGROUNDDOWN v - a"
    obtain k where k: "unat ?d = 4096 * k" using page_diff [OF page_aligned_round assms(1)] by (rule page_alignedE)
    have "?d \<noteq> 0" using False by simp
    then have "k \<noteq> 0" using k by (metis mult_0_right unat_eq_zero)
    then have g: "4096 \<le> unat ?d" using k by simp
    have "unat (?d - 4096) = unat ?d - 4096" using g by (simp add: unat_sub word_le_nat_alt)
    moreover have "PGROUNDDOWN v - (a + PGSIZE) = ?d - 4096" by (simp add: PGSIZE_def)
    ultimately have e: "unat (PGROUNDDOWN v - (a + PGSIZE)) = unat ?d - 4096" by (simp only:)
    show ?thesis unfolding e using g False by auto
  qed simp
qed

lemma map_range_Suc:
  assumes "page_aligned a" "n < 1048576"
  shows "map_range a (Suc n) pa perm f =
    map_range (a + PGSIZE) n (pa + PGSIZE) perm (\<lambda>v. if PGROUNDDOWN v = a then pa OR perm OR PTE_P else f v)"
proof
  fix v
  have "pa + PGSIZE + (PGROUNDDOWN v - (a + PGSIZE)) = pa + (PGROUNDDOWN v - a)" by simp
  then show "map_range a (Suc n) pa perm f v =
    map_range (a + PGSIZE) n (pa + PGSIZE) perm (\<lambda>v. if PGROUNDDOWN v = a then pa OR perm OR PTE_P else f v) v"
    unfolding map_range_def next_page(1) [OF assms] using next_page(2) [OF assms, of v] by auto
qed

lemma mappages_from_law:
  assumes "vs_ok s pgdir" "page_aligned a" "n < 1048576" "lst = a + of_nat (4096 * n)" "n < k"
    and "\<And>v. unat (PGROUNDDOWN v - a) < 4096 * Suc n \<Longrightarrow> \<not> present (pte (mem s) pgdir v)"
  shows "runs (mappages_from k pgdir a lst pa perm) s (\<lambda>r t. vstep pgdir s t \<and>
    (r = 0 \<and> pte (mem t) pgdir = map_range a (Suc n) pa perm (pte (mem s) pgdir) \<or>
     r = - 1 \<and> ka_pages t = {} \<and> (\<exists>j \<le> n. pte (mem t) pgdir = map_range a j pa perm (pte (mem s) pgdir))))"
  using assms
proof (induction k arbitrary: s a pa n)
  case (Suc k)
  let ?Q = "\<lambda>r t. vstep pgdir s t \<and>
    (r = 0 \<and> pte (mem t) pgdir = map_range a (Suc n) pa perm (pte (mem s) pgdir) \<or>
     r = - 1 \<and> ka_pages t = {} \<and> (\<exists>j \<le> n. pte (mem t) pgdir = map_range a j pa perm (pte (mem s) pgdir)))"
  let ?f = "\<lambda>v. if PGROUNDDOWN v = a then pa OR perm OR PTE_P else pte (mem s) pgdir v"
  have a: "PGROUNDDOWN a = a" using PGROUNDDOWN_self [OF Suc.prems(2)] .
  have end_iff: "a = lst \<longleftrightarrow> n = 0"
  proof -
    have "unat (of_nat (4096 * n) :: u32) = 4096 * n" using Suc.prems(3) unat_of_nat32 [of "4096 * n"] by (simp del: of_nat_mult)
    then have "of_nat (4096 * n) = (0 :: u32) \<longleftrightarrow> n = 0" by (metis mult_eq_0_iff of_nat_0 unsigned_0 zero_neq_numeral)
    then show ?thesis unfolding Suc.prems(4) by (metis add_cancel_right_right)
  qed
  have "runs (if pte' = 0 then kret (- 1) else
     kdo (kget (\<lambda>s. load32 (mem s) pte')) (\<lambda>old.
     if old AND PTE_P \<noteq> 0 then kpanic ''remap'' else
     kdo (kmod (\<lambda>s. s\<lparr>mem := store32 (mem s) pte' (pa OR perm OR PTE_P)\<rparr>)) (\<lambda>_.
     if a = lst then kret 0 else mappages_from k pgdir (a + PGSIZE) lst (pa + PGSIZE) perm))) t ?Q"
    if t: "vstep pgdir s t" "\<forall>v. pte (mem t) pgdir v = pte (mem s) pgdir v"
      "pte' = 0 \<and> ka_pages t = {} \<or> pte' \<noteq> 0 \<and> walked (mem t) pgdir a pte'" for pte' t
  proof (cases "pte' = 0")
    case True
    have "pte (mem t) pgdir = map_range a 0 pa perm (pte (mem s) pgdir)" using t(2) by (simp add: fun_eq_iff)
    then show ?thesis using True t by auto
  next
    case False
    then have w: "walked (mem t) pgdir a pte'" using t(3) by blast
    have vt: "vs_ok t pgdir" using t(1) by (simp add: vstep_def)
    have np: "\<not> present (pte (mem t) pgdir a)" using t(2) Suc.prems(6) [of a] a by simp
    then have old: "load32 (mem t) pte' AND PTE_P = 0" using load_walked [OF w] by (simp add: present_def)
    define u where "u = t\<lparr>mem := store32 (mem t) pte' (pa OR perm OR PTE_P)\<rparr>"
    note st = store_law [OF vt w refl, where e = "pa OR perm OR PTE_P", folded u_def]
    have su: "vstep pgdir s u" using vstep_trans [OF t(1) st(1)] .
    have f: "pte (mem u) pgdir = ?f" using st(4) t(2) a by (auto simp: fun_eq_iff u_def)
    show ?thesis
    proof (cases n)
      case 0
      then have "pte (mem u) pgdir = map_range a (Suc n) pa perm (pte (mem s) pgdir)"
        using f map_range_Suc [OF Suc.prems(2), of 0 pa perm "pte (mem s) pgdir"] by simp
      then show ?thesis using False old end_iff 0 su by (simp add: u_def)
    next
      case (Suc n')
      have al: "page_aligned (a + PGSIZE)"
      proof -
        obtain q where q: "unat a = 4096 * q" using Suc.prems(2) by (rule page_alignedE)
        show ?thesis by (simp add: page_aligned_def PGSIZE_def unat_word_ariths q mod_mod_cancel)
      qed
      have lst: "lst = a + PGSIZE + of_nat (4096 * n')" by (simp add: Suc.prems(4) Suc PGSIZE_def algebra_simps)
      have vu: "vs_ok u pgdir" using su by (simp add: vstep_def)
      have np': "\<not> present (pte (mem u) pgdir v)" if v: "unat (PGROUNDDOWN v - (a + PGSIZE)) < 4096 * Suc n'" for v
      proof -
        have "n < 1048576" using Suc.prems(3) Suc by simp
        from next_page [OF Suc.prems(2) this, of v] v have "PGROUNDDOWN v \<noteq> a" "unat (PGROUNDDOWN v - a) < 4096 * Suc n"
          unfolding Suc by auto
        then show ?thesis using Suc.prems(6) [of v] by (simp add: f)
      qed
      have ih: "runs (mappages_from k pgdir (a + PGSIZE) lst (pa + PGSIZE) perm) u (\<lambda>r t. vstep pgdir u t \<and>
          (r = 0 \<and> pte (mem t) pgdir = map_range (a + PGSIZE) (Suc n') (pa + PGSIZE) perm (pte (mem u) pgdir) \<or>
           r = - 1 \<and> ka_pages t = {} \<and> (\<exists>j \<le> n'. pte (mem t) pgdir = map_range (a + PGSIZE) j (pa + PGSIZE) perm (pte (mem u) pgdir))))"
        using Suc.prems(3,5) Suc by (intro Suc.IH vu al lst np') auto
      have mr: "map_range (a + PGSIZE) j (pa + PGSIZE) perm (pte (mem u) pgdir) = map_range a (Suc j) pa perm (pte (mem s) pgdir)"
        if "j \<le> n" for j using map_range_Suc [OF Suc.prems(2), of j pa perm "pte (mem s) pgdir"] that Suc.prems(3) by (simp add: f)
      have "runs (mappages_from k pgdir (a + PGSIZE) lst (pa + PGSIZE) perm) u ?Q"
      proof (rule runs_weaken [OF ih], elim conjE disjE exE)
        fix r :: int and t assume "vstep pgdir u t" "r = 0" "pte (mem t) pgdir = map_range (a + PGSIZE) (Suc n') (pa + PGSIZE) perm (pte (mem u) pgdir)"
        then show "?Q r t" using vstep_trans [OF su] mr [of "Suc n'"] Suc by simp
      next
        fix r :: int and t j assume "vstep pgdir u t" "r = - 1" "ka_pages t = {}" "j \<le> n'"
          "pte (mem t) pgdir = map_range (a + PGSIZE) j (pa + PGSIZE) perm (pte (mem u) pgdir)"
        then show "?Q r t" using vstep_trans [OF su] mr [of j] Suc by (auto intro!: exI [of _ "Suc j"])
      qed
      then show ?thesis using False old end_iff Suc by (simp add: u_def)
    qed
  qed
  then show ?case unfolding mappages_from.simps runs_kdo [of "walkpgdir pgdir a True"]
    by (intro runs_weaken [OF walk_law [OF Suc.prems(1)]]) (elim conjE, simp)
qed simp

section \<open>What the hardware sees\<close>

lemma page_offset: "PGROUNDDOWN v + (v AND 0xFFF) = v" "v AND 0xFFF < 4096"
proof -
  have "v AND 0xFFF = take_bit 12 v" by (simp add: take_bit_eq_mask mask_eq_exp_minus_1)
  then have u: "unat (v AND 0xFFF) = unat v mod 4096" by (simp add: unsigned_take_bit_eq take_bit_nat_def)
  then show "v AND 0xFFF < 4096" by (simp add: word_less_nat_alt)
  have "unat v < 4294967296" using unsigned_less [of v, where ?'a = nat] by simp
  then have "unat (PGROUNDDOWN v + (v AND 0xFFF)) = unat v" by (simp add: unat_word_ariths u unat_PGROUNDDOWN)
  then show "PGROUNDDOWN v + (v AND 0xFFF) = v" by (simp add: word_unat_eq_iff)
qed

lemma translate_pte:
  "translate m (V2P pgdir) v = (if present (pte m pgdir v) then Some (tab_of (pte m pgdir v) + (v AND 0xFFF)) else None)"
  unfolding translate_def V2P_P2V slot_PDX
  by (simp add: slot_PTX pte_def pde_def present_def tab_of_def Let_def)

lemma page_aligned_add: "page_aligned p \<Longrightarrow> page_aligned q \<Longrightarrow> page_aligned (p + q)"
  using page_diff [of p "0 - q"] page_diff [of 0 q] by (simp add: page_aligned_def)

lemma page_number:
  assumes "P < 1048576" "Q < 1048576" "p = of_nat (4096 * P)" "q = of_nat (4096 * Q)" "n < 1048576 - P"
  shows "unat (q - p :: u32) < 4096 * Suc n \<longleftrightarrow> P \<le> Q \<and> Q \<le> P + n"
proof (cases "P \<le> Q")
  case True
  have "q - p = of_nat (4096 * (Q - P))" unfolding assms(3,4) using True by (simp add: of_nat_diff algebra_simps)
  then have "unat (q - p) = 4096 * (Q - P)" using assms(2) unat_of_nat32 [of "4096 * (Q - P)"] by simp
  then show ?thesis using True by auto
next
  case False
  have le: "4096 * (P - Q) \<le> 4294967296" using assms(1) by simp
  have z: "(of_nat 4294967296 :: u32) = 0" by (subst word_of_nat_eq_0_iff) simp
  have "q - p = of_nat 4294967296 - of_nat (4096 * (P - Q))" unfolding assms(3,4) z using False by (simp add: of_nat_diff algebra_simps)
  also have "\<dots> = of_nat (4294967296 - 4096 * (P - Q))" using le by (simp only: of_nat_diff)
  finally have "q - p = of_nat (4294967296 - 4096 * (P - Q))" .
  then have "unat (q - p) = 4294967296 - 4096 * (P - Q)" using False unat_of_nat32 [of "4294967296 - 4096 * (P - Q)"] by simp
  then show ?thesis using False assms(1,5) by auto
qed

lemma PGROUNDDOWN_number: "PGROUNDDOWN v = of_nat (4096 * (unat v div 4096))"
proof -
  have "PGROUNDDOWN v = of_nat (unat (PGROUNDDOWN v))" by simp
  also have "unat (PGROUNDDOWN v) = 4096 * (unat v div 4096)" unfolding unat_PGROUNDDOWN by (rule mult.commute)
  finally show ?thesis .
qed

lemma range_pages:
  assumes "0 < sz" "unat va + unat sz \<le> 4294967296" "p = unat va div 4096" "l = (unat va + unat sz - 1) div 4096"
  shows "l - p < 1048576" "PGROUNDDOWN (va + sz - 1) = PGROUNDDOWN va + of_nat (4096 * (l - p))"
    "unat (PGROUNDDOWN v - PGROUNDDOWN va) < 4096 * Suc (l - p) \<longleftrightarrow> p \<le> unat v div 4096 \<and> unat v div 4096 \<le> l"
proof -
  have sz: "0 < unat sz" using assms(1) by (simp add: word_less_nat_alt)
  have "unat va + unat sz - 1 < 4096 * 1048576" using assms(2) sz by simp
  then have l: "l < 1048576" unfolding assms(4) by (simp add: div_less_iff_less_mult)
  have pl: "p \<le> l" unfolding assms(3,4) using sz by (intro div_le_mono) simp
  have qb: "unat v div 4096 < 1048576" using unsigned_less [of v, where ?'a = nat] by simp
  show "l - p < 1048576" using l by simp
  have "va + sz - 1 = of_nat (unat va + unat sz - 1)" using sz by (simp add: of_nat_diff)
  then have u: "unat (va + sz - 1) = unat va + unat sz - 1"
    using assms(2) sz unat_of_nat32 [of "unat va + unat sz - 1"] by simp
  have "4096 * l = 4096 * p + 4096 * (l - p)" using pl by simp
  then show "PGROUNDDOWN (va + sz - 1) = PGROUNDDOWN va + of_nat (4096 * (l - p))"
    unfolding PGROUNDDOWN_number u assms(3,4) [symmetric] by (simp only: of_nat_add)
  show "unat (PGROUNDDOWN v - PGROUNDDOWN va) < 4096 * Suc (l - p) \<longleftrightarrow> p \<le> unat v div 4096 \<and> unat v div 4096 \<le> l"
    using page_number [of p "unat v div 4096" "PGROUNDDOWN va" "PGROUNDDOWN v" "l - p"] l pl qb
    unfolding PGROUNDDOWN_number [of v] PGROUNDDOWN_number [of va] assms(3) [symmetric] by simp
qed

lemma mappages_law:
  assumes "vs_ok s pgdir" "0 < sz" "unat va + unat sz \<le> 4294967296" "p = unat va div 4096" "l = (unat va + unat sz - 1) div 4096"
    and "\<And>v. p \<le> unat v div 4096 \<Longrightarrow> unat v div 4096 \<le> l \<Longrightarrow> \<not> present (pte (mem s) pgdir v)"
  shows "runs (mappages pgdir va sz pa perm) s (\<lambda>r t. vstep pgdir s t \<and>
    (r = 0 \<and> (\<forall>v. pte (mem t) pgdir v = (if p \<le> unat v div 4096 \<and> unat v div 4096 \<le> l
        then (pa + (PGROUNDDOWN v - PGROUNDDOWN va)) OR perm OR PTE_P else pte (mem s) pgdir v)) \<or>
     r = - 1 \<and> ka_pages t = {}))"
proof -
  note r = range_pages [OF assms(2-5)]
  have "runs (mappages_from page_fuel pgdir (PGROUNDDOWN va) (PGROUNDDOWN (va + sz - 1)) pa perm) s (\<lambda>r t. vstep pgdir s t \<and>
    (r = 0 \<and> pte (mem t) pgdir = map_range (PGROUNDDOWN va) (Suc (l - p)) pa perm (pte (mem s) pgdir) \<or>
     r = - 1 \<and> ka_pages t = {} \<and> (\<exists>j \<le> l - p. pte (mem t) pgdir = map_range (PGROUNDDOWN va) j pa perm (pte (mem s) pgdir))))"
    by (rule mappages_from_law [OF assms(1) page_aligned_round r(1,2)]) (use r(1,3) assms(6) in auto)
  then show ?thesis unfolding mappages_def
    by (rule runs_weaken) (auto simp: map_range_def r(3) [simplified])
qed

section \<open>Copying to user memory\<close>

definition uaddr :: "memory \<Rightarrow> u32 \<Rightarrow> u32 \<Rightarrow> u32" where
  "uaddr m pgdir v = tab_of (pte m pgdir v) + (v AND 0xFFF)"

text \<open>\<open>n\<close> bytes at \<open>va\<close> that the program may access, on frames of their own.\<close>

definition user_range :: "'x kmem_scheme \<Rightarrow> u32 \<Rightarrow> u32 \<Rightarrow> nat \<Rightarrow> bool" where
  "user_range s pgdir va n \<longleftrightarrow> unat va + n \<le> 4294967296 \<and>
     (\<forall>i<n. let e = pte (mem s) pgdir (va + of_nat i) in
        present e \<and> e AND PTE_U \<noteq> 0 \<and> tab_of e \<noteq> 0 \<and> tab_of e \<notin> tabs (mem s) pgdir \<and> tab_of e \<notin> ka_pages s \<and>
        (\<forall>j<n. tab_of (pte (mem s) pgdir (va + of_nat j)) = tab_of e \<longrightarrow> PGROUNDDOWN (va + of_nat j) = PGROUNDDOWN (va + of_nat i)))"

lemma pte_page: "PGROUNDDOWN v = PGROUNDDOWN w \<Longrightarrow> pte m pgdir v = pte m pgdir w"
  unfolding same_page [symmetric] by (simp add: pte_def)

lemma page_aligned_tab: "page_aligned (tab_of e)"
proof -
  have "page_aligned KERNBASE" by (simp add: page_aligned_def KERNBASE_def)
  then show ?thesis using page_aligned_add [of "PTE_ADDR e" KERNBASE] by (simp add: tab_of_def P2V_def PTE_ADDR_round)
qed

lemma uva2ka_user:
  assumes "present (pte (mem s) pgdir v)" "pte (mem s) pgdir v AND PTE_U \<noteq> 0"
  shows "uva2ka pgdir v s = Ok (tab_of (pte (mem s) pgdir v)) s \<or> slot (tab_of (pde (mem s) pgdir (dx v))) (tx v) = 0"
proof -
  have p: "present (pde (mem s) pgdir (dx v))" using assms(1) by (auto simp: pte_def split: if_splits)
  show ?thesis using assms p unfolding uva2ka_def
    by (simp add: kdo_def kop_defs walk_found [OF p] pte_def present_def tab_of_def)
qed

lemma uva2ka_absent: "\<not> present (pde (mem s) pgdir (dx v)) \<Longrightarrow> uva2ka pgdir v s = Fail (Undef ''null pte'')"
  by (simp add: uva2ka_def kdo_def kop_defs walk_absent)

lemma uva2ka_law:
  assumes "vs_ok s pgdir" "present (pte (mem s) pgdir v)" "pte (mem s) pgdir v AND PTE_U \<noteq> 0"
  shows "uva2ka pgdir v s = Ok (tab_of (pte (mem s) pgdir v)) s"
proof -
  have p: "present (pde (mem s) pgdir (dx v))" using assms(2) by (auto simp: pte_def split: if_splits)
  have "ka_page s (tab_of (pde (mem s) pgdir (dx v)))" using vs_okD(2) [OF assms(1) tabs_tab [OF p]] by simp
  then show ?thesis using uva2ka_user [OF assms(2,3)] vs_page_nonzero [OF vs_okD(1) [OF assms(1)]] by simp
qed

lemma same_page_offset:
  assumes "unat (v AND 0xFFF) + i < 4096"
  shows "PGROUNDDOWN (v + of_nat i) = PGROUNDDOWN v" "(v + of_nat i) AND 0xFFF = (v AND 0xFFF) + of_nat i"
proof -
  have "unat ((v AND 0xFFF) + of_nat i) = unat (v AND 0xFFF) + i" using assms by (simp add: unat_word_ariths unat_of_nat)
  then have l: "(v AND 0xFFF) + of_nat i < 4096" using assms by (simp add: word_less_nat_alt)
  have v: "v + of_nat i = PGROUNDDOWN v + ((v AND 0xFFF) + of_nat i)" using page_offset(1) [of v] by (metis add.assoc)
  show p: "PGROUNDDOWN (v + of_nat i) = PGROUNDDOWN v" unfolding v by (rule PGROUNDDOWN_add [OF page_aligned_round l])
  have "PGROUNDDOWN v + ((v + of_nat i) AND 0xFFF) = v + of_nat i"
    using page_offset(1) [of "v + of_nat i"] unfolding p .
  then have "PGROUNDDOWN v + ((v + of_nat i) AND 0xFFF) = PGROUNDDOWN v + ((v AND 0xFFF) + of_nat i)"
    using v by (rule trans)
  then show "(v + of_nat i) AND 0xFFF = (v AND 0xFFF) + of_nat i" by (rule add_left_imp_eq)
qed

lemma user_rangeD:
  assumes "user_range s pgdir va n" "i < n"
  shows "present (pte (mem s) pgdir (va + of_nat i))" "pte (mem s) pgdir (va + of_nat i) AND PTE_U \<noteq> 0"
    "tab_of (pte (mem s) pgdir (va + of_nat i)) \<noteq> 0" "tab_of (pte (mem s) pgdir (va + of_nat i)) \<notin> tabs (mem s) pgdir"
    "tab_of (pte (mem s) pgdir (va + of_nat i)) \<notin> ka_pages s"
  using assms by (auto simp: user_range_def Let_def)

lemma user_range_drop:
  assumes "user_range s pgdir va n" "k \<le> n"
  shows "user_range s pgdir (va + of_nat k) (n - k) \<or> k = n"
proof (cases "k = n")
  case False
  then have "unat (va + of_nat k) = unat va + k"
    using assms by (simp add: user_range_def unat_word_ariths unat_of_nat)
  moreover have e: "va + of_nat k + of_nat i = va + of_nat (k + i)" for i by simp
  ultimately show ?thesis using assms unfolding user_range_def Let_def e by (simp del: of_nat_add)
qed simp

lemma uaddr_page: "PGROUNDDOWN (uaddr m pgdir v) = tab_of (pte m pgdir v)"
  unfolding uaddr_def by (rule PGROUNDDOWN_add [OF page_aligned_tab page_offset(2)])

lemma uaddr_inj:
  assumes "user_range s pgdir va n" "i < n" "j < n" "uaddr (mem s) pgdir (va + of_nat i) = uaddr (mem s) pgdir (va + of_nat j)"
  shows "i = j"
proof -
  have t: "tab_of (pte (mem s) pgdir (va + of_nat i)) = tab_of (pte (mem s) pgdir (va + of_nat j))"
    using arg_cong [OF assms(4), of PGROUNDDOWN] by (simp add: uaddr_page)
  then have p: "PGROUNDDOWN (va + of_nat i) = PGROUNDDOWN (va + of_nat j)"
    using assms(1-3) unfolding user_range_def Let_def by blast
  have "(va + of_nat i) AND 0xFFF = (va + of_nat j) AND 0xFFF" using assms(4) t by (simp add: uaddr_def)
  then have "PGROUNDDOWN (va + of_nat i) + ((va + of_nat i) AND 0xFFF) = PGROUNDDOWN (va + of_nat j) + ((va + of_nat j) AND 0xFFF)"
    using p by simp
  then have "va + of_nat i = va + of_nat j" unfolding page_offset(1) .
  then have e: "unat (of_nat i :: u32) = unat (of_nat j :: u32)" by simp
  have "i < 4294967296" "j < 4294967296" using assms(1-3) by (auto simp: user_range_def)
  then show ?thesis using e by (simp only: unat_of_nat32)
qed

text \<open>One page of the copy.\<close>

lemma copyout_page:
  assumes "vs_ok s pgdir" "user_range s pgdir va (length buf)" "buf \<noteq> []"
    and n: "n = min (4096 - unat (va AND 0xFFF)) (length buf)"
    and m: "m = put_bytes (mem s) (tab_of (pte (mem s) pgdir va) + (va AND 0xFFF)) (take n buf)"
  shows "i < n \<Longrightarrow> m (uaddr (mem s) pgdir (va + of_nat i)) = buf ! i"
    "(\<And>i. i < n \<Longrightarrow> x \<noteq> uaddr (mem s) pgdir (va + of_nat i)) \<Longrightarrow> m x = mem s x"
    "vs_ok (s\<lparr>mem := m\<rparr>) pgdir" "pte m pgdir = pte (mem s) pgdir" "user_range (s\<lparr>mem := m\<rparr>) pgdir = user_range s pgdir"
proof -
  have o: "unat (va AND 0xFFF) < 4096" using page_offset(2) [of va] by (simp add: word_less_nat_alt)
  have u: "uaddr (mem s) pgdir (va + of_nat i) = tab_of (pte (mem s) pgdir va) + (va AND 0xFFF) + of_nat i" if "i < n" for i
  proof -
    have "unat (va AND 0xFFF) + i < 4096" using that n o by (simp add: less_diff_conv)
    note q = same_page_offset [OF this]
    show ?thesis using q by (simp add: uaddr_def pte_page [OF q(1)])
  qed
  have s: "i < 4294967296" if "i < n" for i :: nat using that n by auto
  have len: "length (take n buf) = n" using n by simp
  show "m (uaddr (mem s) pgdir (va + of_nat i)) = buf ! i" if "i < n"
    using that len by (simp add: m put_bytes_def u unat_of_nat32 [OF s])
  show w: "m x = mem s x" if x: "\<And>i. i < n \<Longrightarrow> x \<noteq> uaddr (mem s) pgdir (va + of_nat i)" for x
  proof (rule ccontr)
    let ?a = "tab_of (pte (mem s) pgdir va) + (va AND 0xFFF)"
    assume "m x \<noteq> mem s x"
    then have l: "unat (x - ?a) < n" using len by (auto simp: m put_bytes_def split: if_splits)
    have "x = ?a + of_nat (unat (x - ?a))" by simp
    then show False using x [OF l] u [OF l] by simp
  qed
  have pg: "m x = mem s x" if "PGROUNDDOWN x \<in> tabs (mem s) pgdir \<or> PGROUNDDOWN x \<in> ka_pages s" for x
  proof (rule w)
    fix i assume "i < n"
    then have "i < length buf" using n by simp
    then show "x \<noteq> uaddr (mem s) pgdir (va + of_nat i)"
      using that user_rangeD(4,5) [OF assms(2), of i] uaddr_page [of "mem s" pgdir "va + of_nat i"] by auto
  qed
  note k = vs_ok_write [OF assms(1), of m, OF pg pg, OF disjI1 disjI2]
  show "vs_ok (s\<lparr>mem := m\<rparr>) pgdir" by (rule k(1))
  show p: "pte m pgdir = pte (mem s) pgdir" by (rule ext) (rule k(2))
  show "user_range (s\<lparr>mem := m\<rparr>) pgdir = user_range s pgdir"
    by (intro ext) (simp add: user_range_def p k(3,4))
qed

lemma copyout_from_law:
  assumes "vs_ok s pgdir" "user_range s pgdir va (length buf)" "length buf < k"
  shows "runs (copyout_from k pgdir va buf) s (\<lambda>r t. r = 0 \<and> t = s\<lparr>mem := mem t\<rparr> \<and> vs_ok t pgdir \<and> pte (mem t) pgdir = pte (mem s) pgdir \<and>
    (\<forall>i<length buf. mem t (uaddr (mem s) pgdir (va + of_nat i)) = buf ! i) \<and>
    (\<forall>x. x \<notin> (\<lambda>i. uaddr (mem s) pgdir (va + of_nat i)) ` {..<length buf} \<longrightarrow> mem t x = mem s x))"
  using assms
proof (induction k arbitrary: s va buf)
  case (Suc k)
  show ?case
  proof (cases "buf = []")
    case True
    then show ?thesis using Suc.prems by (simp add: runs_def kop_defs)
  next
    case False
    have z: "0 < length buf" using False by simp
    define n where n: "n = min (4096 - unat (va AND 0xFFF)) (length buf)"
    define m where m: "m = put_bytes (mem s) (tab_of (pte (mem s) pgdir va) + (va AND 0xFFF)) (take n buf)"
    let ?s = "s\<lparr>mem := m\<rparr>" and ?A = "\<lambda>i. uaddr (mem s) pgdir (va + of_nat i)"
    note c = copyout_page [OF Suc.prems(1,2) False n m]
    have pr: "pte (mem s) pgdir (PGROUNDDOWN va) = pte (mem s) pgdir va" by (rule pte_page) (simp add: PGROUNDDOWN_self page_aligned_round)
    have uv: "uva2ka pgdir (PGROUNDDOWN va) s = Ok (tab_of (pte (mem s) pgdir va)) s"
      using uva2ka_law [OF Suc.prems(1), of "PGROUNDDOWN va"] user_rangeD(1,2) [OF Suc.prems(2) z] pr by simp
    have off: "va - PGROUNDDOWN va = va AND 0xFFF" using page_offset(1) [of va] by (metis add_diff_cancel_left')
    have o: "unat (va AND 0xFFF) < 4096" using page_offset(2) [of va] by (simp add: word_less_nat_alt)
    have un: "unat (PGSIZE - (va AND 0xFFF)) = 4096 - unat (va AND 0xFFF)" using o by (simp add: PGSIZE_def unat_sub word_le_nat_alt)
    have step: "copyout_from (Suc k) pgdir va buf s = copyout_from k pgdir (PGROUNDDOWN va + PGSIZE) (drop n buf) ?s"
      using False user_rangeD(3) [OF Suc.prems(2) z] by (simp add: Let_def kdo_def uv off un kop_defs m n)
    have n0: "0 < n" "n \<le> length buf" using o z by (simp_all add: n)
    let ?r = "drop n buf"
    have rest: "runs (copyout_from k pgdir (PGROUNDDOWN va + PGSIZE) ?r) ?s
      (\<lambda>r t. r = 0 \<and> t = ?s\<lparr>mem := mem t\<rparr> \<and> vs_ok t pgdir \<and> pte (mem t) pgdir = pte (mem ?s) pgdir \<and>
       (\<forall>i<length ?r. mem t (uaddr (mem ?s) pgdir (PGROUNDDOWN va + PGSIZE + of_nat i)) = ?r ! i) \<and>
       (\<forall>x. x \<notin> (\<lambda>i. uaddr (mem ?s) pgdir (PGROUNDDOWN va + PGSIZE + of_nat i)) ` {..<length ?r} \<longrightarrow> mem t x = mem ?s x)) \<and>
      (n < length buf \<longrightarrow> PGROUNDDOWN va + PGSIZE = va + of_nat n)"
    proof (cases "n = length buf")
      case True
      then show ?thesis using n0(1) Suc.prems(3) c(3) by (cases k) (simp_all add: runs_def kop_defs)
    next
      case False
      then have "n = 4096 - unat (va AND 0xFFF)" by (simp add: n min_def split: if_splits)
      moreover have "of_nat (unat (PGSIZE - (va AND 0xFFF))) = PGSIZE - (va AND 0xFFF)" by simp
      ultimately have "of_nat n = PGSIZE - (va AND 0xFFF)" unfolding un by simp
      then have e: "PGROUNDDOWN va + PGSIZE = va + of_nat n" unfolding off [symmetric] by simp
      have "user_range s pgdir (va + of_nat n) (length buf - n)" using user_range_drop [OF Suc.prems(2) n0(2)] False by simp
      then have "user_range ?s pgdir (PGROUNDDOWN va + PGSIZE) (length ?r)" unfolding c(5) e by simp
      moreover have "length ?r < k" using n0 z Suc.prems(3) by simp
      ultimately show ?thesis using Suc.IH [OF c(3)] e by blast
    qed
    have uad: "uaddr m pgdir = uaddr (mem s) pgdir" by (rule ext) (simp add: uaddr_def c(4))
    have e: "PGROUNDDOWN va + PGSIZE + of_nat i = va + of_nat (n + i)" if "i < length ?r" for i
      using rest that by simp
    obtain t where t: "copyout_from k pgdir (PGROUNDDOWN va + PGSIZE) ?r ?s = Ok 0 t" "t = ?s\<lparr>mem := mem t\<rparr>" "vs_ok t pgdir"
        "pte (mem t) pgdir = pte m pgdir"
      and v: "\<And>i. i < length ?r \<Longrightarrow> mem t (uaddr (mem s) pgdir (PGROUNDDOWN va + PGSIZE + of_nat i)) = ?r ! i"
      and g: "\<forall>x. x \<notin> (\<lambda>i. uaddr (mem s) pgdir (PGROUNDDOWN va + PGSIZE + of_nat i)) ` {..<length ?r} \<longrightarrow> mem t x = m x"
      using rest unfolding runs_iff by (auto simp: uad image_iff)
    have f: "mem t x = m x" if "\<And>i. i < length ?r \<Longrightarrow> x \<noteq> uaddr (mem s) pgdir (PGROUNDDOWN va + PGSIZE + of_nat i)" for x
      using g that by blast
    have "mem t (?A i) = buf ! i" if i: "i < length buf" for i
    proof (cases "i < n")
      case True
      have "mem t (?A i) = m (?A i)"
      proof (rule f)
        fix j assume j: "j < length ?r"
        then have "n + j < length buf" "i \<noteq> n + j" using True by auto
        then show "?A i \<noteq> uaddr (mem s) pgdir (PGROUNDDOWN va + PGSIZE + of_nat j)"
          unfolding e [OF j] using uaddr_inj [OF Suc.prems(2) i, of "n + j"] by blast
      qed
      then show ?thesis using c(1) [OF True] by simp
    next
      case False
      then have j: "i - n < length ?r" "n + (i - n) = i" using i by auto
      have "mem t (?A i) = ?r ! (i - n)" using v [OF j(1)] unfolding e [OF j(1)] j(2) .
      then show ?thesis using n0(2) j(2) by simp
    qed
    moreover have "mem t x = mem s x" if "x \<notin> ?A ` {..<length buf}" for x
    proof -
      have "mem t x = m x"
      proof (rule f)
        fix j assume j: "j < length ?r"
        then have "n + j < length buf" by auto
        then show "x \<noteq> uaddr (mem s) pgdir (PGROUNDDOWN va + PGSIZE + of_nat j)" unfolding e [OF j] using that by blast
      qed
      also have "\<dots> = mem s x" by (rule c(2)) (use that n0(2) in \<open>force simp: image_iff\<close>)
      finally show ?thesis .
    qed
    ultimately show ?thesis using t c(4) step by (auto simp: runs_iff)
  qed
qed simp

section \<open>What the routines do to an address space\<close>

text \<open>
  C33. \<^verbatim>\<open>mappages\<close> installs a translation. On an address space whose tables are pages of the allocator, for a
  range that does not wrap around and has no page mapped yet, the call either returns 0, and then every
  address of the pages that meet the range translates to its offset from \<^verbatim>\<open>pa\<close> while every other address
  translates as before, or returns -1 because the allocator has no page left for a table. The tables stay
  well formed and no byte outside them changes.
\<close>

theorem mappages_maps:
  assumes "vs_ok s pgdir" "0 < sz" "unat va + unat sz \<le> 2 ^ 32" "page_aligned pa" "perm < PGSIZE"
    and "\<And>v. unat va div 4096 \<le> unat v div 4096 \<Longrightarrow> unat v div 4096 \<le> (unat va + unat sz - 1) div 4096 \<Longrightarrow>
      \<not> present (pte (mem s) pgdir v)"
  shows "runs (mappages pgdir va sz pa perm) s (\<lambda>r t. vstep pgdir s t \<and>
    (r = 0 \<and> (\<forall>v. translate (mem t) (V2P pgdir) v =
        (if unat va div 4096 \<le> unat v div 4096 \<and> unat v div 4096 \<le> (unat va + unat sz - 1) div 4096
         then Some (P2V (pa + (v - PGROUNDDOWN va))) else translate (mem s) (V2P pgdir) v)) \<or>
     r = - 1 \<and> ka_pages t = {}))"
proof -
  have f: "perm OR PTE_P < 4096" using assms(5) by (intro or_less_4096) (simp_all add: PGSIZE_def PTE_P_def)
  have t: "tab_of (pa + (PGROUNDDOWN v - PGROUNDDOWN va) OR (perm OR PTE_P)) + (v AND 0xFFF) = P2V (pa + (v - PGROUNDDOWN va))" for v
  proof -
    have "page_aligned (pa + (PGROUNDDOWN v - PGROUNDDOWN va))"
      by (intro page_aligned_add assms(4) page_diff page_aligned_round)
    then have "tab_of (pa + (PGROUNDDOWN v - PGROUNDDOWN va) OR (perm OR PTE_P)) + (v AND 0xFFF) =
        P2V (pa + (PGROUNDDOWN v - PGROUNDDOWN va)) + (v AND 0xFFF)"
      by (simp add: tab_of_def entry_addr [OF _ f])
    also have "\<dots> = P2V (pa + (PGROUNDDOWN v + (v AND 0xFFF) - PGROUNDDOWN va))" by (simp add: P2V_def)
    finally show ?thesis unfolding page_offset(1) .
  qed
  have pr: "present (x OR perm OR PTE_P)" for x unfolding or.assoc [symmetric] by (rule entry_present(1))
  have w: "unat va + unat sz \<le> 4294967296" using assms(3) by simp
  show ?thesis
  proof (rule runs_weaken [OF mappages_law [OF assms(1,2) w refl refl assms(6), where pa = pa and perm = perm]], assumption, assumption, goal_cases)
    case (1 r t)
    then show ?case
    proof (elim conjE disjE)
      assume p: "\<forall>v. pte (mem t) pgdir v = (if unat va div 4096 \<le> unat v div 4096 \<and> unat v div 4096 \<le> (unat va + unat sz - 1) div 4096
        then (pa + (PGROUNDDOWN v - PGROUNDDOWN va)) OR perm OR PTE_P else pte (mem s) pgdir v)"
      have "translate (mem t) (V2P pgdir) v =
        (if unat va div 4096 \<le> unat v div 4096 \<and> unat v div 4096 \<le> (unat va + unat sz - 1) div 4096
         then Some (P2V (pa + (v - PGROUNDDOWN va))) else translate (mem s) (V2P pgdir) v)" for v
        unfolding translate_pte spec [OF p, of v] by (simp add: t pr)
      then show ?thesis using 1 by blast
    qed blast
  qed
qed

text \<open>
  C34. \<^verbatim>\<open>copyout\<close> writes the user's bytes. For a range of user pages on frames of their own, possibly over
  several pages, the call returns 0; reading the range through the page tables afterwards gives the
  buffer, and no byte of memory outside the range's frames has changed, the page tables included.
\<close>

theorem copyout_correct:
  assumes "vs_ok s pgdir" "user_range s pgdir va (length buf)"
  shows "runs (copyout pgdir va buf) s (\<lambda>r t. r = 0 \<and> vs_ok t pgdir \<and>
    (\<forall>i<length buf. map_option (mem t) (translate (mem t) (V2P pgdir) (va + of_nat i)) = Some (buf ! i)) \<and>
    (\<forall>x. (\<forall>i<length buf. translate (mem s) (V2P pgdir) (va + of_nat i) \<noteq> Some x) \<longrightarrow> mem t x = mem s x) \<and>
    (\<forall>v. translate (mem t) (V2P pgdir) v = translate (mem s) (V2P pgdir) v) \<and> t = s\<lparr>mem := mem t\<rparr>)"
proof -
  have tr: "translate (mem s) (V2P pgdir) (va + of_nat i) = Some (uaddr (mem s) pgdir (va + of_nat i))" if "i < length buf" for i
    using user_rangeD(1) [OF assms(2) that] by (simp add: translate_pte uaddr_def)
  have "runs (copyout_from (length buf + 1) pgdir va buf) s (\<lambda>r t. r = 0 \<and> t = s\<lparr>mem := mem t\<rparr> \<and> vs_ok t pgdir \<and>
    pte (mem t) pgdir = pte (mem s) pgdir \<and>
    (\<forall>i<length buf. mem t (uaddr (mem s) pgdir (va + of_nat i)) = buf ! i) \<and>
    (\<forall>x. x \<notin> (\<lambda>i. uaddr (mem s) pgdir (va + of_nat i)) ` {..<length buf} \<longrightarrow> mem t x = mem s x))"
    by (rule copyout_from_law [OF assms]) simp
  then show ?thesis unfolding copyout_def
  proof (rule runs_weaken, goal_cases)
    case (1 r t)
    have e: "translate (mem t) (V2P pgdir) v = translate (mem s) (V2P pgdir) v" for v using 1 by (simp add: translate_pte)
    have "mem t x = mem s x" if "\<forall>i<length buf. translate (mem s) (V2P pgdir) (va + of_nat i) \<noteq> Some x" for x
    proof -
      have "x \<notin> (\<lambda>i. uaddr (mem s) pgdir (va + of_nat i)) ` {..<length buf}" using that tr by auto
      then show ?thesis using 1 by blast
    qed
    then show ?case using 1 tr e by auto
  qed
qed

text \<open>
  C35. \<^verbatim>\<open>copyout\<close> into an address whose page directory entry is empty does not report the error: \<^verbatim>\<open>uva2ka\<close>
  reads the entry through the null pointer that \<^verbatim>\<open>walkpgdir\<close> returned, before it looks at the present bit.
\<close>

theorem copyout_null_table:
  assumes "buf \<noteq> []" "load32 (mem s) (pgdir + 4 * PDX va) AND PTE_P = 0"
  shows "copyout pgdir va buf s = Fail (Undef ''null pte'')"
proof -
  have "dx (PGROUNDDOWN va) = dx va" using same_page [of "PGROUNDDOWN va" va] by (simp add: PGROUNDDOWN_self page_aligned_round)
  then have "\<not> present (pde (mem s) pgdir (dx (PGROUNDDOWN va)))" using assms(2) by (simp add: present_def pde_def slot_PDX)
  then show ?thesis using assms(1) by (simp add: copyout_def Let_def kdo_def uva2ka_absent)
qed

text \<open>An address space with one table, and two user pages on frames that are not adjacent.\<close>

definition demo_vm :: kmem where
  "demo_vm = demo_kmem\<lparr>mem := store32 (store32 (store32 (\<lambda>_. 0) (slot 0x80400000 0) 0x401007) (slot 0x80401000 1) 0x402007)
     (slot 0x80401000 2) 0x404007\<rparr>"

lemma demo_vm_aligned: "page_aligned 0x80400000" "page_aligned 0x80401000"
  by (simp_all add: page_aligned_def)

lemma load32_zero: "load32 (\<lambda>_. 0) a = 0"
  by (simp add: load32_def)

lemma demo_vm_load:
  "i < 1024 \<Longrightarrow> load32 (mem demo_vm) (slot 0x80400000 i) = (if i = 0 then 0x401007 else 0)"
  "i < 1024 \<Longrightarrow> load32 (mem demo_vm) (slot 0x80401000 i) = (if i = 1 then 0x402007 else if i = 2 then 0x404007 else 0)"
  by (simp_all add: demo_vm_def load_store_slot demo_vm_aligned load32_zero)

lemma demo_vm_pde: "i < 1024 \<Longrightarrow> present (pde (mem demo_vm) 0x80400000 i) \<longleftrightarrow> i = 0" "tab_of (pde (mem demo_vm) 0x80400000 0) = 0x80401000"
  by (simp_all add: pde_def demo_vm_load present_def PTE_P_def tab_of_def P2V_def PTE_ADDR_def KERNBASE_def)

lemma demo_vm_tabs: "tabs (mem demo_vm) 0x80400000 = {0x80400000, 0x80401000}"
proof -
  have "{i. i < 1024 \<and> present (pde (mem demo_vm) 0x80400000 i)} = {0}" using demo_vm_pde(1) by auto
  then show ?thesis by (simp add: tabs_def demo_vm_pde(2))
qed

lemma demo_vm_pte:
  "pte (mem demo_vm) 0x80400000 v = (if dx v = 0 then if tx v = 1 then 0x402007 else if tx v = 2 then 0x404007 else 0 else 0)"
  by (simp add: pte_def demo_vm_pde demo_vm_load)

lemma demo_vm_ok: "vs_ok demo_vm 0x80400000" "ka_pages demo_vm = {}"
proof -
  have l: "fl_list demo_vm []" by (simp add: fl_list_def demo_vm_def demo_kmem_def)
  show p: "ka_pages demo_vm = {}" using fl_pages_eq [OF l] by (simp add: ka_pages_def demo_vm_def demo_kmem_def)
  have "ka_ok demo_vm" using l by (auto simp: ka_ok_def fl_ok_def demo_vm_def demo_kmem_def)
  moreover have "ka_page demo_vm 0x80400000" "ka_page demo_vm 0x80401000"
    by (simp_all add: ka_page_def demo_vm_def demo_kmem_def fl_page_def page_aligned_def KERNBASE_def V2P_def PHYSTOP_def)
  ultimately show "vs_ok demo_vm 0x80400000" by (auto simp: vs_ok_def demo_vm_tabs p demo_vm_pde)
qed

theorem mappages_maps_witness:
  "runs (mappages 0x80400000 0x5010 0x1000 0x300000 PTE_U) demo_vm (\<lambda>r t. r = 0 \<and>
     translate (mem t) 0x400000 0x5123 = Some 0x80300123 \<and> translate (mem t) 0x400000 0x6001 = Some 0x80301001 \<or> r = - 1)"
proof -
  have "\<not> present (pte (mem demo_vm) 0x80400000 v)" if "unat (0x5010 :: u32) div 4096 \<le> unat v div 4096" for v
    using that by (auto simp: demo_vm_pte dx_def tx_def present_def div_mult2_eq [of "unat v" 4096 1024, simplified])
  from mappages_maps [of demo_vm "0x80400000" "0x1000" "0x5010" "0x300000" PTE_U, OF demo_vm_ok(1) _ _ _ _ this]
  show ?thesis
    by (simp add: page_aligned_def PGSIZE_def PTE_U_def) (auto elim!: runs_weaken simp: V2P_def KERNBASE_def P2V_def PGROUNDDOWN_def PGSIZE_def)
qed

lemma all_less_three: "(\<forall>i<(3 :: nat). P i) \<longleftrightarrow> P 0 \<and> P 1 \<and> P 2"
  by (auto simp: numeral_3_eq_3 numeral_2_eq_2 All_less_Suc)

lemma demo_vm_user: "user_range demo_vm 0x80400000 0x1FFE 3"
proof -
  have p: "pte (mem demo_vm) 0x80400000 0x1FFE = 0x402007" "pte (mem demo_vm) 0x80400000 0x1FFF = 0x402007" "pte (mem demo_vm) 0x80400000 0x2000 = 0x404007"
    by (simp_all add: demo_vm_pte dx_def tx_def)
  have t: "tab_of 0x402007 = 0x80402000" "tab_of 0x404007 = 0x80404000"
    by (simp_all add: tab_of_def P2V_def PTE_ADDR_def KERNBASE_def)
  show ?thesis unfolding user_range_def all_less_three Let_def
    by (simp add: p t demo_vm_tabs demo_vm_ok(2) present_def PTE_P_def PTE_U_def PGROUNDDOWN_def PGSIZE_def)
qed

theorem copyout_correct_witness:
  "runs (copyout 0x80400000 0x1FFE [7, 8, 9]) demo_vm (\<lambda>r t. r = 0 \<and>
     mem t 0x80402FFE = 7 \<and> mem t 0x80402FFF = 8 \<and> mem t 0x80404000 = 9 \<and> mem t 0x80403000 = mem demo_vm 0x80403000)"
proof -
  have tr: "translate (mem demo_vm) (V2P 0x80400000) 0x1FFE = Some 0x80402FFE" "translate (mem demo_vm) (V2P 0x80400000) 0x1FFF = Some 0x80402FFF"
    "translate (mem demo_vm) (V2P 0x80400000) 0x2000 = Some 0x80404000"
    unfolding translate_pte demo_vm_pte by (simp_all add: dx_def tx_def present_def PTE_P_def tab_of_def P2V_def PTE_ADDR_def KERNBASE_def)
  have "runs (copyout 0x80400000 0x1FFE [7, 8, 9]) demo_vm (\<lambda>r t. r = 0 \<and> vs_ok t 0x80400000 \<and>
    (\<forall>i<length [7, 8, 9 :: u8]. map_option (mem t) (translate (mem t) (V2P 0x80400000) (0x1FFE + of_nat i)) = Some ([7, 8, 9] ! i)) \<and>
    (\<forall>x. (\<forall>i<length [7, 8, 9 :: u8]. translate (mem demo_vm) (V2P 0x80400000) (0x1FFE + of_nat i) \<noteq> Some x) \<longrightarrow> mem t x = mem demo_vm x) \<and>
    (\<forall>v. translate (mem t) (V2P 0x80400000) v = translate (mem demo_vm) (V2P 0x80400000) v) \<and> t = demo_vm\<lparr>mem := mem t\<rparr>)"
    by (rule copyout_correct [OF demo_vm_ok(1)]) (use demo_vm_user in \<open>simp add: numeral_3_eq_3\<close>)
  then show ?thesis
    by (rule runs_weaken) (auto simp: All_less_Suc tr)
qed

theorem copyout_null_table_witness: "copyout 0x80400000 0x400000 [1] demo_vm = Fail (Undef ''null pte'')"
proof (rule copyout_null_table)
  have "PDX 0x400000 = 1" by (simp add: PDX_def)
  then show "load32 (mem demo_vm) (0x80400000 + 4 * PDX 0x400000) AND PTE_P = 0" using demo_vm_load(1) [of 1] by (simp add: slot_def)
qed simp

end
