(* ===== verification/Pipe.thy ===== *)
theory Pipe
  imports Pagetable Inode
begin

text \<open>
  Pipes are bounded queues of bytes. \<open>pq\<close> is the queue a \<^verbatim>\<open>struct pipe\<close> stands for; the equations below
  say what \<^verbatim>\<open>pipewrite\<close> and \<^verbatim>\<open>piperead\<close> do to it on every branch: they return, fail, or leave the CPU
  asleep. The counters \<^verbatim>\<open>nread\<close> and \<^verbatim>\<open>nwrite\<close> wrap at \<open>2 ^ 32\<close>, which is a multiple of \<^verbatim>\<open>PIPESIZE\<close>.
\<close>

section \<open>The queue\<close>

definition pipe_len :: "pipe \<Rightarrow> nat" where
  "pipe_len x = unat (pi_nwrite x - pi_nread x)"

definition pq :: "pipe \<Rightarrow> u8 list" where
  "pq x = map (\<lambda>j. pi_data x ! ((unat (pi_nread x) + j) mod 512)) [0..<pipe_len x]"

definition pipe_ok :: "pipe \<Rightarrow> bool" where
  "pipe_ok x \<longleftrightarrow> length (pi_data x) = 512 \<and> pipe_len x \<le> 512"

definition put1 :: "u8 \<Rightarrow> pipe \<Rightarrow> pipe" where
  "put1 b x = x\<lparr>pi_data := (pi_data x)[unat (pi_nwrite x mod PIPESIZE) := b], pi_nwrite := pi_nwrite x + 1\<rparr>"

lemma length_pq [simp]: "length (pq x) = pipe_len x"
  by (simp add: pq_def)

lemma counter_mod: "unat ((i + of_nat k) mod PIPESIZE) = (unat i + k) mod 512"
proof -
  have "unat ((i + of_nat k) mod PIPESIZE) = ((unat i + k mod 2 ^ 32) mod 2 ^ 32) mod 512"
    by (simp add: PIPESIZE_def unat_mod unat_word_ariths unat_of_nat)
  also have "\<dots> = (unat i + k mod 2 ^ 32) mod 512" by (rule mod_mod_cancel) simp
  also have "\<dots> = (unat i + k mod 2 ^ 32 mod 512) mod 512" by (metis mod_add_right_eq)
  also have "k mod 2 ^ 32 mod 512 = k mod 512" by (rule mod_mod_cancel) simp
  finally show ?thesis by (simp add: mod_simps)
qed

lemma nwrite_eq: "pi_nwrite x = pi_nread x + of_nat (pipe_len x)"
  by (simp add: pipe_len_def)

lemma pipe_full_iff: "pi_nwrite x = pi_nread x + PIPESIZE \<longleftrightarrow> pipe_len x = 512"
proof
  assume "pi_nwrite x = pi_nread x + PIPESIZE"
  then show "pipe_len x = 512" by (simp add: pipe_len_def PIPESIZE_def)
next
  assume "pipe_len x = 512"
  then show "pi_nwrite x = pi_nread x + PIPESIZE" using nwrite_eq [of x] by (simp add: PIPESIZE_def)
qed

lemma pipe_empty_iff: "pi_nread x = pi_nwrite x \<longleftrightarrow> pipe_len x = 0"
proof
  show "pi_nread x = pi_nwrite x \<Longrightarrow> pipe_len x = 0" by (simp add: pipe_len_def)
  show "pi_nread x = pi_nwrite x" if "pipe_len x = 0" using nwrite_eq [of x] unfolding that by simp
qed

lemma put1_len:
  assumes "pipe_len x < 512"
  shows "pipe_len (put1 b x) = Suc (pipe_len x)"
proof -
  have e: "pi_nwrite x + 1 - pi_nread x = of_nat (Suc (pipe_len x))" using nwrite_eq [of x] by simp
  have "pipe_len (put1 b x) = unat (pi_nwrite x + 1 - pi_nread x)" by (simp add: pipe_len_def put1_def)
  then have "pipe_len (put1 b x) = unat (of_nat (Suc (pipe_len x)) :: u32)" unfolding e .
  then show ?thesis using assms unat_of_nat32 [of "Suc (pipe_len x)"] by simp
qed

lemma pq_put1:
  assumes "pipe_ok x" "pipe_len x < 512"
  shows "pq (put1 b x) = pq x @ [b]" "pipe_ok (put1 b x)"
proof -
  let ?n = "pipe_len x" let ?r = "unat (pi_nread x)"
  have l: "length (pi_data x) = 512" using assms by (simp add: pipe_ok_def)
  have ix: "unat (pi_nwrite x mod PIPESIZE) = (?r + ?n) mod 512" by (subst nwrite_eq) (rule counter_mod)
  have d: "pi_data (put1 b x) = (pi_data x)[(?r + ?n) mod 512 := b]" "pi_nread (put1 b x) = pi_nread x"
    by (simp_all add: put1_def ix)
  have other: "(?r + j) mod 512 \<noteq> (?r + ?n) mod 512" if "j < ?n" for j
  proof
    assume "(?r + j) mod 512 = (?r + ?n) mod 512"
    then have "(?n - j) mod 512 = 0"
      using that by (metis mod_eq_dvd_iff_nat dvd_imp_mod_0 diff_cancel2 add.commute less_imp_le nat_add_left_cancel_le)
    then show False using that assms(2) by simp
  qed
  have "map (\<lambda>j. pi_data (put1 b x) ! ((?r + j) mod 512)) [0..<?n] = pq x"
    unfolding pq_def d using other by (intro map_cong refl) (metis atLeastLessThan_iff set_upt nth_list_update_neq)
  moreover have "pi_data (put1 b x) ! ((?r + ?n) mod 512) = b" unfolding d using l by simp
  ultimately show "pq (put1 b x) = pq x @ [b]"
    unfolding pq_def [of "put1 b x"] put1_len [OF assms(2)] d(2) by simp
  show "pipe_ok (put1 b x)" using assms l put1_len [OF assms(2)] by (simp add: pipe_ok_def d)
qed

lemma puts_ok: "pipe_ok x \<Longrightarrow> pipe_len x + length bs \<le> 512 \<Longrightarrow> pq (fold put1 bs x) = pq x @ bs \<and> pipe_ok (fold put1 bs x)"
proof (induction bs arbitrary: x)
  case (Cons b bs)
  have l: "pipe_len x < 512" using Cons.prems(2) by simp
  have "pipe_len (put1 b x) + length bs \<le> 512" using Cons.prems(2) put1_len [OF l, of b] by simp
  from Cons.IH [OF pq_put1(2) [OF Cons.prems(1) l] this] show ?case using pq_put1(1) [OF Cons.prems(1) l] by simp
qed simp

lemmas pq_puts = puts_ok [THEN conjunct1] puts_ok [THEN conjunct2]

lemma puts_len: "pipe_ok x \<Longrightarrow> pipe_len x + length bs \<le> 512 \<Longrightarrow> pipe_len (fold put1 bs x) = pipe_len x + length bs"
  using arg_cong [OF pq_puts(1), of x bs length] by simp

lemma puts_fields [simp]:
  "pi_nread (fold put1 bs x) = pi_nread x" "pi_readopen (fold put1 bs x) = pi_readopen x"
  "pi_writeopen (fold put1 bs x) = pi_writeopen x"
  by (induction bs arbitrary: x) (simp_all add: put1_def)

definition got :: "nat \<Rightarrow> pipe \<Rightarrow> pipe" where
  "got n x = x\<lparr>pi_nread := pi_nread x + of_nat n\<rparr>"

lemma got_simps [simp]: "pi_data (got n x) = pi_data x" "pi_nread (got n x) = pi_nread x + of_nat n" "pi_nwrite (got n x) = pi_nwrite x"
  "pi_readopen (got n x) = pi_readopen x" "pi_writeopen (got n x) = pi_writeopen x" "got 0 x = x"
  by (simp_all add: got_def)

lemma got_got: "got (Suc 0) (got n x) = got (Suc n) x"
  by (simp add: got_def)

lemma got_len:
  assumes "n \<le> pipe_len x"
  shows "pipe_len (got n x) = pipe_len x - n"
proof -
  have "pi_nwrite x - (pi_nread x + of_nat n) = of_nat (pipe_len x - n)"
    using nwrite_eq [of x] assms by (simp add: of_nat_diff)
  moreover have "pipe_len x - n < 2 ^ 32" using unsigned_less [of "pi_nwrite x - pi_nread x", where ?'a = nat] by (simp add: pipe_len_def)
  ultimately show ?thesis unfolding pipe_len_def [of "got n x"] by (simp add: got_def unat_of_nat32)
qed

lemma pq_got:
  assumes "n \<le> pipe_len x"
  shows "pq (got n x) = drop n (pq x)"
proof (rule nth_equalityI)
  show "length (pq (got n x)) = length (drop n (pq x))" using got_len [OF assms] by simp
  fix j assume "j < length (pq (got n x))"
  then have j: "j < pipe_len x - n" using got_len [OF assms] by simp
  have "(unat (pi_nread x + of_nat n) + j) mod 512 = (unat (pi_nread x) + (n + j)) mod 512"
    using counter_mod [of "pi_nread x + of_nat n" j] counter_mod [of "pi_nread x" "n + j"] by (simp add: add.assoc)
  moreover have "n + j < pipe_len x" using j by simp
  ultimately show "pq (got n x) ! j = drop n (pq x) ! j" using j assms
    by (simp add: pq_def got_len [OF assms])
qed

lemma pipe_ok_got: "pipe_ok x \<Longrightarrow> n \<le> pipe_len x \<Longrightarrow> pipe_ok (got n x)"
  by (auto simp: pipe_ok_def got_len)

lemma pq_head: "n < pipe_len x \<Longrightarrow> pi_data x ! unat (pi_nread (got n x) mod PIPESIZE) = pq x ! n"
  using counter_mod [of "pi_nread x" n] by (simp add: pq_def got_def)

section \<open>User buffers\<close>

definition uframe :: "'x kproc_scheme \<Rightarrow> u32 \<Rightarrow> nat \<Rightarrow> u32" where
  "uframe s a i = the (translate (mem s) (cr3 s) (a + of_nat i))"

definition frames :: "'x kproc_scheme \<Rightarrow> u32 \<Rightarrow> nat \<Rightarrow> u32 list" where
  "frames s a n = map (uframe s a) [0..<n]"

definition mapped :: "'x kproc_scheme \<Rightarrow> u32 \<Rightarrow> nat \<Rightarrow> bool" where
  "mapped s a n \<longleftrightarrow> (\<forall>i<n. translate (mem s) (cr3 s) (a + of_nat i) \<noteq> None)"

text \<open>The bytes a user program sees at \<open>a\<close>.\<close>

definition ubytes :: "'x kproc_scheme \<Rightarrow> u32 \<Rightarrow> nat \<Rightarrow> u8 list" where
  "ubytes s a n = map (mem s) (frames s a n)"

text \<open>A buffer the kernel can write without touching a page table: its bytes lie at different
  addresses, and no contents of it change where it lies.\<close>

definition user_buffer :: "'x kproc_scheme \<Rightarrow> u32 \<Rightarrow> nat \<Rightarrow> bool" where
  "user_buffer s a n \<longleftrightarrow> mapped s a n \<and> distinct (frames s a n) \<and>
     (\<forall>m. (\<forall>x. x \<notin> set (frames s a n) \<longrightarrow> m x = mem s x) \<longrightarrow>
       (\<forall>i<n. translate m (cr3 s) (a + of_nat i) = translate (mem s) (cr3 s) (a + of_nat i)))"

definition poke :: "(u32 \<times> u8) list \<Rightarrow> memory \<Rightarrow> memory" where
  "poke wr m = fold (\<lambda>(a, b) m. m(a := b)) wr m"

lemma poke_other: "x \<notin> fst ` set wr \<Longrightarrow> poke wr m x = m x"
  unfolding poke_def by (induction wr arbitrary: m) auto

lemma poke_nth:
  assumes "distinct (map fst wr)" "i < length wr"
  shows "poke wr m (fst (wr ! i)) = snd (wr ! i)"
  using assms
proof (induction wr arbitrary: m i)
  case (Cons ab wr)
  obtain a b where ab: "ab = (a, b)" by (cases ab)
  show ?case
  proof (cases i)
    case 0
    have "a \<notin> fst ` set wr" using Cons.prems(1) ab by simp
    then have "poke wr (m(a := b)) a = b" using poke_other [of a wr "m(a := b)"] by simp
    then show ?thesis using 0 by (simp add: poke_def ab)
  next
    case (Suc j)
    have "poke wr (m(a := b)) (fst (wr ! j)) = snd (wr ! j)" using Cons Suc by (intro Cons.IH) auto
    then show ?thesis using Suc by (simp add: poke_def ab)
  qed
qed simp

lemma poke_snoc: "poke (wr @ [(a, b)]) m = (poke wr m)(a := b)"
  by (simp add: poke_def)

lemma length_frames [simp]: "length (frames s a n) = n"
  by (simp add: frames_def)

lemma nth_frames [simp]: "i < n \<Longrightarrow> frames s a n ! i = uframe s a i"
  by (simp add: frames_def)

lemma mapped_nth: "mapped s a n \<Longrightarrow> i < n \<Longrightarrow> translate (mem s) (cr3 s) (a + of_nat i) = Some (uframe s a i)"
  by (auto simp: mapped_def uframe_def)

lemma vload_eq: "mapped s a n \<Longrightarrow> i < n \<Longrightarrow> vload (a + of_nat i) s = Ok (ubytes s a n ! i) s"
  using mapped_nth [of s a n i] by (simp add: vload_def kdo_def kop_defs ubytes_def)

lemma vstore_eq:
  assumes "user_buffer s a n" "i < n" "cr3 t = cr3 s" "\<And>x. x \<notin> set (frames s a n) \<Longrightarrow> mem t x = mem s x"
  shows "vstore (a + of_nat i) b t = Ok () (t\<lparr>mem := (mem t)(uframe s a i := b)\<rparr>)"
proof -
  have "translate (mem t) (cr3 s) (a + of_nat i) = translate (mem s) (cr3 s) (a + of_nat i)"
    using assms unfolding user_buffer_def by blast
  moreover have "mapped s a n" using assms(1) unfolding user_buffer_def by blast
  then have "translate (mem s) (cr3 s) (a + of_nat i) = Some (uframe s a i)" using assms(2) by (rule mapped_nth)
  ultimately show ?thesis using assms(3) by (simp add: vstore_def kdo_def kop_defs)
qed

lemma mapped_le: "mapped s a n \<Longrightarrow> m \<le> n \<Longrightarrow> mapped s a m"
  by (simp add: mapped_def)

lemma ubytes_take: "m \<le> n \<Longrightarrow> take m (ubytes s a n) = ubytes s a m"
  by (simp add: ubytes_def frames_def take_map)

lemma ubytes_Suc: "j < n \<Longrightarrow> ubytes s a (Suc j) = ubytes s a j @ [ubytes s a n ! j]"
  by (simp add: ubytes_def frames_def)

lemma length_ubytes [simp]: "length (ubytes s a n) = n"
  by (simp add: ubytes_def)

section \<open>Writing\<close>

lemma ubytes_pipe [simp]: "ubytes (upd_pipe p g s) a n = ubytes s a n" "mapped (upd_pipe p g s) a n = mapped s a n"
  by (simp_all add: ubytes_def frames_def uframe_def mapped_def upd_pipe_def)

lemma upd_pipe_sel [simp]: "pipes (upd_pipe p g s) p = g (pipes s p)" "q \<noteq> p \<Longrightarrow> pipes (upd_pipe p g s) q = pipes s q"
  "procs (upd_pipe p g s) = procs s" "held (upd_pipe p g s) = held s" "cpu_proc (upd_pipe p g s) = cpu_proc s"
  "mem (upd_pipe p g s) = mem s" "cr3 (upd_pipe p g s) = cr3 s"
  by (simp_all add: upd_pipe_def)

lemma upd_pipe_upd_pipe: "upd_pipe p g (upd_pipe p f s) = upd_pipe p (\<lambda>x. g (f x)) s"
  by (simp add: upd_pipe_def)

lemma upd_pipe_id: "g (pipes s p) = pipes s p \<Longrightarrow> upd_pipe p g s = s"
  by (simp add: upd_pipe_def)

lemma pipewrite_loop_step:
  assumes "pipe_len (pipes s p) \<noteq> 512" "vload a s = Ok b s"
  shows "pipewrite_loop (Suc k) p a s = pipewrite_loop k p (a + 1) (upd_pipe p (put1 b) s)"
proof -
  have "put1 b = (\<lambda>x. x\<lparr>pi_data := (pi_data x)[unat (pi_nwrite x mod PIPESIZE) := b], pi_nwrite := pi_nwrite x + 1\<rparr>)"
    by (rule ext) (simp add: put1_def)
  then show ?thesis using assms pipe_full_iff [of "pipes s p"] by (simp add: kdo_def kop_defs)
qed

text \<open>As long as there is room, each iteration moves one byte.\<close>

lemma pipewrite_loop_moves:
  assumes "mapped s a k" "pipe_ok (pipes s p)" "j \<le> k" "pipe_len (pipes s p) + j \<le> 512"
  shows "pipewrite_loop k p a s = pipewrite_loop (k - j) p (a + of_nat j) (upd_pipe p (fold put1 (ubytes s a j)) s)"
  using assms(3,4)
proof (induction j)
  case 0
  then show ?case by (simp add: ubytes_def frames_def upd_pipe_id)
next
  case (Suc j)
  let ?t = "upd_pipe p (fold put1 (ubytes s a j)) s"
  have k: "k - j = Suc (k - Suc j)" using Suc.prems by simp
  have l: "pipe_len (pipes ?t p) = pipe_len (pipes s p) + j"
    using puts_len [OF assms(2), of "ubytes s a j"] Suc.prems by simp
  have v: "vload (a + of_nat j) ?t = Ok (ubytes s a k ! j) ?t" using vload_eq [of ?t a k j] assms(1) Suc.prems by simp
  have b: "ubytes s a (Suc j) = ubytes s a j @ [ubytes s a k ! j]" using Suc.prems by (simp add: ubytes_Suc)
  have u: "upd_pipe p (put1 (ubytes s a k ! j)) ?t = upd_pipe p (fold put1 (ubytes s a (Suc j))) s"
    unfolding upd_pipe_upd_pipe b by (simp add: upd_pipe_def)
  have "pipewrite_loop k p a s = pipewrite_loop (Suc (k - Suc j)) p (a + of_nat j) ?t"
    using Suc.IH Suc.prems unfolding k by (simp del: pipewrite_loop.simps)
  also have "\<dots> = pipewrite_loop (k - Suc j) p (a + of_nat j + 1) (upd_pipe p (fold put1 (ubytes s a (Suc j))) s)"
    unfolding u [symmetric] by (rule pipewrite_loop_step) (use l v Suc.prems in simp_all)
  finally show ?case by (simp add: add.assoc add.commute [of 1])
qed

text \<open>The loop in one equation: \<open>j\<close> is the number of bytes that fit.\<close>

lemma pipewrite_loop_all:
  assumes "mapped s a k" "pipe_ok (pipes s p)" "pipe_len (pipes s p) + k \<le> 512"
  shows "pipewrite_loop k p a s = Ok True (upd_pipe p (fold put1 (ubytes s a k)) s)"
  using pipewrite_loop_moves [OF assms(1,2), of k] assms(3) by (simp add: kret_def)

lemma puts_full:
  assumes "pipe_ok x" "j = 512 - pipe_len x"
  shows "pipe_len (fold put1 (ubytes s a j) x) = 512"
  using puts_len [OF assms(1), of "ubytes s a j"] assms by (simp add: pipe_ok_def)

lemma pipewrite_loop_stuck:
  assumes "mapped s a k" "pipe_ok (pipes s p)" "pipe_len (pipes s p) + k > 512" "j = 512 - pipe_len (pipes s p)"
    and "cpu_proc s = Some c" "L_pipe (unat p) \<in> set (held s)"
    and "\<not> pi_readopen (pipes s p) \<or> p_killed (procs s ! c)"
  shows "pipewrite_loop k p a s = Ok False ((upd_pipe p (fold put1 (ubytes s a j)) s)\<lparr>held := remove1 (L_pipe (unat p)) (held s)\<rparr>)"
proof -
  let ?t = "upd_pipe p (fold put1 (ubytes s a j)) s"
  have j: "pipe_len (pipes s p) + j = 512" "j < k" using assms(2,3,4) by (auto simp: pipe_ok_def)
  obtain k' where k: "k - j = Suc k'" using j(2) by (metis Suc_diff_Suc)
  have f: "pi_nwrite (fold put1 (ubytes s a j) (pipes s p)) = pi_nread (pipes s p) + PIPESIZE"
    using puts_full [OF assms(2,4), of s a] pipe_full_iff [of "fold put1 (ubytes s a j) (pipes s p)"] by simp
  have "pipewrite_loop k p a s = pipewrite_loop (Suc k') p (a + of_nat j) ?t"
    using pipewrite_loop_moves [OF assms(1,2), of j] j k by simp
  also have "\<dots> = Ok False (?t\<lparr>held := remove1 (L_pipe (unat p)) (held s)\<rparr>)"
    unfolding pipewrite_loop.simps using f assms(5-7) by (auto simp: kdo_def kop_defs curproc_Some release_lk_def)
  finally show ?thesis .
qed

text \<open>The state in which a writer sleeps: everything that fits is in the pipe, and readers are awake.\<close>

definition write_sleeps :: "nat \<Rightarrow> u32 \<Rightarrow> u8 list \<Rightarrow> 'x kfile_scheme \<Rightarrow> 'x kfile_scheme" where
  "write_sleeps c p bs s = (upd_pipe p (fold put1 bs) s)\<lparr>held := [L_ptable],
     procs := (woken (Some (CPipeR (unat p))) (procs s))
       [c := (woken (Some (CPipeR (unat p))) (procs s) ! c)\<lparr>p_chan := Some (CPipeW (unat p)), p_state := SLEEPING\<rparr>]\<rparr>"

lemma pipewrite_loop_sleeps:
  assumes "mapped s a k" "pipe_ok (pipes s p)" "pipe_len (pipes s p) + k > 512" "j = 512 - pipe_len (pipes s p)"
    and "cpu_proc s = Some c" "c < NPROC" "length (procs s) = NPROC" "held s = [L_pipe (unat p)]"
    and "pi_readopen (pipes s p)" "\<not> p_killed (procs s ! c)"
  shows "pipewrite_loop k p a s = Suspend (write_sleeps c p (ubytes s a j) s)"
proof -
  let ?t = "upd_pipe p (fold put1 (ubytes s a j)) s"
  have j: "pipe_len (pipes s p) + j = 512" "j < k" using assms(2,3,4) by (auto simp: pipe_ok_def)
  obtain k' where k: "k - j = Suc k'" using j(2) by (metis Suc_diff_Suc)
  have f: "pi_nwrite (fold put1 (ubytes s a j) (pipes s p)) = pi_nread (pipes s p) + PIPESIZE"
    using puts_full [OF assms(2,4), of s a] pipe_full_iff [of "fold put1 (ubytes s a j) (pipes s p)"] by simp
  let ?w = "?t\<lparr>procs := woken (Some (CPipeR (unat p))) (procs ?t)\<rparr>"
  have w: "wakeup (CPipeR (unat p)) ?t = Ok () ?w" by (rule wakeup_eq) (use assms in simp_all)
  have sl: "sleep (CPipeW (unat p)) (Some (L_pipe (unat p))) ?w = Suspend (write_sleeps c p (ubytes s a j) s)"
    by (subst sleep_suspends [where i = c]) (use assms in \<open>simp_all add: write_sleeps_def upd_proc_def upd_pipe_def\<close>)
  have "pipewrite_loop k p a s = pipewrite_loop (Suc k') p (a + of_nat j) ?t"
    using pipewrite_loop_moves [OF assms(1,2), of j] j k by simp
  also have "\<dots> = Suspend (write_sleeps c p (ubytes s a j) s)"
    unfolding pipewrite_loop.simps using f assms(5,9,10) w sl by (simp add: kdo_def kop_defs curproc_Some)
  finally show ?thesis .
qed

section \<open>Reading\<close>

definition read_state :: "u32 \<Rightarrow> u32 \<Rightarrow> nat \<Rightarrow> 'x kfile_scheme \<Rightarrow> 'x kfile_scheme" where
  "read_state p a j s = (upd_pipe p (got j) s)\<lparr>mem := poke (map (\<lambda>i. (uframe s a i, pq (pipes s p) ! i)) [0..<j]) (mem s)\<rparr>"

lemma read_state_sel [simp]:
  "procs (read_state p a j s) = procs s" "held (read_state p a j s) = held s" "cpu_proc (read_state p a j s) = cpu_proc s"
  "cr3 (read_state p a j s) = cr3 s" "pipes (read_state p a j s) p = got j (pipes s p)"
  "q \<noteq> p \<Longrightarrow> pipes (read_state p a j s) q = pipes s q"
  by (simp_all add: read_state_def)

lemma set_frames_le: "j \<le> n \<Longrightarrow> set (frames s a j) \<subseteq> set (frames s a n)"
  by (auto simp: frames_def)

lemma read_state_other: "x \<notin> set (frames s a j) \<Longrightarrow> mem (read_state p a j s) x = mem s x"
  unfolding read_state_def by (simp, rule poke_other) (auto simp: frames_def)

lemma read_state_Suc:
  assumes "t = upd_pipe p (got 1) (read_state p a j s)"
  shows "read_state p a (Suc j) s = t\<lparr>mem := (mem t)(uframe s a j := pq (pipes s p) ! j)\<rparr>"
  using assms by (simp add: read_state_def poke_snoc upd_pipe_def got_got)

lemma piperead_copy_step:
  assumes "pipe_len (pipes t p) \<noteq> 0"
    and "vstore a (pi_data (pipes t p) ! unat (pi_nread (pipes t p) mod PIPESIZE)) (upd_pipe p (got 1) t) = Ok () u"
  shows "piperead_copy (Suc k) p a i t = piperead_copy k p (a + 1) (i + 1) u"
proof -
  have "got 1 = (\<lambda>x. x\<lparr>pi_nread := pi_nread x + 1\<rparr>)" by (rule ext) (simp add: got_def)
  then show ?thesis using assms pipe_empty_iff [of "pipes t p"] by (simp add: kdo_def kop_defs)
qed

lemma piperead_copy_moves:
  assumes "user_buffer s a k" "j \<le> k" "j \<le> pipe_len (pipes s p)"
  shows "piperead_copy k p a i s = piperead_copy (k - j) p (a + of_nat j) (i + j) (read_state p a j s)"
  using assms(2,3)
proof (induction j)
  case 0
  then show ?case by (simp add: read_state_def upd_pipe_id poke_def)
next
  case (Suc j)
  let ?x = "pipes s p" let ?t = "read_state p a j s" let ?u = "upd_pipe p (got 1) ?t"
  have k: "k - j = Suc (k - Suc j)" using Suc.prems by simp
  have b: "pi_data (pipes ?t p) ! unat (pi_nread (pipes ?t p) mod PIPESIZE) = pq ?x ! j"
    using pq_head [of j ?x] Suc.prems by simp
  have "vstore (a + of_nat j) (pq ?x ! j) ?u = Ok () (?u\<lparr>mem := (mem ?u)(uframe s a j := pq ?x ! j)\<rparr>)"
    using Suc.prems set_frames_le [of j k s a] read_state_other [of _ s a j p] by (intro vstore_eq [OF assms(1)]) auto
  then have v: "vstore (a + of_nat j) (pq ?x ! j) ?u = Ok () (read_state p a (Suc j) s)"
    unfolding read_state_Suc [OF refl] .
  have "piperead_copy k p a i s = piperead_copy (Suc (k - Suc j)) p (a + of_nat j) (i + j) ?t"
    using Suc.IH Suc.prems unfolding k by (simp del: piperead_copy.simps)
  also have "\<dots> = piperead_copy (k - Suc j) p (a + of_nat j + 1) (i + j + 1) (read_state p a (Suc j) s)"
    using Suc.prems v unfolding b [symmetric] by (intro piperead_copy_step) (simp_all add: got_len)
  finally show ?case by (simp add: add.assoc add.commute [of 1])
qed

lemma piperead_copy_all:
  assumes "user_buffer s a k" "j = min k (pipe_len (pipes s p))"
  shows "piperead_copy k p a 0 s = Ok j (read_state p a j s)"
proof -
  have "piperead_copy (k - j) p (a + of_nat j) j (read_state p a j s) = Ok j (read_state p a j s)"
  proof (cases "k - j")
    case (Suc k')
    then have "j = pipe_len (pipes s p)" using assms(2) by (simp add: min_def split: if_splits)
    then have "pi_nread (pipes (read_state p a j s) p) = pi_nwrite (pipes (read_state p a j s) p)"
      unfolding pipe_empty_iff by (simp add: got_len)
    then show ?thesis unfolding Suc by (simp add: kdo_def kop_defs)
  qed (simp add: kret_def)
  then show ?thesis using piperead_copy_moves [OF assms(1), of j p 0] assms(2) by simp
qed

text \<open>What the reader finds in its buffer.\<close>

lemma user_bufferD:
  assumes "user_buffer s a n" "i < n" "cr3 t = cr3 s" "\<And>x. x \<notin> set (frames s a n) \<Longrightarrow> mem t x = mem s x"
  shows "uframe t a i = uframe s a i"
  using assms unfolding user_buffer_def uframe_def by metis

lemma ubytes_read_state:
  assumes "user_buffer s a n" "j \<le> n" "j \<le> pipe_len (pipes s p)"
  shows "ubytes (read_state p a j s) a j = take j (pq (pipes s p))"
proof (rule nth_equalityI)
  let ?w = "map (\<lambda>i. (uframe s a i, pq (pipes s p) ! i)) [0..<j]"
  fix i assume "i < length (ubytes (read_state p a j s) a j)"
  then have i: "i < j" by simp
  have f: "uframe (read_state p a j s) a i = uframe s a i"
    using i assms(2) set_frames_le [OF assms(2), of s a] by (intro user_bufferD [OF assms(1)] read_state_other) auto
  have "distinct (frames s a j)" using assms(1,2) unfolding user_buffer_def
    by (metis (no_types, lifting) frames_def distinct_take take_map take_upt add_0 le_add_same_cancel1 zero_le)
  then have d: "distinct (map fst ?w)" by (simp add: frames_def comp_def)
  have "poke ?w (mem s) (uframe s a i) = pq (pipes s p) ! i" using poke_nth [OF d, of i "mem s"] i by simp
  then show "ubytes (read_state p a j s) a j ! i = take j (pq (pipes s p)) ! i"
    using i f by (simp add: ubytes_def) (simp add: read_state_def)
qed (use assms in simp)

section \<open>The operations\<close>

lemma user_cong:
  assumes "mem t = mem s" "cr3 t = cr3 s"
  shows "uframe t = uframe s" "frames t = frames s" "mapped t = mapped s" "ubytes t = ubytes s" "user_buffer t = user_buffer s"
proof -
  show 1: "uframe t = uframe s" by (intro ext) (simp add: uframe_def assms)
  show 2: "frames t = frames s" by (intro ext) (simp add: frames_def 1)
  show 3: "mapped t = mapped s" by (intro ext) (simp add: mapped_def assms)
  show "ubytes t = ubytes s" by (intro ext) (simp add: ubytes_def 2 assms)
  show "user_buffer t = user_buffer s" by (intro ext) (simp only: user_buffer_def 2 3 assms)
qed

lemma user_irrelevant [simp]:
  "ubytes (s\<lparr>procs := ps\<rparr>) = ubytes s" "ubytes (s\<lparr>held := hs\<rparr>) = ubytes s"
  "frames (s\<lparr>held := hs\<rparr>) = frames s" "user_buffer (s\<lparr>held := hs\<rparr>) = user_buffer s"
  by (rule user_cong; simp)+

lemma pipewrite_returns:
  assumes "kthread s" "mapped s a n" "pipe_ok (pipes s p)" "pipe_len (pipes s p) + n \<le> 512"
  shows "pipewrite p a (int n) s =
     Ok (int n) ((upd_pipe p (fold put1 (ubytes s a n)) s)\<lparr>procs := woken (Some (CPipeR (unat p))) (procs s)\<rparr>)"
proof -
  let ?s = "s\<lparr>held := [L_pipe (unat p)]\<rparr>"
  have h: "held s = []" "length (procs s) = NPROC" using assms(1) by (auto simp: kthread_def)
  have c: "mapped ?s = mapped s" "ubytes ?s = ubytes s" by (rule user_cong; simp)+
  have l: "pipewrite_loop n p a ?s = Ok True (upd_pipe p (fold put1 (ubytes s a n)) ?s)"
    using pipewrite_loop_all [of ?s a n p] assms c by simp
  have w: "wakeup (CPipeR (unat p)) (upd_pipe p (fold put1 (ubytes s a n)) ?s) =
      Ok () ((upd_pipe p (fold put1 (ubytes s a n)) ?s)\<lparr>procs := woken (Some (CPipeR (unat p))) (procs s)\<rparr>)"
    by (subst wakeup_eq) (simp_all add: h)
  show ?thesis using h l w
    by (simp add: pipewrite_def pipewrite_done_def kdo_def acquire_lk_def release_lk_def kret_def upd_pipe_def)
qed

lemma pipewrite_suspends:
  assumes "kthread s" "cpu_proc s = Some c" "mapped s a n" "pipe_ok (pipes s p)" "pipe_len (pipes s p) + n > 512"
    and "pi_readopen (pipes s p)" "\<not> p_killed (procs s ! c)" "j = 512 - pipe_len (pipes s p)"
  shows "pipewrite p a (int n) s = Suspend (write_sleeps c p (ubytes s a j) s)"
proof -
  let ?s = "s\<lparr>held := [L_pipe (unat p)]\<rparr>"
  have h: "held s = []" "length (procs s) = NPROC" "c < NPROC" using assms(1,2) by (auto simp: kthread_def)
  have c: "mapped ?s = mapped s" "ubytes ?s = ubytes s" by (rule user_cong; simp)+
  have "pipewrite_loop n p a ?s = Suspend (write_sleeps c p (ubytes s a j) ?s)"
    using pipewrite_loop_sleeps [of ?s a n p j c] assms c h by simp
  moreover have "write_sleeps c p (ubytes s a j) ?s = write_sleeps c p (ubytes s a j) s"
    by (simp add: write_sleeps_def upd_pipe_def)
  ultimately show ?thesis using h by (simp add: pipewrite_def kdo_def acquire_lk_def)
qed

lemma piperead_returns:
  assumes "kthread s" "user_buffer s a k" "0 < pipe_len (pipes s p) \<or> \<not> pi_writeopen (pipes s p)"
    and "j = min k (pipe_len (pipes s p))"
  shows "piperead p a (int k) s = Ok (int j) ((read_state p a j s)\<lparr>procs := woken (Some (CPipeW (unat p))) (procs s)\<rparr>)"
proof -
  let ?s = "s\<lparr>held := [L_pipe (unat p)]\<rparr>"
  have h: "held s = []" "length (procs s) = NPROC" using assms(1) by (auto simp: kthread_def)
  have c: "user_buffer ?s = user_buffer s" "uframe ?s = uframe s" by (rule user_cong; simp)+
  have r: "read_state p a j ?s = (read_state p a j s)\<lparr>held := [L_pipe (unat p)]\<rparr>"
    by (simp add: read_state_def c upd_pipe_def)
  have l: "piperead_copy k p a 0 ?s = Ok j (read_state p a j ?s)"
    using piperead_copy_all [of ?s a k j p] assms c by simp
  have w: "wakeup (CPipeW (unat p)) (read_state p a j ?s) =
      Ok () ((read_state p a j ?s)\<lparr>procs := woken (Some (CPipeW (unat p))) (procs s)\<rparr>)"
    by (subst wakeup_eq) (simp_all add: h)
  have e: "\<not> (pi_nread (pipes s p) = pi_nwrite (pipes s p) \<and> pi_writeopen (pipes s p))"
    using assms(3) pipe_empty_iff [of "pipes s p"] by auto
  have "(read_state p a j s)\<lparr>held := [L_pipe (unat p)], procs := woken (Some (CPipeW (unat p))) (procs s), held := []\<rparr> =
      (read_state p a j s)\<lparr>procs := woken (Some (CPipeW (unat p))) (procs s)\<rparr>"
    by (simp add: read_state_def upd_pipe_def h)
  then show ?thesis using h l w e unfolding r
    by (auto simp: piperead_def piperead_loop_def kdo_def kop_defs acquire_lk_def release_lk_def)
qed

text \<open>A writer comes back from \<^verbatim>\<open>sleep\<close> with \<^verbatim>\<open>ptable.lock\<close> held.\<close>

lemma pipewrite_resumes:
  assumes "held s = [L_ptable]" "length (procs s) = NPROC" "cpu_proc s = Some c"
    and "mapped s (a + of_nat j) (n - j)" "pipe_ok (pipes s p)" "pipe_len (pipes s p) + (n - j) \<le> 512"
  shows "runs (pipewrite_resume p a (int n) j) s (\<lambda>r t. r = int n \<and> held t = [] \<and>
    pipes t = (pipes s)(p := fold put1 (ubytes s (a + of_nat j) (n - j)) (pipes s p)))"
proof -
  let ?s = "(upd_proc c (\<lambda>p. p\<lparr>p_chan := None\<rparr>) s)\<lparr>held := [L_pipe (unat p)]\<rparr>"
  have c: "mapped ?s = mapped s" "ubytes ?s = ubytes s" by (rule user_cong; simp add: upd_proc_def)+
  have p: "pipes ?s = pipes s" "length (procs ?s) = NPROC" using assms(2) by (simp_all add: upd_proc_def)
  have r: "sleep_resume (Some (L_pipe (unat p))) s = Ok () ?s"
    using assms(1,3) by (simp add: sleep_resume_def curproc_Some kdo_def kop_defs release_lk_def acquire_lk_def upd_proc_def)
  have l: "pipewrite_loop (n - j) p (a + of_nat j) ?s = Ok True (upd_pipe p (fold put1 (ubytes s (a + of_nat j) (n - j))) ?s)"
    using pipewrite_loop_all [of ?s "a + of_nat j" "n - j" p] assms c p by simp
  have w: "wakeup (CPipeR (unat p)) (upd_pipe p g ?s) =
      Ok () ((upd_pipe p g ?s)\<lparr>procs := woken (Some (CPipeR (unat p))) (procs ?s)\<rparr>)" for g
    by (subst wakeup_eq) (use p in simp_all)
  have "pipewrite_resume p a (int n) j s = pipewrite_done p (int n) True (upd_pipe p (fold put1 (ubytes s (a + of_nat j) (n - j))) ?s)"
    using r l by (simp add: pipewrite_resume_def kdo_def del: of_nat_diff)
  also have "\<dots> = Ok (int n) ((upd_pipe p (fold put1 (ubytes s (a + of_nat j) (n - j))) ?s)
      \<lparr>procs := woken (Some (CPipeR (unat p))) (procs ?s), held := []\<rparr>)"
    unfolding pipewrite_done_def using w [of "fold put1 (ubytes s (a + of_nat j) (n - j))"] by (simp add: kdo_def release_lk_def kret_def)
  finally show ?thesis using p(1) by (simp add: runs_def upd_pipe_def)
qed

text \<open>The scheduler's switch to process \<open>c\<close>, as \<^verbatim>\<open>scheduler\<close> makes it.\<close>

definition dispatched :: "nat \<Rightarrow> 'x kfile_scheme \<Rightarrow> 'x kfile_scheme" where
  "dispatched c s = (upd_proc c (\<lambda>p. p\<lparr>p_state := RUNNING\<rparr>) s)
     \<lparr>held := [L_ptable], cpu_proc := Some c, ts_esp0 := p_kstack (procs s ! c) + KSTACKSIZE, cr3 := V2P (p_pgdir (procs s ! c))\<rparr>"

lemma scheduler_dispatches:
  assumes "held s = [L_ptable]" "scan_runnable i (procs s) = Some c" "p_kstack (procs s ! c) \<noteq> 0" "p_pgdir (procs s ! c) \<noteq> 0"
  shows "scheduler_scan i s = Ok (Some c) (dispatched c s)"
  using assms by (simp add: scheduler_scan_def switchuvm_def kdo_def kop_defs dispatched_def upd_proc_def)

lemma dispatched_sel [simp]:
  "held (dispatched c s) = [L_ptable]" "cpu_proc (dispatched c s) = Some c" "length (procs (dispatched c s)) = length (procs s)"
  "pipes (dispatched c s) = pipes s" "mem (dispatched c s) = mem s" "cr3 (dispatched c s) = V2P (p_pgdir (procs s ! c))"
  by (simp_all add: dispatched_def upd_proc_def)

lemma write_sleeps_sel:
  assumes "length (procs s) = NPROC" "c < NPROC"
  shows "length (procs (write_sleeps c p bs s)) = NPROC" "pipes (write_sleeps c p bs s) p = fold put1 bs (pipes s p)"
    "mem (write_sleeps c p bs s) = mem s" "p_state (procs (write_sleeps c p bs s) ! c) = SLEEPING"
    "p_chan (procs (write_sleeps c p bs s) ! c) = Some (CPipeW (unat p))"
    "i < NPROC \<Longrightarrow> p_pgdir (procs (write_sleeps c p bs s) ! i) = p_pgdir (procs s ! i)"
  using assms by (auto simp: write_sleeps_def upd_pipe_def nth_list_update nth_woken)

lemma ubytes_split: "j \<le> n \<Longrightarrow> ubytes s a n = ubytes s a j @ ubytes s (a + of_nat j) (n - j)"
proof -
  assume j: "j \<le> n"
  have f: "uframe s (a + of_nat j) i = uframe s a (i + j)" for i by (simp add: uframe_def algebra_simps)
  have "[0..<n] = [0..<j] @ map (\<lambda>i. i + j) [0..<n - j]" using j upt_add_eq_append [of 0 j "n - j"] by (simp add: map_add_upt)
  then show ?thesis by (simp add: ubytes_def frames_def f comp_def)
qed

lemma ubytes_drop: "j \<le> n \<Longrightarrow> ubytes s (a + of_nat j) (n - j) = drop j (ubytes s a n)"
  using ubytes_split [of j n s a] by simp

lemma mapped_split: "j \<le> n \<Longrightarrow> mapped s a n \<Longrightarrow> mapped s (a + of_nat j) (n - j)"
  unfolding mapped_def
proof (intro allI impI)
  fix i assume a: "j \<le> n" "\<forall>i<n. translate (mem s) (cr3 s) (a + word_of_nat i) \<noteq> None" "i < n - j"
  then have "translate (mem s) (cr3 s) (a + word_of_nat (j + i)) \<noteq> None" by (metis add.commute less_diff_conv)
  then show "translate (mem s) (cr3 s) (a + word_of_nat j + word_of_nat i) \<noteq> None" by (simp add: add.assoc)
qed

section \<open>Properties\<close>

text \<open>
  C31. Pipes are first-in first-out. \<open>n\<close> bytes written to a pipe with room for them are all taken; a
  read of up to \<open>k\<close> bytes then returns, in order, the bytes that were in the pipe and after them those
  just written, puts exactly these into the reader's buffer, and leaves the rest in the pipe; other
  pipes are not touched. A read finds the end of the file only when the pipe is empty and no
  descriptor for writing is open.
\<close>

theorem pipe_fifo:
  assumes "kthread s" "pipe_ok (pipes s p)" "mapped s a n" "user_buffer s b k" "pipe_len (pipes s p) + n \<le> 512"
    and "pi_writeopen (pipes s p) \<longrightarrow> 0 < pipe_len (pipes s p) + n"
  shows "runs (kdo (pipewrite p a (int n)) (\<lambda>_. piperead p b (int k))) s (\<lambda>r t.
     r = int (min k (length (pq (pipes s p) @ ubytes s a n))) \<and>
     ubytes t b (nat r) = take k (pq (pipes s p) @ ubytes s a n) \<and>
     pq (pipes t p) = drop k (pq (pipes s p) @ ubytes s a n) \<and> pipe_ok (pipes t p) \<and>
     (\<forall>q. q \<noteq> p \<longrightarrow> pipes t q = pipes s q))"
proof -
  let ?x = "fold put1 (ubytes s a n) (pipes s p)"
  let ?w = "(upd_pipe p (fold put1 (ubytes s a n)) s)\<lparr>procs := woken (Some (CPipeR (unat p))) (procs s)\<rparr>"
  let ?j = "min k (pipe_len ?x)"
  have w: "pipewrite p a (int n) s = Ok (int n) ?w" by (rule pipewrite_returns [OF assms(1,3,2,5)])
  have x: "pq ?x = pq (pipes s p) @ ubytes s a n" "pipe_ok ?x" "pipe_len ?x = pipe_len (pipes s p) + n"
    using pq_puts [OF assms(2), of "ubytes s a n"] puts_len [OF assms(2), of "ubytes s a n"] assms(5) by simp_all
  have px: "pipes ?w p = ?x" by (simp add: upd_pipe_def)
  have ub: "user_buffer ?w b k" using user_cong(5) [of ?w s] assms(4) by (simp add: upd_pipe_def)
  have th: "kthread ?w" using assms(1) by (auto simp: kthread_def upd_pipe_def)
  have r: "piperead p b (int k) ?w = Ok (int ?j) ((read_state p b ?j ?w)\<lparr>procs := woken (Some (CPipeW (unat p))) (procs ?w)\<rparr>)"
    by (rule piperead_returns [OF th ub]) (use assms(6) x(3) px in auto)
  let ?t = "(read_state p b ?j ?w)\<lparr>procs := woken (Some (CPipeW (unat p))) (procs ?w)\<rparr>"
  have "ubytes ?t b ?j = ubytes (read_state p b ?j ?w) b ?j" by simp
  also have "\<dots> = take ?j (pq ?x)" using ubytes_read_state [OF ub, of ?j p] px by simp
  also have "\<dots> = take k (pq ?x)" by (cases "k \<le> pipe_len ?x") (simp_all add: min_def)
  finally have u: "ubytes ?t b ?j = take k (pq ?x)" .
  have d: "pq (got ?j ?x) = drop k (pq ?x)" "pipe_ok (got ?j ?x)"
    using pq_got [of ?j ?x] pipe_ok_got [OF x(2), of ?j] by (auto simp: min_def)
  have "pipes ?t p = got ?j ?x" "q \<noteq> p \<Longrightarrow> pipes ?t q = pipes s q" for q using px by (simp_all add: read_state_def upd_pipe_def)
  then show ?thesis using w r u d x(1,3) by (simp add: runs_def kdo_def)
qed

text \<open>
  C32. Writers do not get stuck. A write of more bytes than there is room for fills the pipe and sleeps.
  A read of \<open>k\<close> bytes by another process makes the writer runnable, and when the scheduler switches
  back to it and \<open>k\<close> bytes were enough the write completes: what was read followed by what is left in the
  pipe is what was in the pipe at the start followed by every byte of the write, in order.
\<close>

theorem pipe_writer_progress:
  assumes "kthread s" "cpu_proc s = Some c" "cr3 s = V2P (p_pgdir (procs s ! c))" "pipe_ok (pipes s p)"
    and "pi_readopen (pipes s p)" "\<not> p_killed (procs s ! c)" "mapped s a n"
    and "512 < pipe_len (pipes s p) + n" "pipe_len (pipes s p) + n \<le> 512 + k" "k \<le> 512"
    and "d < NPROC" "d \<noteq> c" "w = write_sleeps c p (ubytes s a (512 - pipe_len (pipes s p))) s"
    and "user_buffer (dispatched d w) b k"
    and "\<And>m. (\<forall>x. x \<notin> set (frames (dispatched d w) b k) \<longrightarrow> m x = mem s x) \<Longrightarrow>
       mapped (s\<lparr>mem := m\<rparr>) a n \<and> ubytes (s\<lparr>mem := m\<rparr>) a n = ubytes s a n"
  shows "pipewrite p a (int n) s = Suspend w \<and>
    runs (piperead p b (int k)) ((dispatched d w)\<lparr>held := []\<rparr>) (\<lambda>r u. r = int k \<and> p_state (procs u ! c) = RUNNABLE \<and>
      runs (pipewrite_resume p a (int n) (512 - pipe_len (pipes s p))) (dispatched c u) (\<lambda>r v. r = int n \<and>
        ubytes u b k @ pq (pipes v p) = pq (pipes s p) @ ubytes s a n))"
proof -
  let ?j = "512 - pipe_len (pipes s p)" let ?t = "(dispatched d w)\<lparr>held := []\<rparr>"
  let ?X = "fold put1 (ubytes s a ?j) (pipes s p)"
  have h: "length (procs s) = NPROC" "c < NPROC" and len: "pipe_len (pipes s p) \<le> 512"
    using assms(1,2,4) by (auto simp: kthread_def pipe_ok_def)
  note ws = write_sleeps_sel [OF h, where p = p and bs = "ubytes s a ?j", folded assms(13)]
  have susp: "pipewrite p a (int n) s = Suspend w"
    unfolding assms(13) by (rule pipewrite_suspends [OF assms(1,2,7,4,8,5,6) refl])
  have X: "pq ?X = pq (pipes s p) @ ubytes s a ?j" "pipe_ok ?X" "pipe_len ?X = 512" "pipes ?t p = ?X"
    using pq_puts [OF assms(4), of "ubytes s a ?j"] puts_full [OF assms(4) refl, of s a] len ws(2) by simp_all
  let ?u = "(read_state p b k ?t)\<lparr>procs := woken (Some (CPipeW (unat p))) (procs ?t)\<rparr>"
  have th: "kthread ?t" using ws(1) assms(11) by (auto simp: kthread_def)
  have rd: "piperead p b (int k) ?t = Ok (int k) ?u"
    by (rule piperead_returns [OF th]) (use assms(10,14) X in simp_all)
  have pt: "procs ?t ! c = procs w ! c" using assms(12) by (simp add: dispatched_def)
  have uc: "p_state (procs ?u ! c) = RUNNABLE" "p_pgdir (procs ?u ! c) = p_pgdir (procs s ! c)"
    using ws(4,5) ws(6) [OF h(2)] ws(1) h(2) pt by (simp_all add: nth_woken)
  have ub: "ubytes ?u b k = take k (pq ?X)" using ubytes_read_state [of ?t b k k p] assms(10,14) X by simp
  have pu: "pipes ?u p = got k ?X" using X(4) by simp
  let ?v = "dispatched c ?u"
  have m: "mem ?u x = mem s x" if "x \<notin> set (frames (dispatched d w) b k)" for x
    using read_state_other [of x ?t b k p] that ws(3) by simp
  have cv: "mapped ?v = mapped (s\<lparr>mem := mem ?u\<rparr>)" "ubytes ?v = ubytes (s\<lparr>mem := mem ?u\<rparr>)"
    by (rule user_cong; use uc(2) assms(3) in simp)+
  have mv: "mapped ?v a n" "ubytes ?v a n = ubytes s a n" unfolding cv using assms(15) [of "mem ?u"] m by blast+
  have jn: "?j \<le> n" "n - ?j \<le> k" using assms(8,9) len by auto
  let ?bs = "ubytes s (a + of_nat ?j) (n - ?j)"
  have e: "ubytes ?v (a + of_nat ?j) (n - ?j) = ?bs" using mv(2) jn(1) by (simp only: ubytes_drop)
  have G: "pipe_ok (got k ?X)" "pipe_len (got k ?X) = 512 - k" "pq (got k ?X) = drop k (pq ?X)"
    using pipe_ok_got [OF X(2), of k] got_len [of k ?X] pq_got [of k ?X] X(3) assms(10) by simp_all
  have "runs (pipewrite_resume p a (int n) ?j) ?v (\<lambda>r t. r = int n \<and> held t = [] \<and> pipes t = (pipes ?v)(p := fold put1 ?bs (pipes ?v p)))"
    unfolding e [symmetric]
    by (rule pipewrite_resumes) (use th ws(1) mv(1) jn G pu mapped_split [OF jn(1) mv(1)] assms(10) in \<open>simp_all add: kthread_def\<close>)
  then have "runs (pipewrite_resume p a (int n) ?j) ?v (\<lambda>r v. r = int n \<and> pq (pipes v p) = drop k (pq ?X) @ ?bs)"
    by (rule runs_weaken) (use pu G pq_puts(1) [OF G(1), of ?bs] jn assms(10) in simp)
  moreover have "pq ?X @ ?bs = pq (pipes s p) @ ubytes s a n" unfolding X(1) using ubytes_split [OF jn(1), of s a] by simp
  ultimately have fin: "runs (pipewrite_resume p a (int n) ?j) ?v (\<lambda>r v. r = int n \<and> ubytes ?u b k @ pq (pipes v p) = pq (pipes s p) @ ubytes s a n)"
    unfolding ub by (elim runs_weaken conjE) (metis append.assoc append_take_drop_id)
  have go: "runs (piperead p b (int k)) ?t Q" if "Q (int k) ?u" for Q using rd that by (rule runs_OkI)
  show ?thesis by (rule conjI [OF susp], rule go) (intro conjI uc(1) fin refl)
qed

section \<open>An example\<close>

text \<open>Two processes with one page each: user addresses below 4096 of process 0 are the page at
  \<^verbatim>\<open>0x80003000\<close>, those of process 1 the page at \<^verbatim>\<open>0x80006000\<close>. The counters of the pipe are about to wrap.\<close>

definition demo_mem :: memory where
  "demo_mem = (store32 (store32 (store32 (store32 (\<lambda>_. 0) 0x80001000 0x2007) 0x80002000 0x3007) 0x80004000 0x5007) 0x80005000 0x6007)
     (0x80003000 := 104, 0x80003001 := 105, 0x80003002 := 10)"

definition demo_pipes :: "nat \<Rightarrow> kfile" where
  "demo_pipes l = (kfs.extend demo_fs \<lparr>ftable = [], pipes = (\<lambda>_. \<lparr>pi_data = replicate 512 42, pi_nread = - 2, pi_nwrite = - 2 + of_nat l,
       pi_readopen = True, pi_writeopen = True\<rparr>), ticks = 0\<rparr>)
     \<lparr>mem := demo_mem, cr3 := 0x1000,
      procs := blank_proc\<lparr>p_state := RUNNING, p_pgdir := 0x80001000\<rparr> # blank_proc\<lparr>p_state := RUNNABLE, p_pgdir := 0x80004000\<rparr>
        # replicate (NPROC - 2) blank_proc\<rparr>"

lemma va_page0:
  assumes "va < 4096"
  shows "PDX va = 0" "PTX va = 0" "va AND 0xFFF = va"
proof -
  have u: "unat va < 4096" using assms by (simp add: word_less_nat_alt)
  have "unat (drop_bit 22 va) = 0" "unat (drop_bit 12 va) = 0" using u by (simp_all add: unat_drop_bit_eq drop_bit_nat_def)
  then have "drop_bit 22 va = 0" "drop_bit 12 va = 0" by (simp_all add: unat_eq_zero)
  then show "PDX va = 0" "PTX va = 0" by (simp_all add: PDX_def PTX_def)
  have "va AND 0xFFF = take_bit 12 va" by (simp add: take_bit_eq_mask mask_eq_exp_minus_1)
  also have "\<dots> = va" using u by (simp add: word_unat_eq_iff unsigned_take_bit_eq take_bit_nat_eq_self)
  finally show "va AND 0xFFF = va" .
qed

lemma translate_page0:
  assumes "va < 4096" "load32 m (P2V dir) = de" "de AND PTE_P \<noteq> 0" "load32 m (P2V (PTE_ADDR de)) = te" "te AND PTE_P \<noteq> 0"
  shows "translate m dir va = Some (P2V (PTE_ADDR te) + va)"
  using assms va_page0 [OF assms(1)] by (simp add: translate_def)

lemma demo_tables:
  "load32 demo_mem 0x80001000 = 0x2007" "load32 demo_mem 0x80002000 = 0x3007"
  "load32 demo_mem 0x80004000 = 0x5007" "load32 demo_mem 0x80005000 = 0x6007"
  by (simp_all add: demo_mem_def load32_upd load32_store32_other apart4)

lemma demo_translate:
  assumes "\<And>x. x < 0x80003000 \<or> (0x80004000 \<le> x \<and> x < 0x80006000) \<Longrightarrow> m x = demo_mem x" "va < 4096"
  shows "translate m 0x1000 va = Some (0x80003000 + va)" "translate m 0x4000 va = Some (0x80006000 + va)"
proof -
  have "load32 m 0x80001000 = 0x2007" "load32 m 0x80002000 = 0x3007"
    "load32 m 0x80004000 = 0x5007" "load32 m 0x80005000 = 0x6007"
    unfolding demo_tables [symmetric] load32_def by (simp_all add: assms(1))
  then show "translate m 0x1000 va = Some (0x80003000 + va)" "translate m 0x4000 va = Some (0x80006000 + va)"
    using assms(2) by (auto simp: P2V_def KERNBASE_def PTE_ADDR_def PTE_P_def intro!: translate_page0 [THEN trans])
qed

lemma demo_sel:
  "mem (demo_pipes l) = demo_mem" "cr3 (demo_pipes l) = 0x1000" "held (demo_pipes l) = []" "cpu_proc (demo_pipes l) = Some 0"
  "length (procs (demo_pipes l)) = NPROC" "kthread (demo_pipes l)"
  "pi_readopen (pipes (demo_pipes l) p)" "pi_writeopen (pipes (demo_pipes l) p)" "\<not> p_killed (procs (demo_pipes l) ! 0)"
  "p_pgdir (procs (demo_pipes l) ! 0) = 0x80001000" "p_pgdir (procs (demo_pipes l) ! Suc 0) = 0x80004000"
  by (simp_all add: demo_pipes_def kfs.defs demo_fs_def kcons.defs demo_console_def klog.defs demo_machine_def kthread_def NPROC_def blank_proc_def)

lemma demo_queue:
  assumes "l \<le> 512"
  shows "pipe_len (pipes (demo_pipes l) p) = l" "pipe_ok (pipes (demo_pipes l) p)" "pq (pipes (demo_pipes l) p) = replicate l 42"
proof -
  show l: "pipe_len (pipes (demo_pipes l) p) = l" using assms by (simp add: pipe_len_def demo_pipes_def kfs.defs)
  show "pipe_ok (pipes (demo_pipes l) p)" using assms l by (simp add: pipe_ok_def) (simp add: demo_pipes_def kfs.defs)
  have "pi_data (pipes (demo_pipes l) p) = replicate 512 42" by (simp add: demo_pipes_def kfs.defs)
  then show "pq (pipes (demo_pipes l) p) = replicate l 42" unfolding pq_def l by (intro nth_equalityI) simp_all
qed

lemma small_va: "k < 4096 \<Longrightarrow> of_nat k < (4096 :: u32)"
  by (simp add: word_less_nat_alt)

lemma demo_user:
  assumes "mem s = demo_mem" "a + n \<le> 4096" "cr3 s = 0x1000 \<and> F = 0x80003000 \<or> cr3 s = 0x4000 \<and> F = 0x80006000"
  shows "user_buffer s (of_nat a) n" "\<And>i. i < n \<Longrightarrow> uframe s (of_nat a) i = F + of_nat (a + i)"
proof -
  have tr: "translate m (cr3 s) (of_nat a + of_nat i) = Some (F + of_nat (a + i))"
    if "i < n" "\<And>x. x < 0x80003000 \<or> (0x80004000 \<le> x \<and> x < 0x80006000) \<Longrightarrow> m x = demo_mem x" for m i
    using demo_translate [of m "of_nat (a + i)"] that small_va [of "a + i"] assms(2,3) by auto
  show f: "uframe s (of_nat a) i = F + of_nat (a + i)" if "i < n" for i
    using tr [OF that, of "mem s"] assms(1) by (simp add: uframe_def)
  have pg: "\<not> (x < 0x80003000 \<or> (0x80004000 \<le> x \<and> x < 0x80006000))" if q: "x \<in> set (frames s (of_nat a) n)" for x
  proof -
    obtain i where i: "i < n" "x = F + of_nat (a + i)" using q f by (auto simp: frames_def)
    have "unat x = unat F + (a + i)" using i assms(2,3) by (auto simp: unat_word_ariths unat_of_nat)
    then show ?thesis using assms(2,3) i(1) by (auto simp: word_less_nat_alt word_le_nat_alt)
  qed
  show "user_buffer s (of_nat a) n" unfolding user_buffer_def
  proof (intro conjI allI impI)
    show "mapped s (of_nat a) n" using tr [where m = "mem s"] assms(1) by (simp add: mapped_def)
    have "inj_on (\<lambda>i. F + of_nat (a + i)) {0..<n}"
    proof (rule inj_onI)
      fix x y assume "x \<in> {0..<n}" "y \<in> {0..<n}" "F + of_nat (a + x) = F + of_nat (a + y)"
      then have e: "(of_nat x :: u32) = of_nat y" and "x < 4096" "y < 4096" using assms(2) by simp_all
      then have "unat (of_nat x :: u32) = x" "unat (of_nat y :: u32) = y" by (intro unat_of_nat32; simp)+
      then show "x = y" using e by metis
    qed
    then show "distinct (frames s (of_nat a) n)"
      unfolding frames_def distinct_map by (auto simp: inj_on_def f)
    fix m i assume m: "\<forall>x. x \<notin> set (frames s (of_nat a) n) \<longrightarrow> m x = mem s x" and i: "i < n"
    have "m x = demo_mem x" if "x < 0x80003000 \<or> (0x80004000 \<le> x \<and> x < 0x80006000)" for x
      using m pg [of x] that assms(1) by auto
    then show "translate m (cr3 s) (of_nat a + of_nat i) = translate (mem s) (cr3 s) (of_nat a + of_nat i)"
      using tr [OF i, of m] tr [OF i, of "mem s"] assms(1) by simp
  qed
qed

lemma demo_text: "ubytes (demo_pipes l) 0 3 = [104, 105, 10]"
proof -
  have f: "uframe (demo_pipes l) 0 i = 0x80003000 + of_nat i" if "i < 3" for i
    using demo_user(2) [of "demo_pipes l" 0 3 "0x80003000" i] that by (simp add: demo_sel)
  have "[0..<3] = [0, 1, 2 :: nat]" by (simp add: upt_rec)
  then show ?thesis using f [of 0] f [of 1] f [of 2] by (simp add: ubytes_def frames_def demo_sel demo_mem_def)
qed

lemma demo_mapped: "mapped (demo_pipes l) 0 3"
  using demo_user(1) [of "demo_pipes l" 0 3 "0x80003000"] by (simp add: demo_sel user_buffer_def)

theorem pipe_fifo_witness:
  "runs (kdo (pipewrite 0x80007000 0 3) (\<lambda>_. piperead 0x80007000 100 4)) (demo_pipes 2) (\<lambda>r t. r = 4 \<and>
     ubytes t 100 4 = [42, 42, 104, 105] \<and> pq (pipes t 0x80007000) = [10])"
proof -
  have b: "user_buffer (demo_pipes 2) 100 4"
    using demo_user(1) [of "demo_pipes 2" 100 4 "0x80003000"] by (simp add: demo_sel)
  have "runs (kdo (pipewrite 0x80007000 0 (int 3)) (\<lambda>_. piperead 0x80007000 100 (int 4))) (demo_pipes 2) (\<lambda>r t.
     r = int (min 4 (length (pq (pipes (demo_pipes 2) 0x80007000) @ ubytes (demo_pipes 2) 0 3))) \<and>
     ubytes t 100 (nat r) = take 4 (pq (pipes (demo_pipes 2) 0x80007000) @ ubytes (demo_pipes 2) 0 3) \<and>
     pq (pipes t 0x80007000) = drop 4 (pq (pipes (demo_pipes 2) 0x80007000) @ ubytes (demo_pipes 2) 0 3) \<and> pipe_ok (pipes t 0x80007000) \<and>
     (\<forall>q. q \<noteq> 0x80007000 \<longrightarrow> pipes t q = pipes (demo_pipes 2) q))"
    by (rule pipe_fifo) (simp_all add: demo_sel demo_queue demo_mapped b)
  then show ?thesis
    unfolding demo_text of_nat_numeral by (rule runs_weaken) (simp add: demo_queue numeral_2_eq_2)
qed

theorem pipe_writer_progress_witness:
  "\<exists>w. pipewrite 0x80007000 0 3 (demo_pipes 511) = Suspend w \<and>
    runs (piperead 0x80007000 200 2) ((dispatched 1 w)\<lparr>held := []\<rparr>) (\<lambda>r u. r = 2 \<and> p_state (procs u ! 0) = RUNNABLE \<and>
      runs (pipewrite_resume 0x80007000 0 3 1) (dispatched 0 u) (\<lambda>r v. r = 3 \<and>
        ubytes u 200 2 @ pq (pipes v 0x80007000) = replicate 511 42 @ [104, 105, 10]))"
proof -
  let ?s = "demo_pipes 511"
  define w where "w = write_sleeps 0 0x80007000 (ubytes ?s 0 (512 - pipe_len (pipes ?s 0x80007000))) ?s"
  have w: "mem w = demo_mem" "p_pgdir (procs w ! 1) = 0x80004000"
    using write_sleeps_sel(3) [of ?s 0] write_sleeps_sel(6) [of ?s 0 1] demo_sel by (simp_all add: w_def NPROC_def)
  have u: "user_buffer (dispatched 1 w) 200 2" "\<And>i. i < 2 \<Longrightarrow> uframe (dispatched 1 w) 200 i = 0x80006000 + of_nat (200 + i)"
    using demo_user [of "dispatched 1 w" 200 2 "0x80006000"] w by (simp_all add: V2P_def KERNBASE_def)
  have out: "x \<notin> set (frames (dispatched 1 w) 200 2)" if x: "x < 0x80006000" for x
  proof
    assume "x \<in> set (frames (dispatched 1 w) 200 2)"
    then obtain i where "i < 2" "x = 0x80006000 + of_nat (200 + i)" using u(2) by (auto simp: frames_def)
    then show False using x by (auto simp: less_2_cases_iff word_less_nat_alt)
  qed
  have sep: "mapped (?s\<lparr>mem := m\<rparr>) 0 3 \<and> ubytes (?s\<lparr>mem := m\<rparr>) 0 3 = ubytes ?s 0 3"
    if q: "\<forall>x. x \<notin> set (frames (dispatched 1 w) 200 2) \<longrightarrow> m x = mem ?s x" for m
  proof -
    have m: "m x = demo_mem x" if "x < 0x80006000" for x using q out [OF that] by (simp add: demo_sel)
    have tr: "translate m 0x1000 (of_nat i) = Some (0x80003000 + of_nat i)" if "i < 3" for i
      using that by (intro demo_translate(1) m small_va) (auto simp: word_less_nat_alt)
    have f: "uframe (?s\<lparr>mem := m\<rparr>) 0 i = 0x80003000 + of_nat i" "uframe ?s 0 i = 0x80003000 + of_nat i" if "i < 3" for i
      using tr [OF that] demo_user(2) [of ?s 0 3 "0x80003000" i] that by (simp_all add: uframe_def demo_sel)
    have "m (0x80003000 + of_nat i) = demo_mem (0x80003000 + of_nat i)" if "i < 3" for i
      using that by (intro m) (auto simp: word_less_nat_alt unat_word_ariths unat_of_nat)
    then show ?thesis using tr f by (simp add: mapped_def ubytes_def frames_def demo_sel)
  qed
  have len: "pipe_len (pipes ?s 0x80007000) = 511" by (simp add: demo_queue)
  have "pipewrite 0x80007000 0 (int 3) ?s = Suspend w \<and>
    runs (piperead 0x80007000 200 (int 2)) ((dispatched 1 w)\<lparr>held := []\<rparr>) (\<lambda>r u. r = int 2 \<and> p_state (procs u ! 0) = RUNNABLE \<and>
      runs (pipewrite_resume 0x80007000 0 (int 3) (512 - pipe_len (pipes ?s 0x80007000))) (dispatched 0 u) (\<lambda>r v. r = int 3 \<and>
        ubytes u 200 2 @ pq (pipes v 0x80007000) = pq (pipes ?s 0x80007000) @ ubytes ?s 0 3))"
    by (rule pipe_writer_progress [OF _ _ _ _ _ _ _ _ _ _ _ _ w_def u(1) sep])
      (simp_all add: demo_sel demo_queue demo_mapped V2P_def KERNBASE_def NPROC_def)
  then show ?thesis unfolding len demo_text demo_queue(3) [of 511, simplified] by (intro exI [of _ w]) simp
qed

end
