(* ===== verification/Klib.thy ===== *)
theory Klib
  imports Prelude "HOL-Library.Multiset"
begin

text \<open>
  The container library of \<^verbatim>\<open>include/klib\<close>: \<^verbatim>\<open>Vector\<close> and \<^verbatim>\<open>PriorityQueue\<close>. Arrays live in a heap of blocks
  (\<open>kheap\<close>), which \<^verbatim>\<open>allocator\<close> extends with \<^verbatim>\<open>new[]\<close> and shrinks with \<^verbatim>\<open>delete[]\<close>; a cell that was never
  written is \<open>None\<close>. An access outside a block, to a released block or to an unwritten cell is undefined.
  \<^verbatim>\<open>Vector\<close> is shown to implement lists, and \<^verbatim>\<open>PriorityQueue\<close> multisets with removal of a greatest element,
  for every comparison that is a strict weak order (the locale \<open>strict_weak_order\<close>).
\<close>

section \<open>Blocks\<close>

record 'a kheap =
  hp_blocks :: "nat \<Rightarrow> 'a option list option"
  hp_next :: nat

definition allocate :: "u32 \<Rightarrow> ('a kheap, nat) kop" where
  "allocate n = (\<lambda>h. Ok (hp_next h) (h\<lparr>hp_blocks := (hp_blocks h)(hp_next h \<mapsto> replicate (unat n) None), hp_next := hp_next h + 1\<rparr>))"

definition release_blk :: "nat \<Rightarrow> ('a kheap, unit) kop" where
  "release_blk p = (\<lambda>h. if p = 0 then Ok () h
     else if hp_blocks h p = None then Fail (Undef ''delete[]'')
     else Ok () (h\<lparr>hp_blocks := (hp_blocks h)(p := None)\<rparr>))"

definition cell :: "nat \<Rightarrow> nat \<Rightarrow> ('a kheap, 'a option) kop" where
  "cell p i = (\<lambda>h. case hp_blocks h p of None \<Rightarrow> Fail (Undef ''dangling'')
     | Some b \<Rightarrow> if i < length b then Ok (b ! i) h else Fail (Undef ''out of bounds''))"

definition set_cell :: "nat \<Rightarrow> nat \<Rightarrow> 'a option \<Rightarrow> ('a kheap, unit) kop" where
  "set_cell p i c = (\<lambda>h. case hp_blocks h p of None \<Rightarrow> Fail (Undef ''dangling'')
     | Some b \<Rightarrow> if i < length b then Ok () (h\<lparr>hp_blocks := (hp_blocks h)(p \<mapsto> b[i := c])\<rparr>) else Fail (Undef ''out of bounds''))"

text \<open>\<^verbatim>\<open>for (i = 0; i < n; ++i) q[i] = p[i]\<close>\<close>

definition copy_cells :: "nat \<Rightarrow> nat \<Rightarrow> nat \<Rightarrow> ('a kheap, unit) kop" where
  "copy_cells q p n = kfor (\<lambda>i. kdo (cell p i) (set_cell q i)) [0..<n]"

section \<open>Vector\<close>

record vector =
  v_size :: u32
  v_capacity :: u32
  v_data :: nat

primrec cap_mask :: "nat \<Rightarrow> u32 \<Rightarrow> u32 \<Rightarrow> u32" where
  "cap_mask 0 n m = m"
| "cap_mask (Suc k) n m = (if m AND n = 0 then cap_mask k n (drop_bit 1 m) else m)"

definition get_capacity :: "u32 \<Rightarrow> u32" where
  "get_capacity n =
     (if n = 0 then 0
      else let m = cap_mask 32 n (push_bit 31 1) in
        if m \<noteq> n then push_bit 1 m else m)"

definition Vector :: "u32 \<Rightarrow> ('a kheap, vector) kop" where
  "Vector s =
     kdo (if s \<noteq> 0 then
            kdo (allocate (get_capacity s)) (\<lambda>p. kret \<lparr>v_size = s, v_capacity = get_capacity s, v_data = p\<rparr>)
          else kret \<lparr>v_size = s, v_capacity = 0, v_data = 0\<rparr>) (\<lambda>v.
     kdo (allocate 1) (\<lambda>p. kret (v\<lparr>v_data := p\<rparr>)))"

definition Vector_copy :: "vector \<Rightarrow> ('a kheap, vector) kop" where
  "Vector_copy obj =
     kdo (allocate (v_capacity obj)) (\<lambda>p.
     kdo (copy_cells p (v_data obj) (unat (v_size obj))) (\<lambda>_.
     kret \<lparr>v_size = v_size obj, v_capacity = v_capacity obj, v_data = p\<rparr>))"

definition Vector_dtor :: "vector \<Rightarrow> ('a kheap, unit) kop" where
  "Vector_dtor v = kwhen (v_data v \<noteq> 0) (release_blk (v_data v))"

definition vempty :: "vector \<Rightarrow> bool" where "vempty v \<longleftrightarrow> v_size v = 0"

definition regrow :: "u32 \<Rightarrow> vector \<Rightarrow> ('a kheap, vector) kop" where
  "regrow cap v =
     kdo (allocate (v_size v)) (\<lambda>temp.
     kdo (copy_cells temp (v_data v) (unat (v_size v))) (\<lambda>_.
     kdo (release_blk (v_data v)) (\<lambda>_.
     kdo (allocate cap) (\<lambda>p.
     kdo (copy_cells p temp (unat (v_size v))) (\<lambda>_.
     kret (v\<lparr>v_capacity := cap, v_data := p\<rparr>))))))"

definition shrink_to_fit :: "vector \<Rightarrow> ('a kheap, vector) kop" where
  "shrink_to_fit v = regrow (get_capacity (v_size v)) v"

definition reserve :: "u32 \<Rightarrow> vector \<Rightarrow> ('a kheap, vector) kop" where
  "reserve nsz v = (if nsz \<ge> v_capacity v then regrow (get_capacity nsz) v else kret v)"

definition push_back :: "vector \<Rightarrow> 'a \<Rightarrow> ('a kheap, vector) kop" where
  "push_back v val =
     kdo (if v_size v + 1 \<ge> v_capacity v then reserve (v_size v + 1) v else kret v) (\<lambda>v.
     let v = v\<lparr>v_size := v_size v + 1\<rparr> in
     kdo (set_cell (v_data v) (unat (v_size v - 1)) (Some val)) (\<lambda>_.
     kret v))"

definition pop_back :: "vector \<Rightarrow> vector" where
  "pop_back v = (if v_size v = 0 then v else v\<lparr>v_size := v_size v - 1\<rparr>)"

definition vclear :: "vector \<Rightarrow> ('a kheap, vector) kop" where
  "vclear v =
     kdo (release_blk (v_data v)) (\<lambda>_.
     let v = v\<lparr>v_size := 0, v_capacity := get_capacity 0\<rparr> in
     kdo (allocate 1) (\<lambda>p. kret (v\<lparr>v_data := p\<rparr>)))"

text \<open>\<^verbatim>\<open>operator[]\<close>, used as a value.\<close>

definition vat :: "vector \<Rightarrow> u32 \<Rightarrow> ('a kheap, 'a) kop" where
  "vat v i = kdo (cell (v_data v) (unat i)) (\<lambda>c. case c of None \<Rightarrow> kfail (Undef ''uninitialised'') | Some x \<Rightarrow> kret x)"

text \<open>
  Iterators are given by their distance from \<^verbatim>\<open>data_\<close>; the result is the distance of the iterator
  returned, or \<open>None\<close> for \<^verbatim>\<open>nullptr\<close>.
\<close>

function erase_shift :: "vector \<Rightarrow> nat \<Rightarrow> nat \<Rightarrow> ('a kheap, unit) kop" where
  "erase_shift v i n =
     (if i < n then
        kdo (cell (v_data v) (i + 1)) (\<lambda>c.
        kdo (set_cell (v_data v) i c) (\<lambda>_. erase_shift v (i + 1) n))
      else kret ())"
  by pat_completeness auto
termination by (relation "measure (\<lambda>(v, i, n). n - i)") auto

declare erase_shift.simps [simp del]

definition verase :: "vector \<Rightarrow> int \<Rightarrow> ('a kheap, int option \<times> vector) kop" where
  "verase v pos =
     (if pos < 0 \<or> of_int pos > v_size v then kret (None, v)
      else
      let current = of_int pos :: u32 in
      kdo (erase_shift v (unat current) (unat (v_size v - 1))) (\<lambda>_.
      kret (Some (int (unat current)), v\<lparr>v_size := v_size v - 1\<rparr>)))"

primrec insert_shift :: "vector \<Rightarrow> nat \<Rightarrow> nat \<Rightarrow> ('a kheap, unit) kop" where
  "insert_shift v current 0 = kret ()"
| "insert_shift v current (Suc i) =
     (if Suc i > current then
        kdo (cell (v_data v) i) (\<lambda>c.
        kdo (set_cell (v_data v) (Suc i) c) (\<lambda>_. insert_shift v current i))
      else kret ())"

definition vinsert :: "vector \<Rightarrow> int \<Rightarrow> 'a \<Rightarrow> ('a kheap, int option \<times> vector) kop" where
  "vinsert v pos val =
     (if pos < 0 \<or> of_int pos > v_size v then kret (None, v)
      else
      let current = of_int pos :: u32 in
      kdo (if v_size v + 1 \<ge> v_capacity v then reserve (v_size v + 1) v else kret v) (\<lambda>v.
      kdo (insert_shift v (unat current) (unat (v_size v))) (\<lambda>_.
      let v = v\<lparr>v_size := v_size v + 1\<rparr> in
      kdo (set_cell (v_data v) (unat current) (Some val)) (\<lambda>_.
      kret (Some (int (unat current)), v)))))"

section \<open>PriorityQueue\<close>

definition klib_less :: "'a :: linorder \<Rightarrow> 'a \<Rightarrow> bool" where "klib_less lhs rhs \<longleftrightarrow> lhs < rhs"
definition klib_greater :: "'a :: linorder \<Rightarrow> 'a \<Rightarrow> bool" where "klib_greater lhs rhs \<longleftrightarrow> lhs > rhs"

record 'a priority_queue =
  pq_container :: vector
  placeholder0 :: 'a
  nelement :: u32

definition swap :: "vector \<Rightarrow> u32 \<Rightarrow> u32 \<Rightarrow> ('a kheap, unit) kop" where
  "swap v i j =
     kdo (vat v i) (\<lambda>temp.
     kdo (vat v j) (\<lambda>x.
     kdo (set_cell (v_data v) (unat i) (Some x)) (\<lambda>_.
     set_cell (v_data v) (unat j) (Some temp))))"

definition PriorityQueue :: "'a \<Rightarrow> ('a kheap, 'a priority_queue) kop" where
  "PriorityQueue ph =
     kdo (Vector 0) (\<lambda>v.
     kdo (vclear v) (\<lambda>v.
     kdo (push_back v ph) (\<lambda>v.
     kret \<lparr>pq_container = v, placeholder0 = ph, nelement = 0\<rparr>)))"

definition pq_empty :: "'a priority_queue \<Rightarrow> bool" where "pq_empty q \<longleftrightarrow> nelement q = 0"

definition pq_top :: "'a priority_queue \<Rightarrow> ('a kheap, 'a) kop" where
  "pq_top q = vat (pq_container q) 1"

primrec sift_down :: "nat \<Rightarrow> ('a \<Rightarrow> 'a \<Rightarrow> bool) \<Rightarrow> vector \<Rightarrow> u32 \<Rightarrow> u32 \<Rightarrow> u32 \<Rightarrow> ('a kheap, unit) kop" where
  "sift_down 0 lt v p s n = kfail Diverge"
| "sift_down (Suc k) lt v p s n =
     (if s \<le> n then
        kdo (if s < n then kdo (vat v s) (\<lambda>x. kdo (vat v (s + 1)) (\<lambda>y. kret (if lt x y then s + 1 else s))) else kret s) (\<lambda>s.
        kdo (vat v s) (\<lambda>x.
        kdo (vat v p) (\<lambda>y.
        if \<not> lt x y then kdo (swap v s p) (\<lambda>_. sift_down k lt v s (s * 2) n)
        else kret ())))
      else kret ())"

definition pq_pop :: "('a \<Rightarrow> 'a \<Rightarrow> bool) \<Rightarrow> 'a priority_queue \<Rightarrow> ('a kheap, 'a priority_queue) kop" where
  "pq_pop lt q =
     (if nelement q = 0 then kret q
      else
      kdo (swap (pq_container q) 1 (nelement q)) (\<lambda>_.
      let q = q\<lparr>pq_container := pop_back (pq_container q), nelement := nelement q - 1\<rparr> in
      kdo (sift_down 33 lt (pq_container q) 1 2 (nelement q)) (\<lambda>_.
      kret q)))"

primrec sift_up :: "nat \<Rightarrow> ('a \<Rightarrow> 'a \<Rightarrow> bool) \<Rightarrow> vector \<Rightarrow> u32 \<Rightarrow> ('a kheap, unit) kop" where
  "sift_up 0 lt v p = kfail Diverge"
| "sift_up (Suc k) lt v p =
     (if p > 1 then
        kdo (vat v p) (\<lambda>x.
        kdo (vat v (p div 2)) (\<lambda>y.
        if \<not> lt x y then kdo (swap v p (p div 2)) (\<lambda>_. sift_up k lt v (p div 2))
        else kret ()))
      else kret ())"

definition pq_push :: "('a \<Rightarrow> 'a \<Rightarrow> bool) \<Rightarrow> 'a priority_queue \<Rightarrow> 'a \<Rightarrow> ('a kheap, 'a priority_queue) kop" where
  "pq_push lt q element =
     kdo (if vempty (pq_container q) then push_back (pq_container q) (placeholder0 q) else kret (pq_container q)) (\<lambda>v.
     kdo (push_back v element) (\<lambda>v.
     let q = q\<lparr>pq_container := v, nelement := nelement q + 1\<rparr> in
     kdo (sift_up 33 lt v (nelement q)) (\<lambda>_.
     kret q)))"


primrec pq_copy_elems :: "vector \<Rightarrow> nat list \<Rightarrow> vector \<Rightarrow> ('a kheap, vector) kop" where
  "pq_copy_elems prq [] v = kret v"
| "pq_copy_elems prq (i # js) v =
     kdo (vat prq (of_nat i)) (\<lambda>x. kdo (push_back v x) (\<lambda>v. pq_copy_elems prq js v))"

definition PriorityQueue_copy :: "'a \<Rightarrow> 'a priority_queue \<Rightarrow> ('a kheap, 'a priority_queue) kop" where
  "PriorityQueue_copy ph prq =
     kdo (Vector 0) (\<lambda>v.
     kdo (vclear v) (\<lambda>v.
     kdo (pq_copy_elems (pq_container prq) [0..<unat (v_size (pq_container prq))] v) (\<lambda>v.
     kret \<lparr>pq_container = v, placeholder0 = ph, nelement = nelement prq\<rparr>)))"

definition PriorityQueue_dtor :: "'a priority_queue \<Rightarrow> ('a kheap, unit) kop" where
  "PriorityQueue_dtor q = kdo (vclear (pq_container q)) Vector_dtor"

section \<open>Capacities\<close>

lemma cap_mask_law:
  assumes "j < 32" "n \<noteq> 0" "unat n < 2 ^ Suc j" "j < k"
  shows "\<exists>i\<le>j. cap_mask k n (push_bit j 1) = push_bit i 1 \<and> 2 ^ i \<le> unat n \<and> unat n < 2 ^ Suc i"
  using assms
proof (induction k arbitrary: j)
  case (Suc k)
  have b: "push_bit j 1 AND n = 0 \<longleftrightarrow> \<not> bit n j"
    using Suc.prems(1) by (auto simp: bit_eq_iff [where ?'a = u32] bit_simps)
  have bt: "bit n j \<longleftrightarrow> odd (unat n div 2 ^ j)"
    using bit_iff_odd [of "unat n" j] by (simp add: bit_unsigned_iff)
  have d: "unat n div 2 ^ j < 2" using Suc.prems(3) by (simp add: less_mult_imp_div_less)
  show ?case
  proof (cases "bit n j")
    case True
    then have "unat n div 2 ^ j \<noteq> 0" using bt by (auto intro: ccontr)
    then have "2 ^ j \<le> unat n" by (simp add: div_eq_0_iff)
    then show ?thesis using True b Suc.prems(3) by auto
  next
    case False
    then have "unat n div 2 ^ j = 0" using bt d by auto
    then have l: "unat n < 2 ^ j" by (simp add: div_eq_0_iff)
    have "j \<noteq> 0" using l Suc.prems(2) by (cases "j = 0") (simp_all add: word_unat_eq_iff)
    then obtain i where i: "j = Suc i" by (cases j) auto
    then have "drop_bit 1 (push_bit j 1 :: u32) = push_bit i 1" using Suc.prems(1) by (auto simp: bit_eq_iff [where ?'a = u32] bit_simps)
    moreover obtain i' where "i' \<le> i" "cap_mask k n (push_bit i 1) = push_bit i' 1" "2 ^ i' \<le> unat n" "unat n < 2 ^ Suc i'"
      using Suc.IH [of i] Suc.prems(1,2,4) l i by auto
    ultimately show ?thesis using False b i by (intro exI [of _ i']) (simp del: push_bit_of_1)
  qed
qed simp

lemma unat_push_bit_1: "i < 32 \<Longrightarrow> unat (push_bit i 1 :: u32) = 2 ^ i"
  using power_strict_increasing [of i 32 "2 :: nat"] by (simp add: unsigned_push_bit_eq push_bit_nat_def take_bit_nat_eq_self del: push_bit_of_1)

text \<open>\<^verbatim>\<open>get_capacity\<close> is the least power of two that is at least \<open>n\<close>, until the power no longer fits.\<close>

lemma get_capacity_law:
  shows "unat n \<le> 2 ^ 31 \<Longrightarrow> 0 < n \<Longrightarrow> \<exists>i. unat (get_capacity n) = 2 ^ i \<and> unat n \<le> 2 ^ i \<and> (i = 0 \<or> 2 ^ (i - 1) < unat n)"
    and "2 ^ 31 < unat n \<Longrightarrow> get_capacity n = 0"
    and "get_capacity 0 = 0"
proof -
  have u: "unat n < 2 ^ Suc 31" using unsigned_less [of n, where ?'a = nat] by simp
  have m: "\<exists>i\<le>31. cap_mask 32 n (push_bit 31 1) = push_bit i 1 \<and> 2 ^ i \<le> unat n \<and> unat n < 2 ^ Suc i" if "n \<noteq> 0"
    by (rule cap_mask_law) (use that u in auto)
  have e: "push_bit i 1 = n \<longleftrightarrow> unat n = 2 ^ i" if "i \<le> 31" for i
    using unat_push_bit_1 [of i] that by (auto simp: word_unat_eq_iff)
  show "\<exists>i. unat (get_capacity n) = 2 ^ i \<and> unat n \<le> 2 ^ i \<and> (i = 0 \<or> 2 ^ (i - 1) < unat n)" if n: "unat n \<le> 2 ^ 31" "0 < n"
  proof -
    obtain i where i: "i \<le> 31" "cap_mask 32 n (push_bit 31 1) = push_bit i 1" "2 ^ i \<le> unat n" "unat n < 2 ^ Suc i"
      using m n(2) by auto
    show ?thesis
    proof (cases "unat n = 2 ^ i")
      case True
      then have "get_capacity n = push_bit i 1" using i(1,2) e n(2) by (simp add: get_capacity_def)
      then show ?thesis using True i(1) unat_push_bit_1 [of i] by (intro exI [of _ i]) (auto simp: power_strict_increasing_iff)
    next
      case False
      then have "i < 31" using i n(1) by (cases "i = 31") auto
      moreover have "get_capacity n = push_bit (Suc i) 1"
        using i(1,2) e [of i] n(2) False by (simp add: get_capacity_def push_bit_push_bit word_neq_0_conv [symmetric])
      ultimately show ?thesis using False i unat_push_bit_1 [of "Suc i"] by (intro exI [of _ "Suc i"]) auto
    qed
  qed
  show "get_capacity n = 0" if n: "2 ^ 31 < unat n"
  proof -
    have "n \<noteq> 0" using n by auto
    then obtain i where i: "i \<le> 31" "cap_mask 32 n (push_bit 31 1) = push_bit i 1" "unat n < 2 ^ Suc i" using m by auto
    have "i = 31"
    proof (rule ccontr)
      assume "i \<noteq> 31"
      then have "(2 :: nat) ^ Suc i \<le> 2 ^ 31" using i(1) by (intro power_increasing) auto
      then show False using i(3) n by linarith
    qed
    then show ?thesis using \<open>n \<noteq> 0\<close> i(2) e [of i] i(1) n by (auto simp: get_capacity_def)
  qed
qed (simp add: get_capacity_def)

section \<open>Vectors as lists\<close>

text \<open>
  \<open>vec_ok h v xs\<close>: the block of \<open>v\<close> starts with the elements of \<open>xs\<close> and has room for the recorded
  capacity; blocks not handed out yet are absent.
\<close>

definition vec_ok :: "'a kheap \<Rightarrow> vector \<Rightarrow> 'a list \<Rightarrow> bool" where
  "vec_ok h v xs \<longleftrightarrow> 0 < v_data v \<and> v_data v < hp_next h \<and> unat (v_size v) = length xs \<and> (\<forall>p\<ge>hp_next h. hp_blocks h p = None) \<and>
     (\<exists>b. hp_blocks h (v_data v) = Some b \<and> unat (v_capacity v) \<le> length b \<and> length xs \<le> length b \<and> take (length xs) b = map Some xs)"

lemma vec_okD:
  assumes "vec_ok h v xs"
  shows "0 < v_data v" "v_data v < hp_next h" "unat (v_size v) = length xs" "\<And>p. hp_next h \<le> p \<Longrightarrow> hp_blocks h p = None"
    "\<And>thesis. (\<And>b. hp_blocks h (v_data v) = Some b \<Longrightarrow> unat (v_capacity v) \<le> length b \<Longrightarrow> length xs \<le> length b \<Longrightarrow>
       take (length xs) b = map Some xs \<Longrightarrow> thesis) \<Longrightarrow> thesis"
  using assms by (auto simp: vec_ok_def)

lemma vat_law: "vec_ok h v xs \<Longrightarrow> unat i < length xs \<Longrightarrow> vat v i h = Ok (xs ! unat i) h"
  by (auto simp: vec_ok_def vat_def cell_def kdo_def kop_defs dest: arg_cong [where f = "\<lambda>ys. ys ! unat i"])

lemma set_cell_law:
  assumes "vec_ok h v xs" "i < length xs"
  shows "runs (set_cell (v_data v) i (Some x)) h (\<lambda>_ h'. vec_ok h' v (xs[i := x]))"
proof -
  obtain b where b: "hp_blocks h (v_data v) = Some b" "unat (v_capacity v) \<le> length b" "length xs \<le> length b" "take (length xs) b = map Some xs"
    by (rule vec_okD(5) [OF assms(1)])
  have "take (length xs) (b[i := Some x]) = map Some (xs[i := x])" using b(4) by (simp add: take_update_swap map_update)
  then show ?thesis using assms b by (auto simp: vec_ok_def runs_iff set_cell_def)
qed

text \<open>Copying the first \<open>n\<close> cells of one block to another.\<close>

lemma copy_cells_law:
  assumes "hp_blocks h p = Some b" "hp_blocks h q = Some c" "p \<noteq> q" "n \<le> length b" "n \<le> length c"
  shows "copy_cells q p n h = Ok () (h\<lparr>hp_blocks := (hp_blocks h)(q \<mapsto> take n b @ drop n c)\<rparr>)"
proof -
  let ?H = "\<lambda>i. h\<lparr>hp_blocks := (hp_blocks h)(q \<mapsto> take i b @ drop i c)\<rparr>"
  have "runs (copy_cells q p n) h (\<lambda>_ t. t = ?H n)" unfolding copy_cells_def
  proof (rule runs_kfor_upt [where I = "\<lambda>i t. t = ?H i"])
    show "h = ?H 0" using assms(2) by (simp add: fun_upd_idem)
    fix i t assume i: "i < n" "t = ?H i"
    have "(take i b @ drop i c)[i := b ! i] = take (Suc i) b @ drop (Suc i) c"
      using i(1) assms(4,5) by (simp add: list_update_append take_Suc_conv_app_nth Cons_nth_drop_Suc [symmetric])
    then show "runs (kdo (cell p i) (set_cell q i)) t (\<lambda>_ t. t = ?H (Suc i))"
      using i assms by (simp add: cell_def set_cell_def runs_iff kdo_def)
  qed auto
  then show ?thesis by (auto simp: runs_iff)
qed

lemma regrow_law:
  assumes "vec_ok h v xs" "length xs \<le> unat cap"
  shows "runs (regrow cap v) h (\<lambda>w h'. vec_ok h' w xs \<and> v_capacity w = cap \<and> v_size w = v_size v \<and>
    hp_next h' = hp_next h + 2 \<and> hp_blocks h' (v_data v) = None \<and> hp_blocks h' (hp_next h) \<noteq> None)"
proof -
  obtain b where b: "hp_blocks h (v_data v) = Some b" "unat (v_capacity v) \<le> length b" "length xs \<le> length b" "take (length xs) b = map Some xs"
    by (rule vec_okD(5) [OF assms(1)])
  note d = vec_okD(1-4) [OF assms(1)]
  show ?thesis using d b assms(2)
    by (auto simp: regrow_def allocate_def release_blk_def runs_iff kdo_def kop_defs
        copy_cells_law [where b = b and c = "replicate (length xs) None"]
        copy_cells_law [where b = "map Some xs" and c = "replicate (unat cap) None"] vec_ok_def fun_upd_twist)
qed

lemma get_capacity_ge: "unat n \<le> 2 ^ 31 \<Longrightarrow> unat n \<le> unat (get_capacity n)"
  using get_capacity_law(1) [of n] by (cases "n = 0") (auto simp: word_neq_0_conv)

lemma reserve_law:
  assumes "vec_ok h v xs" "length xs \<le> unat nsz" "unat nsz \<le> 2 ^ 31"
  shows "runs (reserve nsz v) h (\<lambda>w h'. vec_ok h' w xs \<and> unat nsz \<le> unat (v_capacity w))"
proof (cases "v_capacity v \<le> nsz")
  case True
  have "length xs \<le> unat (get_capacity nsz)" using assms(2) get_capacity_ge [OF assms(3)] by simp
  then show ?thesis using True runs_weaken [OF regrow_law [OF assms(1)]] get_capacity_ge [OF assms(3)] by (simp add: reserve_def)
next
  case False
  then show ?thesis using assms(1) by (simp add: reserve_def word_le_nat_alt)
qed

lemma unat_size_Suc:
  assumes "vec_ok h v xs" "length xs < 2 ^ 31"
  shows "unat (v_size v + 1) = Suc (length xs)"
  using vec_okD(3) [OF assms(1)] assms(2) by (simp add: unat_word_ariths)

text \<open>Making room for one more element.\<close>

lemma grow_law:
  assumes "vec_ok h v xs" "length xs < 2 ^ 31"
  shows "runs (if v_size v + 1 \<ge> v_capacity v then reserve (v_size v + 1) v else kret v) h
    (\<lambda>w h'. vec_ok h' w xs \<and> Suc (length xs) \<le> unat (v_capacity w))"
proof -
  note u = unat_size_Suc [OF assms]
  show ?thesis
  proof (cases "v_size v + 1 \<ge> v_capacity v")
    case True
    have "runs (reserve (v_size v + 1) v) h (\<lambda>w h'. vec_ok h' w xs \<and> unat (v_size v + 1) \<le> unat (v_capacity w))"
      by (rule reserve_law [OF assms(1)]) (use u assms(2) in simp_all)
    then show ?thesis using True u by simp
  next
    case False
    then show ?thesis using assms(1) u by (simp add: word_le_nat_alt)
  qed
qed

text \<open>Writing a cell beyond the elements, which the vector then grows over.\<close>

lemma set_end_law:
  assumes "vec_ok h v xs" "Suc (length xs) \<le> unat (v_capacity v)" "length xs < 2 ^ 31"
  shows "runs (set_cell (v_data v) (length xs) (Some x)) h (\<lambda>_ h'. vec_ok h' (v\<lparr>v_size := v_size v + 1\<rparr>) (xs @ [x]))"
proof -
  obtain b where b: "hp_blocks h (v_data v) = Some b" "unat (v_capacity v) \<le> length b" "length xs \<le> length b" "take (length xs) b = map Some xs"
    by (rule vec_okD(5) [OF assms(1)])
  have "take (Suc (length xs)) (b[length xs := Some x]) = map Some (xs @ [x])"
    using b assms(2) by (simp add: take_Suc_conv_app_nth)
  then show ?thesis using assms(1,2) b vec_okD(1-4) [OF assms(1)] unat_size_Suc [OF assms(1,3)]
    by (auto simp: vec_ok_def runs_iff set_cell_def)
qed

lemma push_back_law:
  assumes "vec_ok h v xs" "length xs < 2 ^ 31"
  shows "runs (push_back v x) h (\<lambda>w h'. vec_ok h' w (xs @ [x]))"
  unfolding push_back_def runs_kdo
proof (rule runs_weaken [OF grow_law [OF assms]], elim conjE)
  fix w h' assume w: "vec_ok h' w xs" "Suc (length xs) \<le> unat (v_capacity w)"
  have "unat (v_size w + 1 - 1) = length xs" using vec_okD(3) [OF w(1)] by simp
  then show "runs (let v = w\<lparr>v_size := v_size w + 1\<rparr> in kdo (set_cell (v_data v) (unat (v_size v - 1)) (Some x)) (\<lambda>_. kret v)) h'
      (\<lambda>w h'. vec_ok h' w (xs @ [x]))"
    using set_end_law [OF w assms(2), of x] by simp
qed

lemma pop_back_law: "vec_ok h v xs \<Longrightarrow> vec_ok h (pop_back v) (butlast xs)"
proof -
  assume v: "vec_ok h v xs"
  obtain b where b: "hp_blocks h (v_data v) = Some b" "unat (v_capacity v) \<le> length b" "length xs \<le> length b" "take (length xs) b = map Some xs"
    by (rule vec_okD(5) [OF v])
  have "take (length xs - 1) b = take (length xs - 1) (take (length xs) b)" by simp
  then have "take (length xs - 1) b = map Some (butlast xs)" unfolding b(4) by (simp add: butlast_conv_take take_map)
  moreover have "unat (v_size v - 1) = length xs - 1" if "v_size v \<noteq> 0"
    using vec_okD(3) [OF v] that by (simp add: unat_minus_one)
  moreover have "xs = [] \<longleftrightarrow> v_size v = 0" using vec_okD(3) [OF v] by (auto simp: unat_eq_0)
  ultimately show ?thesis using v b by (auto simp: pop_back_def vec_ok_def)
qed

lemma vclear_law: "vec_ok h v xs \<Longrightarrow> runs (vclear v) h (\<lambda>w h'. vec_ok h' w [])"
  by (auto simp: vclear_def vec_ok_def release_blk_def allocate_def runs_iff kdo_def kop_defs get_capacity_law(3))

lemma shrink_law: "vec_ok h v xs \<Longrightarrow> length xs \<le> 2 ^ 31 \<Longrightarrow> runs (shrink_to_fit v) h (\<lambda>w h'. vec_ok h' w xs)"
  unfolding shrink_to_fit_def using get_capacity_ge [of "v_size v"] vec_okD(3) [of h v xs]
  by (intro runs_weaken [OF regrow_law [of h v xs]]) auto

lemma Vector_law: "\<forall>p\<ge>hp_next h. hp_blocks h p = None \<Longrightarrow> 0 < hp_next h \<Longrightarrow> runs (Vector 0) h (\<lambda>v h'. vec_ok h' v [])"
  by (auto simp: Vector_def vec_ok_def allocate_def runs_iff kdo_def kop_defs)

lemma cell_law:
  assumes "vec_ok h v xs" "i < length xs"
  shows "cell (v_data v) i h = Ok (Some (xs ! i)) h"
proof -
  obtain b where b: "hp_blocks h (v_data v) = Some b" "length xs \<le> length b" "take (length xs) b = map Some xs"
    by (rule vec_okD(5) [OF assms(1)])
  have "b ! i = take (length xs) b ! i" using assms(2) by simp
  then show ?thesis using assms(2) b by (simp add: cell_def)
qed

lemma runs_cell: "vec_ok h v xs \<Longrightarrow> j < length xs \<Longrightarrow> runs (cell (v_data v) j) h Q \<longleftrightarrow> Q (Some (xs ! j)) h"
  by (simp add: runs_def cell_law)

lemma erase_shift_law:
  assumes "vec_ok h v xs" "i \<le> n" "Suc n = length xs"
  shows "runs (erase_shift v i n) h (\<lambda>_ h'. vec_ok h' v (take i xs @ drop (Suc i) xs @ [xs ! n]))"
  using assms
proof (induction "n - i" arbitrary: i h xs)
  case 0
  then have "i = n" by simp
  then have "take i xs @ drop (Suc i) xs @ [xs ! n] = xs" using 0 by (simp add: take_Suc_conv_app_nth [symmetric])
  then show ?case using 0 \<open>i = n\<close> by (simp add: erase_shift.simps [of v n n])
next
  case (Suc d)
  then have l: "i < n" "i < length xs" "i + 1 < length xs" by auto
  let ?ys = "xs[i := xs ! (i + 1)]"
  have eq: "take (i + 1) ?ys @ drop (Suc (i + 1)) ?ys @ [?ys ! n] = take i xs @ drop (Suc i) xs @ [xs ! n]"
    using l by (simp add: take_Suc_conv_app_nth) (simp add: Cons_nth_drop_Suc [symmetric])
  have "runs (set_cell (v_data v) i (Some (xs ! (i + 1)))) h (\<lambda>_ h'. runs (erase_shift v (i + 1) n) h'
      (\<lambda>_ h'. vec_ok h' v (take (i + 1) ?ys @ drop (Suc (i + 1)) ?ys @ [?ys ! n])))"
    by (rule runs_weaken [OF set_cell_law [OF Suc.prems(1) l(2)]], rule Suc.hyps(1)) (use Suc.hyps(2) Suc.prems(3) l in auto)
  then show ?case unfolding erase_shift.simps [of v i n] eq using l by (simp add: runs_cell [OF Suc.prems(1)] runs_if)
qed

lemma verase_law:
  assumes "vec_ok h v xs" "k < length xs"
  shows "runs (verase v (int k)) h (\<lambda>(r, w) h'. r = Some (int k) \<and> vec_ok h' w (take k xs @ drop (Suc k) xs))"
proof -
  have s: "unat (v_size v) = length xs" by (rule vec_okD(3) [OF assms(1)])
  then have "length xs < 4294967296" using unsigned_less [of "v_size v", where ?'a = nat] by simp
  then have k: "unat (of_nat k :: u32) = k" using assms(2) by (simp add: unat_of_nat)
  then have ku: "uint (of_nat k :: u32) = int k" by (metis of_nat_unat)
  have "v_size v \<noteq> 0" using s assms(2) by auto
  then have n: "unat (v_size v - 1) = length xs - 1" using s by (simp add: unat_minus_one)
  have "\<not> of_nat k > v_size v" using s k assms(2) by (simp add: word_less_nat_alt)
  moreover have "runs (erase_shift v k (length xs - 1)) h (\<lambda>_ h'. vec_ok h' v (take k xs @ drop (Suc k) xs @ [xs ! (length xs - 1)]))"
    by (rule erase_shift_law [OF assms(1)]) (use assms(2) in auto)
  then have "runs (erase_shift v k (length xs - 1)) h (\<lambda>_ h'. vec_ok h' (v\<lparr>v_size := v_size v - 1\<rparr>) (take k xs @ drop (Suc k) xs))"
    by (rule runs_weaken) (use pop_back_law \<open>v_size v \<noteq> 0\<close> in \<open>fastforce simp: pop_back_def butlast_append\<close>)
  ultimately show ?thesis using k ku n by (simp add: verase_def)
qed

lemma insert_shift_law:
  assumes "vec_ok h (v\<lparr>v_size := v_size v + 1\<rparr>) xs" "k \<le> i" "i < length xs"
  shows "runs (insert_shift v k i) h (\<lambda>_ h'. vec_ok h' (v\<lparr>v_size := v_size v + 1\<rparr>) (take (Suc k) xs @ drop k (take i xs) @ drop (Suc i) xs))"
  using assms
proof (induction i arbitrary: h xs)
  case (Suc i)
  show ?case
  proof (cases "k < Suc i")
    case True
    let ?v = "v\<lparr>v_size := v_size v + 1\<rparr>" and ?ys = "xs[Suc i := xs ! i]"
    have l: "Suc i < length xs" "i < length xs" using Suc.prems(3) by auto
    have eq: "take (Suc k) ?ys @ drop k (take i ?ys) @ drop (Suc i) ?ys = take (Suc k) xs @ drop k (take (Suc i) xs) @ drop (Suc (Suc i)) xs"
    proof -
      have "drop (Suc i) ?ys = xs ! i # drop (Suc (Suc i)) xs" using l by (simp add: Cons_nth_drop_Suc [symmetric])
      moreover have "drop k (take (Suc i) xs) = drop k (take i xs) @ [xs ! i]" using True l by (simp add: take_Suc_conv_app_nth)
      moreover have "take (Suc k) ?ys = take (Suc k) xs" "take i ?ys = take i xs" using True by simp_all
      ultimately show ?thesis by simp
    qed
    have "runs (set_cell (v_data v) (Suc i) (Some (xs ! i))) h (\<lambda>_ h'. runs (insert_shift v k i) h'
        (\<lambda>_ h'. vec_ok h' ?v (take (Suc k) ?ys @ drop k (take i ?ys) @ drop (Suc i) ?ys)))"
      by (rule runs_weaken [OF set_cell_law [OF Suc.prems(1) l(1), of "xs ! i", simplified]], rule Suc.IH) (use True l in auto)
    note this [unfolded eq]
    then show ?thesis using True runs_cell [OF Suc.prems(1) l(2)] by simp
  next
    case False
    then have "k = Suc i" using Suc.prems(2) by simp
    then show ?thesis using Suc.prems by (simp add: append_take_drop_id)
  qed
qed simp

lemma vinsert_law:
  assumes "vec_ok h v xs" "k \<le> length xs" "length xs < 2 ^ 31"
  shows "runs (vinsert v (int k) x) h (\<lambda>(r, w) h'. r = Some (int k) \<and> vec_ok h' w (take k xs @ x # drop k xs))"
proof -
  have s: "unat (v_size v) = length xs" by (rule vec_okD(3) [OF assms(1)])
  have k: "unat (of_nat k :: u32) = k" using assms(2,3) by (simp add: unat_of_nat)
  then have ku: "uint (of_nat k :: u32) = int k" by (metis of_nat_unat)
  have g: "\<not> of_nat k > v_size v" using s k assms(2) by (simp add: word_less_nat_alt)
  have "runs (kdo (insert_shift w k (unat (v_size w))) (\<lambda>_. set_cell (v_data w) k (Some x))) h'
      (\<lambda>_ h'. vec_ok h' (w\<lparr>v_size := v_size w + 1\<rparr>) (take k xs @ x # drop k xs))"
    if w: "vec_ok h' w xs" "Suc (length xs) \<le> unat (v_capacity w)" for w h'
  proof (cases "k = length xs")
    case True
    have "runs (insert_shift w k k) h' Q = Q () h'" for Q by (cases k) simp_all
    then show ?thesis using True set_end_law [OF w assms(3), of x] vec_okD(3) [OF w(1)] by simp
  next
    case False
    then obtain i where i: "length xs = Suc i" "k \<le> i" using assms(2) by (cases "length xs") auto
    let ?w = "w\<lparr>v_size := v_size w + 1\<rparr>" and ?ys = "xs @ [xs ! i]"
    have d: "v_data ?w = v_data w" by simp
    have eq: "(take (Suc k) ?ys @ drop k (take i ?ys) @ drop (Suc i) ?ys)[k := x] = take k xs @ x # drop k xs"
    proof -
      have "drop k xs = drop k (take i xs) @ [xs ! i]"
        using i take_Suc_conv_app_nth [of i xs] by (metis drop_append diff_is_0_eq drop_0 length_take lessI less_imp_le_nat min.absorb2 take_all_iff order_refl)
      then show ?thesis using i by (simp add: take_Suc_conv_app_nth list_update_append)
    qed
    have shift: "runs (insert_shift w k i) h1 (\<lambda>_ h'. vec_ok h' ?w (take (Suc k) ?ys @ drop k (take i ?ys) @ drop (Suc i) ?ys))" if "vec_ok h1 ?w ?ys" for h1
      by (rule insert_shift_law) (use that i in auto)
    have wr: "runs (set_cell (v_data w) k (Some x)) h1 (\<lambda>_ h'. vec_ok h' ?w (take k xs @ x # drop k xs))"
      if "vec_ok h1 ?w (take (Suc k) ?ys @ drop k (take i ?ys) @ drop (Suc i) ?ys)" for h1
      using set_cell_law [OF that, of k x] i eq by simp
    have "runs (set_cell (v_data w) (length xs) (Some (xs ! i))) h' (\<lambda>_ h'. runs (insert_shift w k i) h'
        (\<lambda>_ h'. runs (set_cell (v_data w) k (Some x)) h' (\<lambda>_ h'. vec_ok h' ?w (take k xs @ x # drop k xs))))"
      by (rule runs_weaken [OF set_end_law [OF w assms(3)]], rule runs_weaken [OF shift]) (auto intro: wr)
    then show ?thesis using i vec_okD(3) [OF w(1)] runs_cell [OF w(1), of i] by simp
  qed
  then show ?thesis using k ku g runs_weaken [OF grow_law [OF assms(1,3)]] by (simp add: vinsert_def Let_def)
qed

section \<open>Comparisons and heaps\<close>

text \<open>The contract of the predicate argument of \<^verbatim>\<open>PriorityQueue\<close>.\<close>

locale strict_weak_order =
  fixes lt :: "'a \<Rightarrow> 'a \<Rightarrow> bool"
  assumes asym: "lt x y \<Longrightarrow> \<not> lt y x"
    and trans: "lt x y \<Longrightarrow> lt y z \<Longrightarrow> lt x z"
    and neg_trans: "\<not> lt x y \<Longrightarrow> \<not> lt y z \<Longrightarrow> \<not> lt x z"
begin

lemma irrefl: "\<not> lt x x"
  using asym by blast

end

interpretation le: strict_weak_order klib_less
  by unfold_locales (auto simp: klib_less_def)

interpretation gr: strict_weak_order klib_greater
  by unfold_locales (auto simp: klib_greater_def)

definition heap_but :: "('a \<Rightarrow> 'a \<Rightarrow> bool) \<Rightarrow> 'a list \<Rightarrow> (nat \<Rightarrow> bool) \<Rightarrow> bool" where
  "heap_but lt xs E \<longleftrightarrow> (\<forall>i. 2 \<le> i \<and> i < length xs \<and> \<not> E i \<longrightarrow> \<not> lt (xs ! (i div 2)) (xs ! i))"

definition skip_level :: "('a \<Rightarrow> 'a \<Rightarrow> bool) \<Rightarrow> 'a list \<Rightarrow> nat \<Rightarrow> bool" where
  "skip_level lt xs p \<longleftrightarrow> (\<forall>i. 2 \<le> p \<and> i div 2 = p \<and> i < length xs \<longrightarrow> \<not> lt (xs ! (p div 2)) (xs ! i))"

definition swapped :: "nat \<Rightarrow> nat \<Rightarrow> 'a list \<Rightarrow> 'a list" where
  "swapped i j xs = xs[i := xs ! j, j := xs ! i]"

lemma swap_law:
  assumes "vec_ok h v xs" "unat i < length xs" "unat j < length xs"
  shows "runs (swap v i j) h (\<lambda>_ h'. vec_ok h' v (swapped (unat i) (unat j) xs))"
proof -
  have r: "runs (vat v k) h Q \<longleftrightarrow> Q (xs ! unat k) h" if "unat k < length xs" for k Q
    using vat_law [OF assms(1) that] by (simp add: runs_def)
  have "runs (set_cell (v_data v) (unat i) (Some (xs ! unat j))) h (\<lambda>_ h'. runs (set_cell (v_data v) (unat j) (Some (xs ! unat i))) h'
      (\<lambda>_ h'. vec_ok h' v (swapped (unat i) (unat j) xs)))"
    unfolding swapped_def by (rule runs_weaken [OF set_cell_law [OF assms(1,2)]], rule set_cell_law) (use assms(3) in simp_all)
  then show ?thesis unfolding swap_def using assms(2,3) by (simp add: r)
qed

lemma swapped_mset: "i < length xs \<Longrightarrow> j < length xs \<Longrightarrow> mset (swapped i j xs) = mset xs"
  by (simp add: swapped_def mset_swap)

lemma swapped_nth: "i < length xs \<Longrightarrow> j < length xs \<Longrightarrow> swapped i j xs ! k = (if k = i then xs ! j else if k = j then xs ! i else xs ! k)"
  by (auto simp: swapped_def nth_list_update)

lemma length_swapped [simp]: "length (swapped i j xs) = length xs"
  by (simp add: swapped_def)

context strict_weak_order
begin

lemma sift_up_step:
  assumes "heap_but lt xs (\<lambda>i. i = p)" "skip_level lt xs p" "2 \<le> p" "p < length xs" "\<not> lt (xs ! p) (xs ! (p div 2))"
  defines "ys \<equiv> swapped p (p div 2) xs"
  shows "heap_but lt ys (\<lambda>i. i = p div 2)" "skip_level lt ys (p div 2)"
proof -
  have n: "ys ! k = (if k = p then xs ! (p div 2) else if k = p div 2 then xs ! p else xs ! k)" for k
    unfolding ys_def using assms(3,4) by (intro swapped_nth) auto
  have pd: "p div 2 \<noteq> p" using assms(3) by linarith
  have h: "\<not> lt (xs ! (i div 2)) (xs ! i)" if "2 \<le> i" "i < length xs" "i \<noteq> p" for i
    using assms(1) that by (auto simp: heap_but_def)
  have sl: "\<not> lt (xs ! (p div 2)) (xs ! i)" if "i div 2 = p" "i < length xs" for i
    using assms(2,3) that by (auto simp: skip_level_def)
  have "\<not> lt (ys ! (i div 2)) (ys ! i)" if i: "2 \<le> i" "i < length xs" "i \<noteq> p div 2" for i
  proof -
    consider "i = p" | "i div 2 = p" "i \<noteq> p" | "i div 2 = p div 2" "i \<noteq> p" "i div 2 \<noteq> p" | "i div 2 \<noteq> p" "i div 2 \<noteq> p div 2" "i \<noteq> p" by blast
    then show ?thesis
    proof cases
      case 1 then show ?thesis using assms(3,5) pd by (simp add: n)
    next
      case 2 then show ?thesis using sl [of i] i by (simp add: n)
    next
      case 3
      then have "\<not> lt (xs ! (p div 2)) (xs ! i)" using h [of i] i by simp
      then show ?thesis using 3 i assms(5) neg_trans by (simp add: n)
    next
      case 4 then show ?thesis using h [of i] i by (simp add: n)
    qed
  qed
  then show "heap_but lt ys (\<lambda>i. i = p div 2)" by (auto simp: heap_but_def ys_def)
  have "\<not> lt (ys ! (p div 2 div 2)) (ys ! i)" if i: "2 \<le> p div 2" "i div 2 = p div 2" "i < length xs" for i
  proof -
    have q: "\<not> lt (xs ! (p div 2 div 2)) (xs ! (p div 2))" using h [of "p div 2"] i assms(3,4) by simp
    have d: "p div 2 div 2 \<noteq> p" "p div 2 div 2 \<noteq> p div 2" "i \<noteq> p div 2" using i assms(3) by linarith+
    show ?thesis
    proof (cases "i = p")
      case True then show ?thesis using q d by (simp add: n)
    next
      case False
      have "2 \<le> i" using i by linarith
      then have "\<not> lt (xs ! (p div 2)) (xs ! i)" using h [of i] False i by simp
      then show ?thesis using q d False neg_trans by (simp add: n)
    qed
  qed
  then show "skip_level lt ys (p div 2)" by (auto simp: skip_level_def ys_def)
qed

lemma sift_up_law:
  assumes "vec_ok h v xs" "heap_but lt xs (\<lambda>i. i = unat p)" "skip_level lt xs (unat p)" "0 < p" "unat p < length xs" "unat p < 2 ^ k"
  shows "runs (sift_up (Suc k) lt v p) h (\<lambda>_ h'. \<exists>ys. vec_ok h' v ys \<and> mset ys = mset xs \<and> ys ! 0 = xs ! 0 \<and> heap_but lt ys (\<lambda>_. False))"
  using assms
proof (induction k arbitrary: h xs p)
  case 0
  then show ?case by (simp add: word_less_nat_alt)
next
  case (Suc k)
  show ?case
  proof (cases "1 < p")
    case False
    then have "unat p = 1" using Suc.prems(4) by (simp add: word_less_nat_alt)
    then have "heap_but lt xs (\<lambda>_. False)" using Suc.prems(2) by (simp add: heap_but_def)
    then show ?thesis using False Suc.prems(1) by auto
  next
    case True
    then have p2: "2 \<le> unat p" by (simp add: word_less_nat_alt)
    let ?q = "p div 2"
    have q: "unat ?q = unat p div 2" by (simp add: unat_div)
    have r: "runs (vat v j) h Q \<longleftrightarrow> Q (xs ! unat j) h" if "unat j < length xs" for j Q
      using vat_law [OF Suc.prems(1) that] by (simp add: runs_def)
    have lq: "unat ?q < length xs" using q Suc.prems(5) by linarith
    show ?thesis
    proof (cases "lt (xs ! unat p) (xs ! (unat p div 2))")
      case lt: True
      have "\<not> lt (xs ! (i div 2)) (xs ! i)" if "2 \<le> i" "i < length xs" for i
        using that Suc.prems(2) asym [OF lt] by (cases "i = unat p") (auto simp: heap_but_def)
      then have "heap_but lt xs (\<lambda>_. False)" by (simp add: heap_but_def)
      then show ?thesis using True lt Suc.prems(1,5) lq q by (auto simp: r)
    next
      case False
      let ?ys = "swapped (unat p) (unat ?q) xs"
      note st = sift_up_step [OF Suc.prems(2,3) p2 Suc.prems(5) False, folded q]
      have "runs (swap v p ?q) h (\<lambda>_ h'. runs (sift_up (Suc k) lt v ?q) h'
          (\<lambda>_ h'. \<exists>ys. vec_ok h' v ys \<and> mset ys = mset ?ys \<and> ys ! 0 = ?ys ! 0 \<and> heap_but lt ys (\<lambda>_. False)))"
        by (rule runs_weaken [OF swap_law [OF Suc.prems(1,5) lq]], rule Suc.IH)
          (use st lq q p2 Suc.prems(6) in \<open>auto simp: word_less_nat_alt\<close>)
      moreover have "mset ?ys = mset xs" using Suc.prems(5) lq by (rule swapped_mset)
      moreover have "?ys ! 0 = xs ! 0" using p2 q Suc.prems(5) lq by (auto simp: swapped_nth div_eq_0_iff)
      ultimately show ?thesis using True False Suc.prems(5) lq q by (simp add: r)
    qed
  qed
qed

lemma sift_down_step:
  assumes "heap_but lt xs (\<lambda>i. i div 2 = p)" "skip_level lt xs p" "0 < p" "s < length xs" "s div 2 = p"
    and "\<And>i. i div 2 = p \<Longrightarrow> i < length xs \<Longrightarrow> \<not> lt (xs ! s) (xs ! i)" "\<not> lt (xs ! s) (xs ! p)"
  defines "ys \<equiv> swapped s p xs"
  shows "heap_but lt ys (\<lambda>i. i div 2 = s)" "skip_level lt ys s"
proof -
  have ps: "p < s" "p < length xs" using assms(3-5) by linarith+
  have n: "ys ! k = (if k = s then xs ! p else if k = p then xs ! s else xs ! k)" for k
    unfolding ys_def using assms(4) ps by (intro swapped_nth) auto
  have h: "\<not> lt (xs ! (i div 2)) (xs ! i)" if "2 \<le> i" "i < length xs" "i div 2 \<noteq> p" for i
    using assms(1) that by (auto simp: heap_but_def)
  have "\<not> lt (ys ! (i div 2)) (ys ! i)" if i: "2 \<le> i" "i < length xs" "i div 2 \<noteq> s" for i
  proof -
    consider "i = s" | "i div 2 = p" "i \<noteq> s" | "i = p" | "i div 2 \<noteq> p" "i \<noteq> s" "i \<noteq> p" by blast
    then show ?thesis
    proof cases
      case 1 then show ?thesis using assms(5,7) ps by (simp add: n)
    next
      case 2
      then have "i \<noteq> p" using assms(3) by linarith
      then show ?thesis using 2 i assms(6) [of i] by (simp add: n)
    next
      case 3
      then have "p div 2 \<noteq> p" "p div 2 \<noteq> s" using ps assms(3) by linarith+
      then show ?thesis using 3 i assms(2,4,5) ps by (auto simp: n skip_level_def)
    next
      case 4 then show ?thesis using h [of i] i by (simp add: n)
    qed
  qed
  then show "heap_but lt ys (\<lambda>i. i div 2 = s)" by (auto simp: heap_but_def ys_def)
  have "\<not> lt (ys ! (s div 2)) (ys ! i)" if i: "2 \<le> s" "i div 2 = s" "i < length xs" for i
  proof -
    have "2 \<le> i" "i \<noteq> s" "i \<noteq> p" "s \<noteq> p" using i ps by linarith+
    then show ?thesis using h [of i] i assms(5) by (simp add: n)
  qed
  then show "skip_level lt ys s" by (auto simp: skip_level_def ys_def)
qed

text \<open>When the loop stops the whole array is a heap.\<close>

lemma sift_down_done:
  assumes "heap_but lt xs (\<lambda>i. i div 2 = p)" "\<And>i. i div 2 = p \<Longrightarrow> i < length xs \<Longrightarrow> \<not> lt (xs ! p) (xs ! i)"
  shows "heap_but lt xs (\<lambda>_. False)"
  using assms by (auto simp: heap_but_def)

lemma sift_down_law:
  assumes "vec_ok h v xs" "heap_but lt xs (\<lambda>i. i div 2 = unat p)" "skip_level lt xs (unat p)" "0 < p" "unat p < length xs"
    and "length xs < 2 ^ 31" "length xs \<le> unat p * 2 ^ k" "unat n = length xs - 1"
  shows "runs (sift_down (Suc k) lt v p (p * 2) n) h (\<lambda>_ h'. \<exists>ys. vec_ok h' v ys \<and> mset ys = mset xs \<and> ys ! 0 = xs ! 0 \<and> heap_but lt ys (\<lambda>_. False))"
  using assms
proof (induction k arbitrary: h xs p)
  case 0
  then show ?case by simp
next
  case (Suc k)
  have p0: "0 < unat p" using Suc.prems(4) by (simp add: word_less_nat_alt)
  have s: "unat (p * 2) = 2 * unat p" using Suc.prems(5,6) by (simp add: unat_word_ariths)
  have kids: "i = 2 * unat p \<or> i = 2 * unat p + 1" if "i div 2 = unat p" for i using that by linarith
  have r: "runs (vat v j) h Q \<longleftrightarrow> Q (xs ! unat j) h" if "unat j < length xs" for j Q
    using vat_law [OF Suc.prems(1) that] by (simp add: runs_def)
  show ?case
  proof (cases "p * 2 \<le> n")
    case False
    then have "length xs \<le> 2 * unat p" using s Suc.prems(5,8) by (simp add: word_le_nat_alt)
    then have "heap_but lt xs (\<lambda>_. False)" by (intro sift_down_done [OF Suc.prems(2)]) (auto dest: kids)
    then show ?thesis using False Suc.prems(1) by auto
  next
    case True
    then have l: "2 * unat p < length xs" using s Suc.prems(5,8) by (simp add: word_le_nat_alt)
    have s1: "unat (p * 2 + 1) = 2 * unat p + 1" using s Suc.prems(6) l by (simp add: unat_word_ariths)
    have n1: "p * 2 < n \<longleftrightarrow> 2 * unat p + 1 < length xs" using s Suc.prems(8) by (auto simp: word_less_nat_alt)
    define t where "t = (if p * 2 < n \<and> lt (xs ! (2 * unat p)) (xs ! (2 * unat p + 1)) then p * 2 + 1 else p * 2)"
    have t: "unat t div 2 = unat p" "unat t < length xs" "t = p * 2 \<or> t = p * 2 + 1"
      using s s1 l n1 by (auto simp: t_def)
    have best: "\<not> lt (xs ! unat t) (xs ! i)" if "i div 2 = unat p" "i < length xs" for i
      using kids [OF that(1)] that(2) s s1 n1 irrefl asym by (auto simp: t_def)
    have pick: "runs (if p * 2 < n then kdo (vat v (p * 2)) (\<lambda>x. kdo (vat v (p * 2 + 1)) (\<lambda>y. kret (if lt x y then p * 2 + 1 else p * 2))) else kret (p * 2)) h Q
        \<longleftrightarrow> Q t h" for Q
      using s s1 l n1 by (simp add: r t_def)
    show ?thesis
    proof (cases "lt (xs ! unat t) (xs ! unat p)")
      case lt: True
      have "\<not> lt (xs ! unat p) (xs ! i)" if "i div 2 = unat p" "i < length xs" for i
        using best [OF that] trans [OF lt] by blast
      then have "heap_but lt xs (\<lambda>_. False)" by (rule sift_down_done [OF Suc.prems(2)])
      then show ?thesis using True lt t(2) Suc.prems(1,5) by (auto simp: pick r)
    next
      case False
      let ?ys = "swapped (unat t) (unat p) xs"
      note st = sift_down_step [OF Suc.prems(2,3) p0 t(2,1) best False]
      have t0: "0 < t" using t(1) p0 by (auto simp: word_less_nat_alt intro: gr0I)
      have "unat p * 2 \<le> unat t" using t(1) by linarith
      then have "unat p * 2 * 2 ^ k \<le> unat t * 2 ^ k" by (rule mult_le_mono1)
      moreover have "length xs \<le> unat p * 2 * 2 ^ k" using Suc.prems(7) by (simp add: mult.assoc)
      ultimately have f: "length xs \<le> unat t * 2 ^ k" by linarith
      have "runs (swap v t p) h (\<lambda>_ h'. runs (sift_down (Suc k) lt v t (t * 2) n) h'
          (\<lambda>_ h'. \<exists>ys. vec_ok h' v ys \<and> mset ys = mset ?ys \<and> ys ! 0 = ?ys ! 0 \<and> heap_but lt ys (\<lambda>_. False)))"
        by (rule runs_weaken [OF swap_law [OF Suc.prems(1) t(2) Suc.prems(5)]], rule Suc.IH)
          (use st t0 t(2) f Suc.prems(6,8) in auto)
      moreover have "mset ?ys = mset xs" using t(2) Suc.prems(5) by (rule swapped_mset)
      moreover have "unat t \<noteq> 0" using t(1) p0 by linarith
      then have "?ys ! 0 = xs ! 0" using t(2) p0 Suc.prems(5) by (simp add: swapped_nth)
      ultimately show ?thesis using True False Suc.prems(5) t(2) by (simp add: pick r)
    qed
  qed
qed

lemma heap_top:
  assumes "heap_but lt xs (\<lambda>_. False)" "0 < i" "i < length xs"
  shows "\<not> lt (xs ! 1) (xs ! i)"
  using assms(2,3)
proof (induction i rule: less_induct)
  case (less i)
  show ?case
  proof (cases "i = 1")
    case True
    then show ?thesis using irrefl by simp
  next
    case False
    then have "i div 2 < i" "0 < i div 2" using less.prems(1) by linarith+
    then have "\<not> lt (xs ! 1) (xs ! (i div 2))" using less.IH [of "i div 2"] less.prems(2) by simp
    moreover have "\<not> lt (xs ! (i div 2)) (xs ! i)" using assms(1) less.prems False by (simp add: heap_but_def)
    ultimately show ?thesis by (rule neg_trans)
  qed
qed

end

section \<open>Priority queues as multisets\<close>

definition pq_rep :: "('a \<Rightarrow> 'a \<Rightarrow> bool) \<Rightarrow> 'a kheap \<Rightarrow> 'a priority_queue \<Rightarrow> 'a multiset \<Rightarrow> bool" where
  "pq_rep lt h q M \<longleftrightarrow> (\<exists>ph xs. vec_ok h (pq_container q) (ph # xs) \<and> unat (nelement q) = length xs \<and>
     heap_but lt (ph # xs) (\<lambda>_. False) \<and> mset xs = M)"

lemma pq_repI:
  assumes "vec_ok h (pq_container q) ys" "unat (nelement q) = length ys - 1" "heap_but lt ys (\<lambda>_. False)" "mset ys = add_mset (ys ! 0) M"
  shows "pq_rep lt h q M"
proof -
  obtain ph xs where "ys = ph # xs" using assms(4) by (cases ys) auto
  then show ?thesis using assms by (auto simp: pq_rep_def)
qed

context strict_weak_order
begin

lemma pq_push_law:
  assumes "pq_rep lt h q M" "size M + 2 \<le> 2 ^ 31"
  shows "runs (pq_push lt q x) h (\<lambda>q' h'. pq_rep lt h' q' (add_mset x M))"
proof -
  obtain ph xs where q: "vec_ok h (pq_container q) (ph # xs)" "unat (nelement q) = length xs" "heap_but lt (ph # xs) (\<lambda>_. False)" "mset xs = M"
    using assms(1) by (auto simp: pq_rep_def)
  have len: "length xs + 2 \<le> 2 ^ 31" using assms(2) q(4) by auto
  have ne: "\<not> vempty (pq_container q)" using vec_okD(3) [OF q(1)] by (auto simp: vempty_def)
  let ?zs = "ph # xs @ [x]" and ?p = "nelement q + 1"
  have p: "unat ?p = Suc (length xs)" using q(2) len by (simp add: unat_word_ariths)
  have hb: "heap_but lt ?zs (\<lambda>i. i = unat ?p)" unfolding heap_but_def p
  proof (intro allI impI, elim conjE)
    fix i assume i: "2 \<le> i" "i < length ?zs" "i \<noteq> Suc (length xs)"
    then have "?zs ! i = (ph # xs) ! i" "?zs ! (i div 2) = (ph # xs) ! (i div 2)"
      by (auto simp: nth_Cons nth_append split: nat.splits)
    then show "\<not> lt (?zs ! (i div 2)) (?zs ! i)" using q(3) i by (simp add: heap_but_def)
  qed
  have sl: "skip_level lt ?zs (unat ?p)" unfolding skip_level_def p
  proof (intro allI impI, elim conjE)
    fix i assume "i div 2 = Suc (length xs)" "i < length ?zs"
    moreover have "length ?zs = length xs + 2" by simp
    ultimately have False by linarith
    then show "\<not> lt (?zs ! (Suc (length xs) div 2)) (?zs ! i)" ..
  qed
  have up: "runs (sift_up 33 lt w ?p) h' (\<lambda>_ h'. pq_rep lt h' (q\<lparr>pq_container := w, nelement := ?p\<rparr>) (add_mset x M))"
    if w: "vec_ok h' w ?zs" for w h'
  proof -
    have "runs (sift_up (Suc 32) lt w ?p) h' (\<lambda>_ h'. \<exists>ys. vec_ok h' w ys \<and> mset ys = mset ?zs \<and> ys ! 0 = ?zs ! 0 \<and> heap_but lt ys (\<lambda>_. False))"
      by (rule sift_up_law [OF w hb sl]) (use p len in \<open>simp_all add: word_less_nat_alt\<close>)
    then show ?thesis
    proof (simp, elim runs_weaken, elim exE conjE)
      fix h1 ys assume ys: "vec_ok h1 w ys" "mset ys = add_mset ph (add_mset x (mset xs))" "ys ! 0 = ph" "heap_but lt ys (\<lambda>_. False)"
      have "length ys = length xs + 2" using arg_cong [OF ys(2), of size] by simp
      then show "pq_rep lt h1 (q\<lparr>pq_container := w, nelement := ?p\<rparr>) (add_mset x M)"
        using ys p q(4) by (intro pq_repI [of _ _ ys]) auto
    qed
  qed
  have "runs (push_back (pq_container q) x) h (\<lambda>w h'. vec_ok h' w ?zs)"
    using push_back_law [OF q(1), of x] len by simp
  then have "runs (push_back (pq_container q) x) h (\<lambda>w h'. runs (sift_up 33 lt w ?p) h'
      (\<lambda>_ h'. pq_rep lt h' (q\<lparr>pq_container := w, nelement := ?p\<rparr>) (add_mset x M)))"
    by (rule runs_weaken) (rule up)
  then show ?thesis using ne by (simp add: pq_push_def Let_def)
qed

lemma pq_top_law:
  assumes "pq_rep lt h q M" "M \<noteq> {#}"
  obtains x where "x \<in># M" "pq_top q h = Ok x h" "\<And>y. y \<in># M \<Longrightarrow> \<not> lt x y"
    "size M < 2 ^ 31 \<Longrightarrow> runs (pq_pop lt q) h (\<lambda>q' h'. pq_rep lt h' q' (M - {#x#}))"
proof -
  obtain ph xs where q: "vec_ok h (pq_container q) (ph # xs)" "unat (nelement q) = length xs" "heap_but lt (ph # xs) (\<lambda>_. False)" "mset xs = M"
    using assms(1) by (auto simp: pq_rep_def)
  then have ne: "xs \<noteq> []" using assms(2) by auto
  show ?thesis
  proof (rule that [of "xs ! 0"])
    show "xs ! 0 \<in># M" using q(4) ne by (metis nth_mem length_greater_0_conv set_mset_mset)
    show "pq_top q h = Ok (xs ! 0) h" unfolding pq_top_def using vat_law [OF q(1), of 1] ne by simp
    show "\<not> lt (xs ! 0) y" if "y \<in># M" for y
    proof -
      obtain i where "i < length xs" "y = xs ! i" using \<open>y \<in># M\<close> q(4) by (metis in_set_conv_nth set_mset_mset)
      then show ?thesis using heap_top [OF q(3), of "Suc i"] by simp
    qed
    assume M: "size M < 2 ^ 31"
    let ?n = "nelement q" and ?ws = "swapped 1 (length xs) (ph # xs)"
    let ?zs = "butlast ?ws" and ?q = "q\<lparr>pq_container := pop_back (pq_container q), nelement := nelement q - 1\<rparr>"
    have len: "length xs < 2 ^ 31" using M q(4) by auto
    have n0: "?n \<noteq> 0" using q(2) ne by auto
    have n1: "unat (?n - 1) = length ?zs - 1" using n0 q(2) ne by (simp add: unat_minus_one)
    have ws: "?ws ! k = (if k = 1 then xs ! (length xs - 1) else if k = length xs then xs ! 0 else (ph # xs) ! k)" for k
      using swapped_nth [of 1 "ph # xs" "length xs" k] ne by (auto simp: nth_Cons')
    have zs: "?zs ! k = ?ws ! k" if "k < length xs" for k using that by (simp add: nth_butlast)
    have mz: "mset ?zs = add_mset ph (M - {#xs ! 0#})"
    proof -
      have "?ws \<noteq> []" by (metis length_swapped list.size(3) length_Cons nat.distinct(1))
      moreover have "last ?ws = xs ! 0" using ws [of "length xs"] ne \<open>?ws \<noteq> []\<close> by (auto simp: last_conv_nth)
      ultimately have "mset ?ws = add_mset (xs ! 0) (mset ?zs)" by (metis append_butlast_last_id mset.simps(2) mset_append union_mset_add_mset_right add.right_neutral mset.simps(1))
      moreover have "mset ?ws = add_mset ph M" using swapped_mset [of 1 "ph # xs" "length xs"] ne q(4) by (cases xs) auto
      moreover have "xs ! 0 \<in># M" using q(4) ne by (metis nth_mem length_greater_0_conv set_mset_mset)
      ultimately show ?thesis by (metis add_mset_remove_trivial_eq add_mset_commute add_mset_add_mset_same_iff insert_DiffM)
    qed
    have z0: "?zs ! 0 = ph" using ne ws [of 0] zs [of 0] by simp
    have hz: "heap_but lt ?zs (\<lambda>i. i div 2 = 1)" unfolding heap_but_def
    proof (intro allI impI, elim conjE)
      fix i assume i: "2 \<le> i" "i < length ?zs" "i div 2 \<noteq> 1"
      then have "i div 2 \<noteq> 0" "i div 2 < length xs" "i < length xs" by (auto simp: div_eq_0_iff)
      then show "\<not> lt (?zs ! (i div 2)) (?zs ! i)" using i q(3) by (simp add: zs ws heap_but_def del: One_nat_def)
    qed
    have down: "runs (sift_down 33 lt (pq_container ?q) 1 2 (?n - 1)) h' (\<lambda>_ h'. pq_rep lt h' ?q (M - {#xs ! 0#}))"
      if w: "vec_ok h' (pq_container ?q) ?zs" for h'
    proof (cases "length xs = 1")
      case True
      then have "?n - 1 = 0" using n1 by (simp add: unat_eq_0)
      moreover have "heap_but lt ?zs (\<lambda>_. False)" using True by (simp add: heap_but_def)
      then have "pq_rep lt h' ?q (M - {#xs ! 0#})" using w n1 mz z0 by (intro pq_repI [of _ _ ?zs]) auto
      moreover have "sift_down (Suc 32) lt w 1 2 0 h' = Ok () h'" for w by (subst sift_down.simps(2)) (simp add: kret_def)
      ultimately show ?thesis by (simp add: runs_def)
    next
      case False
      have "runs (sift_down (Suc 32) lt (pq_container ?q) 1 (1 * 2) (?n - 1)) h'
          (\<lambda>_ h'. \<exists>ys. vec_ok h' (pq_container ?q) ys \<and> mset ys = mset ?zs \<and> ys ! 0 = ?zs ! 0 \<and> heap_but lt ys (\<lambda>_. False))"
        by (rule sift_down_law [OF w]) (use hz len n1 ne False in \<open>auto simp: skip_level_def Suc_lessI\<close>)
      moreover have "Suc 32 = 33" "(1 :: u32) * 2 = 2" by simp_all
      ultimately show ?thesis unfolding \<open>Suc 32 = 33\<close> \<open>(1 :: u32) * 2 = 2\<close>
      proof (elim runs_weaken exE conjE)
        fix h1 ys assume ys: "vec_ok h1 (pq_container ?q) ys" "mset ys = mset ?zs" "ys ! 0 = ?zs ! 0" "heap_but lt ys (\<lambda>_. False)"
        have "length ys = length ?zs" using ys(2) by (rule mset_eq_length)
        then show "pq_rep lt h1 ?q (M - {#xs ! 0#})" using ys mz z0 n1 by (intro pq_repI [of _ _ ys]) auto
      qed
    qed
    have "runs (swap (pq_container q) 1 ?n) h (\<lambda>_ h'. vec_ok h' (pq_container q) ?ws)"
      using swap_law [OF q(1), of 1 ?n] q(2) ne by simp
    then have "runs (swap (pq_container q) 1 ?n) h (\<lambda>_ h'. runs (sift_down 33 lt (pq_container ?q) 1 2 (?n - 1)) h'
        (\<lambda>_ h'. pq_rep lt h' ?q (M - {#xs ! 0#})))"
      by (rule runs_weaken, intro down) (simp add: pop_back_law del: One_nat_def)
    then show "runs (pq_pop lt q) h (\<lambda>q' h'. pq_rep lt h' q' (M - {#xs ! 0#}))"
      using n0 by (simp add: pq_pop_def Let_def)
  qed
qed

end

lemma PriorityQueue_law:
  assumes "\<forall>p\<ge>hp_next h. hp_blocks h p = None" "0 < hp_next h"
  shows "runs (PriorityQueue ph) h (\<lambda>q h'. pq_rep lt h' q {#})"
proof -
  have "runs (Vector 0) h (\<lambda>v h'. runs (vclear v) h' (\<lambda>v h'. runs (push_back v ph) h' (\<lambda>v h'. vec_ok h' v [ph])))"
    by (rule runs_weaken [OF Vector_law [OF assms]], rule runs_weaken [OF vclear_law], assumption)
      (rule push_back_law [of _ _ "[]", simplified], assumption)
  then show ?thesis by (auto simp: PriorityQueue_def pq_rep_def heap_but_def elim!: runs_weaken)
qed

text \<open>
  The constructor with a size allocates the array it needs and then replaces it by an array of one
  element, so that only the first element of the new vector exists.
\<close>

lemma Vector_sized_overflow:
  assumes "0 < unat i"
  shows "runs (Vector s) h (\<lambda>v h'. v_size v = s \<and> vat v i h' = Fail (Undef ''out of bounds''))"
  using assms by (auto simp: Vector_def allocate_def vat_def cell_def runs_iff kdo_def kop_defs)

text \<open>
  C36. \<^verbatim>\<open>Vector\<close> implements lists. On a vector that holds the list \<open>xs\<close> of fewer than 2^31 elements,
  \<^verbatim>\<open>operator[]\<close> reads the elements, \<^verbatim>\<open>push_back\<close>, \<^verbatim>\<open>pop_back\<close>, \<^verbatim>\<open>insert\<close>, \<^verbatim>\<open>erase\<close> and \<^verbatim>\<open>clear\<close> return and change the list as
  they should, growing the array by \<^verbatim>\<open>reserve\<close> when it is full, and \<^verbatim>\<open>reserve\<close> and \<^verbatim>\<open>shrink_to_fit\<close> keep the
  list. No call touches a cell outside the array or one that was not written.
\<close>

theorem vector_refines_list:
  assumes "vec_ok h v xs" "length xs < 2 ^ 31"
  shows "(unat i < length xs \<longrightarrow> vat v i h = Ok (xs ! unat i) h) \<and>
    runs (push_back v x) h (\<lambda>w h'. vec_ok h' w (xs @ [x])) \<and>
    vec_ok h (pop_back v) (butlast xs) \<and>
    (k \<le> length xs \<longrightarrow> runs (vinsert v (int k) x) h (\<lambda>(r, w) h'. r = Some (int k) \<and> vec_ok h' w (take k xs @ x # drop k xs))) \<and>
    (k < length xs \<longrightarrow> runs (verase v (int k)) h (\<lambda>(r, w) h'. r = Some (int k) \<and> vec_ok h' w (take k xs @ drop (Suc k) xs))) \<and>
    (length xs \<le> unat n \<and> unat n \<le> 2 ^ 31 \<longrightarrow> runs (reserve n v) h (\<lambda>w h'. vec_ok h' w xs \<and> n \<le> v_capacity w)) \<and>
    runs (shrink_to_fit v) h (\<lambda>w h'. vec_ok h' w xs) \<and> runs (vclear v) h (\<lambda>w h'. vec_ok h' w [])"
  using vat_law [OF assms(1)] push_back_law [OF assms] pop_back_law [OF assms(1)] vinsert_law [OF assms(1) _ assms(2)]
    verase_law [OF assms(1)] reserve_law [OF assms(1)] shrink_law [OF assms(1)] vclear_law [OF assms(1)] assms(2)
  by (auto simp: word_le_nat_alt)

text \<open>
  C37. \<^verbatim>\<open>PriorityQueue\<close> implements multisets, for both comparisons of the library. A new queue is empty;
  \<^verbatim>\<open>push\<close> adds its argument; on a queue that is not empty \<^verbatim>\<open>top\<close> returns an element that is not before any
  other (the greatest for \<^verbatim>\<open>less\<close>, the least for \<^verbatim>\<open>greater\<close>) and \<^verbatim>\<open>pop\<close> removes this element and no other;
  \<^verbatim>\<open>pop\<close> of an empty queue does nothing.
\<close>

theorem priority_queue_refines_multiset:
  fixes M :: "'a :: linorder multiset"
  assumes "lt = klib_less \<or> lt = klib_greater" "\<forall>p\<ge>hp_next h. hp_blocks h p = None" "0 < hp_next h"
  shows "runs (PriorityQueue ph) h (\<lambda>q h'. pq_rep lt h' q {#}) \<and>
    (pq_rep lt h q M \<and> size M + 2 \<le> 2 ^ 31 \<longrightarrow> runs (pq_push lt q x) h (\<lambda>q' h'. pq_rep lt h' q' (add_mset x M))) \<and>
    (pq_rep lt h q M \<and> size M < 2 ^ 31 \<and> M \<noteq> {#} \<longrightarrow> (\<exists>y. y \<in># M \<and> (\<forall>z\<in>#M. \<not> lt y z) \<and> pq_top q h = Ok y h \<and>
      runs (pq_pop lt q) h (\<lambda>q' h'. pq_rep lt h' q' (M - {#y#})))) \<and>
    (pq_rep lt h q {#} \<longrightarrow> pq_pop lt q h = Ok q h)"
proof (intro conjI)
  show "runs (PriorityQueue ph) h (\<lambda>q h'. pq_rep lt h' q {#})" by (rule PriorityQueue_law [OF assms(2,3)])
  show "pq_rep lt h q M \<and> size M + 2 \<le> 2 ^ 31 \<longrightarrow> runs (pq_push lt q x) h (\<lambda>q' h'. pq_rep lt h' q' (add_mset x M))"
    using assms(1) le.pq_push_law gr.pq_push_law by blast
  show "pq_rep lt h q M \<and> size M < 2 ^ 31 \<and> M \<noteq> {#} \<longrightarrow> (\<exists>y. y \<in># M \<and> (\<forall>z\<in>#M. \<not> lt y z) \<and> pq_top q h = Ok y h \<and>
      runs (pq_pop lt q) h (\<lambda>q' h'. pq_rep lt h' q' (M - {#y#})))"
    using assms(1) le.pq_top_law gr.pq_top_law by metis
  show "pq_rep lt h q {#} \<longrightarrow> pq_pop lt q h = Ok q h"
    by (auto simp: pq_rep_def pq_pop_def kret_def unat_eq_0)
qed

text \<open>A heap with no blocks yet, and a vector on it.\<close>

definition demo_heap :: "nat kheap" where
  "demo_heap = \<lparr>hp_blocks = (\<lambda>p. if p = 1 then Some [Some 5, Some 9, None, None] else None), hp_next = 2\<rparr>"

theorem vector_refines_list_witness:
  "runs (vinsert \<lparr>v_size = 2, v_capacity = 4, v_data = 1\<rparr> 1 7) demo_heap (\<lambda>(r, w) h'. r = Some 1 \<and> vec_ok h' w [5, 7, 9])"
proof -
  have "vec_ok demo_heap \<lparr>v_size = 2, v_capacity = 4, v_data = 1\<rparr> [5, 9]" by (simp add: vec_ok_def demo_heap_def)
  then show ?thesis using vector_refines_list [of demo_heap "\<lparr>v_size = 2, v_capacity = 4, v_data = 1\<rparr>" "[5, 9]" 0 7 1 0] by simp
qed

definition demo_queue :: "nat priority_queue" where
  "demo_queue = \<lparr>pq_container = \<lparr>v_size = 3, v_capacity = 4, v_data = 1\<rparr>, placeholder0 = 0, nelement = 2\<rparr>"

theorem priority_queue_refines_multiset_witness:
  "\<exists>h :: nat kheap. pq_top demo_queue h = Ok 9 h \<and> runs (pq_pop klib_less demo_queue) h (\<lambda>q' h'. pq_rep klib_less h' q' {#4#})"
proof -
  define h :: "nat kheap" where "h = \<lparr>hp_blocks = (\<lambda>p. if p = 1 then Some [Some 0, Some 9, Some 4, None] else None), hp_next = 2\<rparr>"
  have h: "\<forall>p\<ge>hp_next h. hp_blocks h p = None" "0 < hp_next h" by (simp_all add: h_def)
  have "vec_ok h (pq_container demo_queue) [0, 9, 4]" by (simp add: vec_ok_def h_def demo_queue_def)
  moreover have "heap_but klib_less [0, 9, 4 :: nat] (\<lambda>_. False)"
    by (auto simp: heap_but_def klib_less_def less_Suc_eq numeral_2_eq_2 numeral_3_eq_3)
  ultimately have "pq_rep klib_less h demo_queue {#9, 4#}"
    unfolding pq_rep_def by (intro exI [of _ 0] exI [of _ "[9, 4]"]) (simp add: demo_queue_def)
  then obtain y where y: "y \<in># {#9, 4#}" "\<forall>z\<in>#{#9, 4#}. \<not> klib_less y z" "pq_top demo_queue h = Ok y h"
      "runs (pq_pop klib_less demo_queue) h (\<lambda>q' h'. pq_rep klib_less h' q' ({#9, 4#} - {#y#}))"
    using priority_queue_refines_multiset [OF disjI1 [OF refl] h, of 0 demo_queue "{#9, 4#}"] by auto
  then have "y = 9" by (auto simp: klib_less_def)
  then show ?thesis using y by auto
qed

end
