(* ===== verification/Userland.thy ===== *)
theory Userland
  imports Memory
begin

text \<open>
  User programs. A program runs against a record \<open>os\<close> of system calls on a world \<open>'w\<close> it does not see
  into; the kernel behind the calls is the subject of the other theories. \<^verbatim>\<open>exit\<close> and a successful \<^verbatim>\<open>exec\<close>
  leave the program (\<open>Suspend\<close>). Strings are byte lists without their terminating 0. The theory has the
  library of \<^verbatim>\<open>lib/ulibc\<close> (\<^verbatim>\<open>ulib.c\<close>, \<^verbatim>\<open>printf.c\<close>) and the programs \<^verbatim>\<open>cat\<close>, \<^verbatim>\<open>wc\<close>, \<^verbatim>\<open>grep\<close>, \<^verbatim>\<open>ls\<close>, \<^verbatim>\<open>echo\<close>, \<^verbatim>\<open>init\<close>, \<^verbatim>\<open>kill\<close>,
  \<^verbatim>\<open>ln\<close>, \<^verbatim>\<open>mkdir\<close> and \<^verbatim>\<open>rm\<close>; it shows that \<^verbatim>\<open>wc\<close> counts its input however reads cut it, that the matcher of
  \<^verbatim>\<open>grep\<close> decides its patterns, and that \<^verbatim>\<open>grep\<close> itself loses lines that come in two reads.
\<close>

section \<open>System calls\<close>

type_synonym bytes = "u8 list"

record ustat =
  us_type :: int
  us_ino :: u32
  us_size :: u32

record 'w os =
  os_fork :: "('w, int) kop"
  os_wait :: "('w, int) kop"
  os_pipe :: "('w, (int \<times> int) option) kop"
  os_write :: "int \<Rightarrow> bytes \<Rightarrow> ('w, int) kop"
  os_read :: "int \<Rightarrow> nat \<Rightarrow> ('w, bytes option) kop"
  os_close :: "int \<Rightarrow> ('w, int) kop"
  os_kill :: "u32 \<Rightarrow> ('w, int) kop"
  os_exec :: "bytes \<Rightarrow> bytes list \<Rightarrow> ('w, int) kop"
  os_open :: "bytes \<Rightarrow> nat \<Rightarrow> ('w, int) kop"
  os_mknod :: "bytes \<Rightarrow> nat \<Rightarrow> nat \<Rightarrow> ('w, int) kop"
  os_unlink :: "bytes \<Rightarrow> ('w, int) kop"
  os_fstat :: "int \<Rightarrow> ('w, ustat option) kop"
  os_link :: "bytes \<Rightarrow> bytes \<Rightarrow> ('w, int) kop"
  os_mkdir :: "bytes \<Rightarrow> ('w, int) kop"
  os_chdir :: "bytes \<Rightarrow> ('w, int) kop"
  os_dup :: "int \<Rightarrow> ('w, int) kop"
  os_sbrk :: "u32 \<Rightarrow> ('w, u32) kop"

definition uexit :: "('w, 'a) kop" where "uexit = ksuspend"

definition str :: "string \<Rightarrow> bytes" where "str s = map of_char s"

definition NL :: u8 where "NL = 10"

section \<open>ulib.c\<close>

definition hd0 :: "bytes \<Rightarrow> u8" where "hd0 s = (case s of [] \<Rightarrow> 0 | c # _ \<Rightarrow> c)"

primrec ustrcpy :: "memory \<Rightarrow> u32 \<Rightarrow> bytes \<Rightarrow> memory" where
  "ustrcpy m s [] = m(s := 0)"
| "ustrcpy m s (c # t) = (if c = 0 then m(s := 0) else ustrcpy (m(s := c)) (s + 1) t)"

fun ustrcmp :: "bytes \<Rightarrow> bytes \<Rightarrow> int" where
  "ustrcmp (a # p) (b # q) = (if a \<noteq> 0 \<and> a = b then ustrcmp p q else int (unat a) - int (unat b))"
| "ustrcmp p q = int (unat (hd0 p)) - int (unat (hd0 q))"

definition ustrlen :: "bytes \<Rightarrow> nat" where "ustrlen s = length (takeWhile (\<lambda>c. c \<noteq> 0) s)"

primrec ustrchr :: "bytes \<Rightarrow> u8 \<Rightarrow> bytes option" where
  "ustrchr [] c = None"
| "ustrchr (x # s) c = (if x = 0 then None else if x = c then Some (x # s) else ustrchr s c)"

primrec gets_loop :: "'w os \<Rightarrow> nat \<Rightarrow> ('w, bytes) kop" where
  "gets_loop os 0 = kret []"
| "gets_loop os (Suc k) =
     kdo (os_read os 0 1) (\<lambda>cc.
     case cc of
       Some (c # _) \<Rightarrow> if c = NL \<or> c = 13 then kret [c] else kdo (gets_loop os k) (\<lambda>s. kret (c # s))
     | _ \<Rightarrow> kret [])"

definition gets :: "'w os \<Rightarrow> nat \<Rightarrow> ('w, bytes) kop" where
  "gets os n = gets_loop os (n - 1)"

definition ustat_of :: "'w os \<Rightarrow> bytes \<Rightarrow> ('w, ustat option) kop" where
  "ustat_of os n =
     kdo (os_open os n 0) (\<lambda>fd.
     if fd < 0 then kret None
     else
     kdo (os_fstat os fd) (\<lambda>r.
     kdo (os_close os fd) (\<lambda>_.
     kret r)))"

primrec atoi_from :: "u32 \<Rightarrow> bytes \<Rightarrow> u32" where
  "atoi_from n [] = n"
| "atoi_from n (c # s) = (if 0x30 \<le> c \<and> c \<le> 0x39 then atoi_from (n * 10 + ucast c - 0x30) s else n)"

definition atoi :: "bytes \<Rightarrow> u32" where "atoi s = atoi_from 0 s"

primrec umemmove :: "memory \<Rightarrow> u32 \<Rightarrow> u32 \<Rightarrow> nat \<Rightarrow> memory" where
  "umemmove m dst src 0 = m"
| "umemmove m dst src (Suc n) = umemmove (m(dst := m src)) (dst + 1) (src + 1) n"

section \<open>printf.c\<close>

datatype uarg = UInt u32 | UStr "bytes option"

definition uputc :: "'w os \<Rightarrow> int \<Rightarrow> u8 \<Rightarrow> ('w, unit) kop" where
  "uputc os fd c = kdo (os_write os fd [c]) (\<lambda>_. kret ())"

definition udigit :: "nat \<Rightarrow> u8" where
  "udigit d = (if d < 10 then 0x30 + of_nat d else 0x41 + of_nat (d - 10))"

function udigits :: "nat \<Rightarrow> nat \<Rightarrow> bytes" where
  "udigits base x = udigit (x mod base) # (if base \<le> 1 \<or> x div base = 0 then [] else udigits base (x div base))"
  by pat_completeness auto
termination
  by (relation "measure snd") (auto simp: div_less_dividend div_eq_0_iff not_less)

declare udigits.simps [simp del]

definition uint_chars :: "u32 \<Rightarrow> nat \<Rightarrow> bool \<Rightarrow> bytes" where
  "uint_chars xx base sg =
     (let neg = sg \<and> xx <s 0;
          x = if neg then - xx else xx;
          buf = udigits base (unat x) @ (if neg then [0x2D] else [])
      in rev buf)"

definition uprintint :: "'w os \<Rightarrow> int \<Rightarrow> u32 \<Rightarrow> nat \<Rightarrow> bool \<Rightarrow> ('w, unit) kop" where
  "uprintint os fd xx base sg = kfor (uputc os fd) (uint_chars xx base sg)"

text \<open>\<open>pct\<close> is \<^verbatim>\<open>state == '%'\<close>; an argument of the wrong kind or a missing one is undefined.\<close>

primrec printf_from :: "'w os \<Rightarrow> int \<Rightarrow> bytes \<Rightarrow> bool \<Rightarrow> uarg list \<Rightarrow> ('w, unit) kop" where
  "printf_from os fd [] pct ap = kret ()"
| "printf_from os fd (c # fmt) pct ap =
     (if \<not> pct then
        if c = 0x25 then printf_from os fd fmt True ap
        else kdo (uputc os fd c) (\<lambda>_. printf_from os fd fmt False ap)
      else if c = 0x64 then
        (case ap of UInt a # ap' \<Rightarrow> kdo (uprintint os fd a 10 True) (\<lambda>_. printf_from os fd fmt False ap')
         | _ \<Rightarrow> kfail (Undef ''printf''))
      else if c = 0x78 \<or> c = 0x70 then
        (case ap of UInt a # ap' \<Rightarrow> kdo (uprintint os fd a 16 False) (\<lambda>_. printf_from os fd fmt False ap')
         | _ \<Rightarrow> kfail (Undef ''printf''))
      else if c = 0x73 then
        (case ap of UStr s # ap' \<Rightarrow>
           kdo (kfor (uputc os fd) (case s of None \<Rightarrow> str ''(null)'' | Some t \<Rightarrow> t)) (\<lambda>_. printf_from os fd fmt False ap')
         | _ \<Rightarrow> kfail (Undef ''printf''))
      else if c = 0x63 then
        (case ap of UInt a # ap' \<Rightarrow> kdo (uputc os fd (ucast a)) (\<lambda>_. printf_from os fd fmt False ap')
         | _ \<Rightarrow> kfail (Undef ''printf''))
      else if c = 0x25 then kdo (uputc os fd c) (\<lambda>_. printf_from os fd fmt False ap)
      else
        kdo (uputc os fd 0x25) (\<lambda>_. kdo (uputc os fd c) (\<lambda>_. printf_from os fd fmt False ap)))"

definition printf :: "'w os \<Rightarrow> int \<Rightarrow> bytes \<Rightarrow> uarg list \<Rightarrow> ('w, unit) kop" where
  "printf os fd fmt ap = printf_from os fd fmt False ap"

section \<open>cat, wc\<close>

text \<open>Loops over an input take fuel: an input need not end.\<close>

primrec cat_loop :: "nat \<Rightarrow> 'w os \<Rightarrow> int \<Rightarrow> ('w, unit) kop" where
  "cat_loop 0 os fd = kfail Diverge"
| "cat_loop (Suc k) os fd =
     kdo (os_read os fd 512) (\<lambda>r.
     case r of
       None \<Rightarrow> kdo (printf os 1 (str ''cat: read error'' @ [NL]) []) (\<lambda>_. uexit)
     | Some buf \<Rightarrow>
         if buf = [] then kret ()
         else
         kdo (os_write os 1 buf) (\<lambda>n.
         if n \<noteq> int (length buf) then kdo (printf os 1 (str ''cat: write error'' @ [NL]) []) (\<lambda>_. uexit)
         else cat_loop k os fd))"

primrec over_files :: "'w os \<Rightarrow> string \<Rightarrow> (int \<Rightarrow> bytes \<Rightarrow> ('w, unit) kop) \<Rightarrow> bytes list \<Rightarrow> ('w, unit) kop" where
  "over_files os name f [] = uexit"
| "over_files os name f (a # argv) =
     kdo (os_open os a 0) (\<lambda>fd.
     if fd < 0 then kdo (printf os 1 (str (name @ '': cannot open %s'') @ [NL]) [UStr (Some a)]) (\<lambda>_. uexit)
     else
     kdo (f fd a) (\<lambda>_.
     kdo (os_close os fd) (\<lambda>_.
     over_files os name f argv)))"

definition cat_main :: "nat \<Rightarrow> 'w os \<Rightarrow> bytes list \<Rightarrow> ('w, unit) kop" where
  "cat_main k os argv =
     (if length argv \<le> 1 then kdo (cat_loop k os 0) (\<lambda>_. uexit)
      else over_files os ''cat'' (\<lambda>fd a. cat_loop k os fd) (tl argv))"

record wcount =
  wc_l :: nat
  wc_w :: nat
  wc_c :: nat
  wc_inword :: bool

definition wc_byte :: "u8 \<Rightarrow> wcount \<Rightarrow> wcount" where
  "wc_byte b s =
     (let s = s\<lparr>wc_c := wc_c s + 1\<rparr>;
          s = if b = NL then s\<lparr>wc_l := wc_l s + 1\<rparr> else s
      in if ustrchr (str '' '' @ [13, 9, 10, 11]) b \<noteq> None then s\<lparr>wc_inword := False\<rparr>
         else if \<not> wc_inword s then s\<lparr>wc_w := wc_w s + 1, wc_inword := True\<rparr>
         else s)"

primrec wc_loop :: "nat \<Rightarrow> 'w os \<Rightarrow> int \<Rightarrow> wcount \<Rightarrow> ('w, wcount option) kop" where
  "wc_loop 0 os fd s = kfail Diverge"
| "wc_loop (Suc k) os fd s =
     kdo (os_read os fd 512) (\<lambda>r.
     case r of
       None \<Rightarrow> kret None
     | Some buf \<Rightarrow> if buf = [] then kret (Some s) else wc_loop k os fd (fold wc_byte buf s))"

definition wc :: "nat \<Rightarrow> 'w os \<Rightarrow> int \<Rightarrow> bytes \<Rightarrow> ('w, unit) kop" where
  "wc k os fd name =
     kdo (wc_loop k os fd \<lparr>wc_l = 0, wc_w = 0, wc_c = 0, wc_inword = False\<rparr>) (\<lambda>r.
     case r of
       None \<Rightarrow> kdo (printf os 1 (str ''wc: read error'' @ [NL]) []) (\<lambda>_. uexit)
     | Some s \<Rightarrow> printf os 1 (str ''%d %d %d %s'' @ [NL])
         [UInt (of_nat (wc_l s)), UInt (of_nat (wc_w s)), UInt (of_nat (wc_c s)), UStr (Some name)])"

definition wc_main :: "nat \<Rightarrow> 'w os \<Rightarrow> bytes list \<Rightarrow> ('w, unit) kop" where
  "wc_main k os argv =
     (if length argv \<le> 1 then kdo (wc k os 0 []) (\<lambda>_. uexit)
      else over_files os ''wc'' (wc k os) (tl argv))"

section \<open>grep\<close>

text \<open>
  \<^verbatim>\<open>match\<close>, \<^verbatim>\<open>matchhere\<close> and \<^verbatim>\<open>matchstar\<close>, on the pattern and tx still to be read; reading past the end of a
  string finds its 0.
\<close>

function (sequential) matchhere :: "bytes \<Rightarrow> bytes \<Rightarrow> bool" and matchstar :: "u8 \<Rightarrow> bytes \<Rightarrow> bytes \<Rightarrow> bool" where
  "matchhere [] tx = True"
| "matchhere (c # re) tx =
     (if hd0 re = 0x2A then matchstar c (tl re) tx
      else if c = 0x24 \<and> re = [] then tx = []
      else if tx \<noteq> [] \<and> (c = 0x2E \<or> c = hd tx) then matchhere re (tl tx)
      else False)"
| "matchstar c re tx =
     (if matchhere re tx then True
      else if tx \<noteq> [] \<and> (hd tx = c \<or> c = 0x2E) then matchstar c re (tl tx)
      else False)"
  by pat_completeness auto
termination
  by (relation "measure (\<lambda>x. case x of Inl (re, tx) \<Rightarrow> 2 * length re + 2 * length tx | Inr (c, re, tx) \<Rightarrow> 2 * length re + 2 * length tx + 1)")
    (auto simp: hd0_def split: list.splits)

declare matchhere.simps(2) [simp del] matchstar.simps [simp del]

primrec match_from :: "bytes \<Rightarrow> bytes \<Rightarrow> bool" where
  "match_from re [] = matchhere re []"
| "match_from re (c # tx) = (if matchhere re (c # tx) then True else match_from re tx)"

definition grep_match :: "bytes \<Rightarrow> bytes \<Rightarrow> bool" where
  "grep_match re tx = (if hd0 re = 0x5E then matchhere (tl re) tx else match_from re tx)"

text \<open>
  \<^verbatim>\<open>grep\<close>: \<open>buf\<close> is the array of 1024 bytes. \<open>grep_lines\<close> is the inner loop from offset \<open>p\<close>, with the offset it
  stops at and the array as it leaves it.
\<close>

definition cstr_at :: "bytes \<Rightarrow> nat \<Rightarrow> bytes" where
  "cstr_at buf p = takeWhile (\<lambda>c. c \<noteq> 0) (drop p buf)"

primrec grep_lines :: "nat \<Rightarrow> 'w os \<Rightarrow> bytes \<Rightarrow> bytes \<Rightarrow> nat \<Rightarrow> ('w, nat \<times> bytes) kop" where
  "grep_lines 0 os pattern buf p = kfail Diverge"
| "grep_lines (Suc k) os pattern buf p =
     (case ustrchr (drop p buf) NL of
        None \<Rightarrow> kret (p, buf)
      | Some rest \<Rightarrow>
          let q = length buf - length rest; buf = buf[q := 0] in
          if grep_match pattern (cstr_at buf p) then
            let buf = buf[q := NL] in
            kdo (os_write os 1 (take (q + 1 - p) (drop p buf))) (\<lambda>_. grep_lines k os pattern buf (q + 1))
          else grep_lines k os pattern buf (q + 1))"

primrec grep_loop :: "nat \<Rightarrow> 'w os \<Rightarrow> bytes \<Rightarrow> int \<Rightarrow> nat \<Rightarrow> bytes \<Rightarrow> ('w, unit) kop" where
  "grep_loop 0 os pattern fd m buf = kfail Diverge"
| "grep_loop (Suc k) os pattern fd m buf =
     kdo (os_read os fd (1024 - m - 1)) (\<lambda>r.
     case r of
       None \<Rightarrow> kret ()
     | Some bs \<Rightarrow>
         if bs = [] then kret ()
         else
         let buf = (blit m bs buf)[m + length bs := 0]; m = m + length bs in
         kdo (grep_lines 1025 os pattern buf 0) (\<lambda>(p, buf).
         let m = if p = 0 then 0 else m in
         if m > 0 then let m = m - p in grep_loop k os pattern fd m (blit 0 (take m (drop p buf)) buf)
         else grep_loop k os pattern fd m buf))"

definition grep :: "nat \<Rightarrow> 'w os \<Rightarrow> bytes \<Rightarrow> int \<Rightarrow> ('w, unit) kop" where
  "grep k os pattern fd = grep_loop k os pattern fd 0 (replicate 1024 0)"

definition grep_main :: "nat \<Rightarrow> 'w os \<Rightarrow> bytes list \<Rightarrow> ('w, unit) kop" where
  "grep_main k os argv =
     (if length argv \<le> 1 then kdo (printf os 2 (str ''usage: grep pattern [file ...]'' @ [NL]) []) (\<lambda>_. uexit)
      else if length argv \<le> 2 then kdo (grep k os (argv ! 1) 0) (\<lambda>_. uexit)
      else over_files os ''grep'' (\<lambda>fd a. grep k os (argv ! 1) fd) (drop 2 argv))"

section \<open>ls\<close>

definition UDIRSIZ :: nat where "UDIRSIZ = 14"

definition fmtname :: "bytes \<Rightarrow> bytes" where
  "fmtname path =
     (let p = rev (takeWhile (\<lambda>c. c \<noteq> 0x2F) (rev path)) in
      if length p \<ge> UDIRSIZ then p
      else p @ replicate (UDIRSIZ - length p) 0x20)"

definition ls_line :: "'w os \<Rightarrow> bytes \<Rightarrow> ustat \<Rightarrow> ('w, unit) kop" where
  "ls_line os path st =
     printf os 1 (str ''%s %d %d %d'' @ [NL])
       [UStr (Some (fmtname path)), UInt (of_int (us_type st)), UInt (us_ino st), UInt (us_size st)]"

primrec ls_entries :: "nat \<Rightarrow> 'w os \<Rightarrow> int \<Rightarrow> bytes \<Rightarrow> ('w, unit) kop" where
  "ls_entries 0 os fd path = kfail Diverge"
| "ls_entries (Suc k) os fd path =
     kdo (os_read os fd 16) (\<lambda>r.
     case r of
       None \<Rightarrow> kret ()
     | Some de \<Rightarrow>
         if length de \<noteq> 16 then kret ()
         else if de ! 0 = 0 \<and> de ! 1 = 0 then ls_entries k os fd path
         else
         let name = path @ [0x2F] @ takeWhile (\<lambda>c. c \<noteq> 0) (take UDIRSIZ (drop 2 de)) in
         kdo (ustat_of os name) (\<lambda>r.
         kdo (case r of
                None \<Rightarrow> printf os 1 (str ''ls: cannot stat %s'' @ [NL]) [UStr (Some name)]
              | Some st \<Rightarrow> ls_line os name st) (\<lambda>_.
         ls_entries k os fd path)))"

definition ls :: "nat \<Rightarrow> 'w os \<Rightarrow> bytes \<Rightarrow> ('w, unit) kop" where
  "ls k os path =
     kdo (os_open os path 0) (\<lambda>fd.
     if fd < 0 then printf os 2 (str ''ls: cannot open %s'' @ [NL]) [UStr (Some path)]
     else
     kdo (os_fstat os fd) (\<lambda>r.
     case r of
       None \<Rightarrow> kdo (printf os 2 (str ''ls: cannot stat %s'' @ [NL]) [UStr (Some path)]) (\<lambda>_. kdo (os_close os fd) (\<lambda>_. kret ()))
     | Some st \<Rightarrow>
         kdo (if us_type st = 2 then ls_line os path st
              else if us_type st = 1 then
                if length path + 1 + UDIRSIZ + 1 > 512 then printf os 1 (str ''ls: path too long'' @ [NL]) []
                else ls_entries k os fd path
              else kret ()) (\<lambda>_.
         kdo (os_close os fd) (\<lambda>_. kret ()))))"

definition ls_main :: "nat \<Rightarrow> 'w os \<Rightarrow> bytes list \<Rightarrow> ('w, unit) kop" where
  "ls_main k os argv =
     kdo (if length argv < 2 then ls k os (str ''.'') else kfor (ls k os) (tl argv)) (\<lambda>_. uexit)"

section \<open>echo, kill, ln, mkdir, rm, init\<close>

definition echo_main :: "'w os \<Rightarrow> bytes list \<Rightarrow> ('w, unit) kop" where
  "echo_main os argv =
     kdo (kfor (\<lambda>i. printf os 1 (str ''%s%s'') [UStr (Some (argv ! i)), UStr (Some (if i + 1 < length argv then str '' '' else [NL]))])
            [1..<length argv]) (\<lambda>_.
     uexit)"

definition kill_main :: "'w os \<Rightarrow> bytes list \<Rightarrow> ('w, unit) kop" where
  "kill_main os argv =
     (if length argv < 2 then kdo (printf os 2 (str ''usage: kill pid...'' @ [NL]) []) (\<lambda>_. uexit)
      else kdo (kfor (\<lambda>a. kdo (os_kill os (atoi a)) (\<lambda>_. kret ())) (tl argv)) (\<lambda>_. uexit))"

definition ln_main :: "'w os \<Rightarrow> bytes list \<Rightarrow> ('w, unit) kop" where
  "ln_main os argv =
     (if length argv \<noteq> 3 then kdo (printf os 2 (str ''Usage: ln old new'' @ [NL]) []) (\<lambda>_. uexit)
      else
      kdo (os_link os (argv ! 1) (argv ! 2)) (\<lambda>r.
      kdo (kwhen (r < 0) (printf os 2 (str ''link %s %s: failed'' @ [NL]) [UStr (Some (argv ! 1)), UStr (Some (argv ! 2))])) (\<lambda>_.
      uexit)))"

primrec until_failure :: "'w os \<Rightarrow> (bytes \<Rightarrow> ('w, int) kop) \<Rightarrow> string \<Rightarrow> bytes list \<Rightarrow> ('w, unit) kop" where
  "until_failure os call msg [] = kret ()"
| "until_failure os call msg (a # argv) =
     kdo (call a) (\<lambda>r.
     if r < 0 then printf os 2 (str msg @ [NL]) [UStr (Some a)]
     else until_failure os call msg argv)"

definition mkdir_main :: "'w os \<Rightarrow> bytes list \<Rightarrow> ('w, unit) kop" where
  "mkdir_main os argv =
     (if length argv < 2 then kdo (printf os 2 (str ''Usage: mkdir files...'' @ [NL]) []) (\<lambda>_. uexit)
      else kdo (until_failure os (os_mkdir os) ''mkdir: %s failed to create'' (tl argv)) (\<lambda>_. uexit))"

definition rm_main :: "'w os \<Rightarrow> bytes list \<Rightarrow> ('w, unit) kop" where
  "rm_main os argv =
     (if length argv < 2 then kdo (printf os 2 (str ''Usage: rm files...'' @ [NL]) []) (\<lambda>_. uexit)
      else kdo (until_failure os (os_unlink os) ''rm: %s failed to delete'' (tl argv)) (\<lambda>_. uexit))"

text \<open>\<open>init_reap\<close> waits for the shell with number \<open>pid\<close>; \<open>init_loop\<close> is the endless loop, for \<open>k\<close> rounds.\<close>

primrec init_reap :: "nat \<Rightarrow> 'w os \<Rightarrow> int \<Rightarrow> ('w, unit) kop" where
  "init_reap 0 os pid = kfail Diverge"
| "init_reap (Suc k) os pid =
     kdo (os_wait os) (\<lambda>wpid.
     if wpid \<ge> 0 \<and> wpid \<noteq> pid then kdo (printf os 1 (str ''zombie!'' @ [NL]) []) (\<lambda>_. init_reap k os pid)
     else kret ())"

primrec init_loop :: "nat \<Rightarrow> 'w os \<Rightarrow> ('w, unit) kop" where
  "init_loop 0 os = kfail Diverge"
| "init_loop (Suc k) os =
     kdo (printf os 1 (str ''init: starting sh'' @ [NL]) []) (\<lambda>_.
     kdo (os_fork os) (\<lambda>pid.
     if pid < 0 then kdo (printf os 1 (str ''init: fork failed'' @ [NL]) []) (\<lambda>_. uexit)
     else if pid = 0 then
       kdo (os_exec os (str ''sh'') [str ''sh'']) (\<lambda>_.
       kdo (printf os 1 (str ''init: exec sh failed'' @ [NL]) []) (\<lambda>_. uexit))
     else kdo (init_reap k os pid) (\<lambda>_. init_loop k os)))"

definition init_main :: "nat \<Rightarrow> 'w os \<Rightarrow> ('w, unit) kop" where
  "init_main k os =
     kdo (os_open os (str ''console'') 2) (\<lambda>fd.
     kdo (if fd < 0 then
            kdo (os_mknod os (str ''console'') 1 1) (\<lambda>_. kdo (os_open os (str ''console'') 2) (\<lambda>_. kret ()))
          else kret ()) (\<lambda>_.
     kdo (os_dup os 0) (\<lambda>_.
     kdo (os_dup os 0) (\<lambda>_.
     init_loop k os))))"

section \<open>What patterns denote\<close>

datatype item = One u8 | Star u8

definition one :: "u8 \<Rightarrow> u8 \<Rightarrow> bool" where "one c u \<longleftrightarrow> c = 0x2E \<or> c = u"

fun lang :: "item list \<Rightarrow> bytes set" where
  "lang [] = {[]}"
| "lang (One c # is) = {u # t | u t. one c u \<and> t \<in> lang is}"
| "lang (Star c # is) = {us @ t | us t. (\<forall>u \<in> set us. one c u) \<and> t \<in> lang is}"

text \<open>The items of a pattern, and whether it ends in an end-of-line mark.\<close>

function pat_items :: "bytes \<Rightarrow> item list \<times> bool" where
  "pat_items [] = ([], False)"
| "pat_items (c # re) =
     (if hd0 re = 0x2A then map_prod (Cons (Star c)) id (pat_items (tl re))
      else if c = 0x24 \<and> re = [] then ([], True)
      else map_prod (Cons (One c)) id (pat_items re))"
  by pat_completeness auto
termination by (relation "measure length") auto

declare pat_items.simps(2) [simp del]

definition begins :: "item list \<times> bool \<Rightarrow> bytes \<Rightarrow> bool" where
  "begins P tx \<longleftrightarrow> (\<exists>mid suf. tx = mid @ suf \<and> mid \<in> lang (fst P) \<and> (snd P \<longrightarrow> suf = []))"

lemma begins_One: "begins (map_prod (Cons (One c)) id P) tx \<longleftrightarrow> (\<exists>u t. tx = u # t \<and> one c u \<and> begins P t)"
proof
  assume "begins (map_prod (Cons (One c)) id P) tx"
  then obtain mid suf where "tx = mid @ suf" "mid \<in> lang (One c # fst P)" "snd P \<longrightarrow> suf = []"
    unfolding begins_def by (cases P) (auto simp del: lang.simps)
  then obtain u t where "tx = (u # t) @ suf" "one c u" "t \<in> lang (fst P)" "snd P \<longrightarrow> suf = []" by auto
  then show "\<exists>u t. tx = u # t \<and> one c u \<and> begins P t" unfolding begins_def by (intro exI [of _ u] exI [of _ "t @ suf"]) auto
next
  assume "\<exists>u t. tx = u # t \<and> one c u \<and> begins P t"
  then obtain u mid suf where "tx = u # mid @ suf" "one c u" "mid \<in> lang (fst P)" "snd P \<longrightarrow> suf = []" unfolding begins_def by blast
  then show "begins (map_prod (Cons (One c)) id P) tx" unfolding begins_def by (intro exI [of _ "u # mid"] exI [of _ suf]) simp
qed

lemma begins_Star: "begins (map_prod (Cons (Star c)) id P) tx \<longleftrightarrow> (\<exists>us t. tx = us @ t \<and> (\<forall>u \<in> set us. one c u) \<and> begins P t)"
proof
  assume "begins (map_prod (Cons (Star c)) id P) tx"
  then obtain mid suf where "tx = mid @ suf" "mid \<in> lang (Star c # fst P)" "snd P \<longrightarrow> suf = []"
    unfolding begins_def by (cases P) (auto simp del: lang.simps)
  moreover then obtain us t where "mid = us @ t" "\<forall>u \<in> set us. one c u" "t \<in> lang (fst P)" by auto
  ultimately have "tx = (us @ t) @ suf" "\<forall>u \<in> set us. one c u" "t \<in> lang (fst P)" "snd P \<longrightarrow> suf = []" by auto
  then show "\<exists>us t. tx = us @ t \<and> (\<forall>u \<in> set us. one c u) \<and> begins P t"
    unfolding begins_def by (intro exI [of _ us] exI [of _ "t @ suf"]) auto
next
  assume "\<exists>us t. tx = us @ t \<and> (\<forall>u \<in> set us. one c u) \<and> begins P t"
  then obtain us mid suf where "tx = us @ mid @ suf" "\<forall>u \<in> set us. one c u" "mid \<in> lang (fst P)" "snd P \<longrightarrow> suf = []"
    unfolding begins_def by blast
  then show "begins (map_prod (Cons (Star c)) id P) tx" unfolding begins_def by (intro exI [of _ "us @ mid"] exI [of _ suf]) auto
qed

lemma star_step:
  "(\<exists>us t. tx = us @ t \<and> (\<forall>u \<in> set us. one c u) \<and> Q t) \<longleftrightarrow>
   Q tx \<or> (tx \<noteq> [] \<and> one c (hd tx) \<and> (\<exists>us t. tl tx = us @ t \<and> (\<forall>u \<in> set us. one c u) \<and> Q t))"
proof
  assume "\<exists>us t. tx = us @ t \<and> (\<forall>u \<in> set us. one c u) \<and> Q t"
  then obtain us t where "tx = us @ t" "\<forall>u \<in> set us. one c u" "Q t" by blast
  then show "Q tx \<or> (tx \<noteq> [] \<and> one c (hd tx) \<and> (\<exists>us t. tl tx = us @ t \<and> (\<forall>u \<in> set us. one c u) \<and> Q t))"
    by (cases us) auto
next
  assume "Q tx \<or> (tx \<noteq> [] \<and> one c (hd tx) \<and> (\<exists>us t. tl tx = us @ t \<and> (\<forall>u \<in> set us. one c u) \<and> Q t))"
  then consider "Q tx" | us t where "tx \<noteq> []" "one c (hd tx)" "tl tx = us @ t" "\<forall>u \<in> set us. one c u" "Q t" by blast
  then show "\<exists>us t. tx = us @ t \<and> (\<forall>u \<in> set us. one c u) \<and> Q t"
  proof cases
    case 1
    then show ?thesis by (intro exI [of _ "[]"] exI [of _ tx]) auto
  next
    case 2
    then show ?thesis by (intro exI [of _ "hd tx # us"] exI [of _ t]) (auto simp: neq_Nil_conv)
  qed
qed

lemma matchhere_begins:
  "matchhere re tx \<longleftrightarrow> begins (pat_items re) tx"
  "matchstar c re tx \<longleftrightarrow> (\<exists>us t. tx = us @ t \<and> (\<forall>u \<in> set us. one c u) \<and> begins (pat_items re) t)"
proof (induction re tx and c re tx rule: matchhere_matchstar.induct)
  case (1 tx)
  then show ?case by (simp add: begins_def)
next
  case (2 c re tx)
  show ?case
  proof (cases "hd0 re = 0x2A")
    case True
    then show ?thesis using 2 by (simp add: matchhere.simps(2) pat_items.simps(2) begins_Star)
  next
    case False
    show ?thesis
    proof (cases "c = 0x24 \<and> re = []")
      case True
      then show ?thesis using False by (simp add: matchhere.simps(2) pat_items.simps(2) begins_def)
    next
      case F: False
      then have "pat_items (c # re) = map_prod (Cons (One c)) id (pat_items re)" using False by (auto simp: pat_items.simps(2))
      then have "begins (pat_items (c # re)) tx \<longleftrightarrow> (\<exists>u t. tx = u # t \<and> one c u \<and> begins (pat_items re) t)"
        by (simp add: begins_One)
      then show ?thesis using 2 False F by (cases tx) (auto simp: matchhere.simps(2) one_def)
    qed
  qed
next
  case (3 c re tx)
  have "one c (hd tx) \<longleftrightarrow> hd tx = c \<or> c = 0x2E" by (auto simp: one_def)
  then show ?case using 3 unfolding star_step [of tx] matchstar.simps [of c re tx] by auto
qed

lemma match_from_iff: "match_from re tx \<longleftrightarrow> (\<exists>pre rest. tx = pre @ rest \<and> matchhere re rest)"
proof (induction tx)
  case (Cons c tx)
  show ?case
  proof
    assume "match_from re (c # tx)"
    then consider "matchhere re (c # tx)" | pre rest where "tx = pre @ rest" "matchhere re rest" using Cons.IH by (auto split: if_splits)
    then show "\<exists>pre rest. c # tx = pre @ rest \<and> matchhere re rest"
      by cases (metis append_Nil, metis append_Cons)
  next
    assume "\<exists>pre rest. c # tx = pre @ rest \<and> matchhere re rest"
    then obtain pre rest where "c # tx = pre @ rest" "matchhere re rest" by blast
    then show "match_from re (c # tx)" using Cons.IH by (cases pre) auto
  qed
qed simp

text \<open>
  C38. The matcher of \<^verbatim>\<open>grep\<close> decides its patterns: a line matches exactly when some part of it is in the
  language of the pattern's items (a character, any character, or any number of them), a part that starts
  the line when the pattern begins with a caret and that ends the line when it ends with a dollar sign.
\<close>

theorem grep_match_correct:
  "grep_match re tx \<longleftrightarrow>
     (let (items, eol) = pat_items (if hd0 re = 0x5E then tl re else re) in
      \<exists>pre mid suf. tx = pre @ mid @ suf \<and> mid \<in> lang items \<and> (hd0 re = 0x5E \<longrightarrow> pre = []) \<and> (eol \<longrightarrow> suf = []))"
  by (auto simp: grep_match_def match_from_iff matchhere_begins begins_def split: prod.splits)

section \<open>Input in pieces\<close>

text \<open>
  A world in which each descriptor delivers a given sequence of reads and everything written is kept:
  the other end of a pipe, for instance, whose writer chooses where the pieces end.
\<close>

record feed =
  fd_in :: "int \<Rightarrow> bytes list"
  fd_out :: "(int \<times> bytes) list"

definition feed_read :: "int \<Rightarrow> nat \<Rightarrow> (feed, bytes option) kop" where
  "feed_read fd n = (\<lambda>w. case fd_in w fd of [] \<Rightarrow> Ok (Some []) w
     | c # cs \<Rightarrow> Ok (Some (take n c)) (w\<lparr>fd_in := (fd_in w)(fd := if length c \<le> n then cs else drop n c # cs)\<rparr>))"

definition feed_os :: "feed os" where
  "feed_os = \<lparr>os_fork = kret (- 1), os_wait = kret (- 1), os_pipe = kret None,
     os_write = (\<lambda>fd bs. kdo (kmod (\<lambda>w. w\<lparr>fd_out := fd_out w @ [(fd, bs)]\<rparr>)) (\<lambda>_. kret (int (length bs)))),
     os_read = feed_read, os_close = (\<lambda>_. kret 0), os_kill = (\<lambda>_. kret (- 1)), os_exec = (\<lambda>_ _. kret (- 1)),
     os_open = (\<lambda>_ _. kret (- 1)), os_mknod = (\<lambda>_ _ _. kret (- 1)), os_unlink = (\<lambda>_. kret (- 1)), os_fstat = (\<lambda>_. kret None),
     os_link = (\<lambda>_ _. kret (- 1)), os_mkdir = (\<lambda>_. kret (- 1)), os_chdir = (\<lambda>_. kret (- 1)), os_dup = (\<lambda>_. kret (- 1)),
     os_sbrk = (\<lambda>_. kret (- 1))\<rparr>"

text \<open>\<open>reads os fd n w cs w'\<close>: from world \<open>w\<close> on, reads of at most \<open>n\<close> bytes give the pieces \<open>cs\<close> and then the end.\<close>

inductive reads :: "'w os \<Rightarrow> int \<Rightarrow> nat \<Rightarrow> 'w \<Rightarrow> bytes list \<Rightarrow> 'w \<Rightarrow> bool" for os fd n where
  reads_end: "os_read os fd n w = Ok (Some []) w' \<Longrightarrow> reads os fd n w [] w'"
| reads_more: "os_read os fd n w = Ok (Some c) w1 \<Longrightarrow> c \<noteq> [] \<Longrightarrow> reads os fd n w1 cs w' \<Longrightarrow> reads os fd n w (c # cs) w'"

inductive_cases reads_NilE: "reads os fd n w [] w'"
inductive_cases reads_ConsE: "reads os fd n w (c # cs) w'"

definition wspace :: "u8 \<Rightarrow> bool" where "wspace b \<longleftrightarrow> b \<in> {0x20, 13, 9, 10, 11}"

definition word_starts :: "bytes \<Rightarrow> nat set" where
  "word_starts bs = {i. i < length bs \<and> \<not> wspace (bs ! i) \<and> (i = 0 \<or> wspace (bs ! (i - 1)))}"

lemma wc_byte_eq:
  "wc_byte b \<lparr>wc_l = l, wc_w = w, wc_c = c, wc_inword = i\<rparr> =
     \<lparr>wc_l = (if b = NL then l + 1 else l), wc_w = (if \<not> wspace b \<and> \<not> i then w + 1 else w), wc_c = c + 1, wc_inword = (\<not> wspace b)\<rparr>"
proof -
  have "ustrchr (str '' '' @ [13, 9, 10, 11]) b = None \<longleftrightarrow> \<not> wspace b" by (auto simp: str_def wspace_def)
  then show ?thesis by (cases i) (auto simp: wc_byte_def Let_def)
qed

lemma word_starts_snoc:
  "word_starts (bs @ [b]) = word_starts bs \<union> (if \<not> wspace b \<and> (bs = [] \<or> wspace (last bs)) then {length bs} else {})"
  by (cases "bs = []") (auto simp: word_starts_def nth_append last_conv_nth less_Suc_eq)

lemma finite_word_starts [simp]: "finite (word_starts bs)"
  by (rule finite_subset [of _ "{..<length bs}"]) (auto simp: word_starts_def)

lemma wc_fold:
  "fold wc_byte bs \<lparr>wc_l = 0, wc_w = 0, wc_c = 0, wc_inword = False\<rparr> =
     \<lparr>wc_l = count_list bs NL, wc_w = card (word_starts bs), wc_c = length bs, wc_inword = (bs \<noteq> [] \<and> \<not> wspace (last bs))\<rparr>"
proof (induction bs rule: rev_induct)
  case Nil
  then show ?case by (simp add: word_starts_def)
next
  case (snoc b bs)
  have "length bs \<notin> word_starts bs" by (simp add: word_starts_def)
  then have "card (word_starts (bs @ [b])) = card (word_starts bs) + (if \<not> wspace b \<and> (bs = [] \<or> wspace (last bs)) then 1 else 0)"
    by (simp add: word_starts_snoc)
  then show ?case using snoc by (auto simp: wc_byte_eq count_list_append)
qed

lemma wc_loop_reads:
  "reads os fd 512 w cs w' \<Longrightarrow> length cs < k \<Longrightarrow> wc_loop k os fd s w = Ok (Some (fold wc_byte (concat cs) s)) w'"
proof (induction k arbitrary: w cs s)
  case (Suc k)
  show ?case
  proof (cases cs)
    case Nil
    then show ?thesis using Suc.prems(1) by (auto elim!: reads_NilE simp: kret_def)
  next
    case (Cons c cs')
    then show ?thesis using Suc.prems Suc.IH by (auto elim!: reads_ConsE)
  qed
qed simp

text \<open>
  C39. \<^verbatim>\<open>wc\<close> counts its input, however the reads cut it into pieces: it prints the number of newlines, of
  words (non-space bytes at the start or after a space) and of bytes of the concatenation of the pieces.
\<close>

theorem wc_counts:
  assumes "reads os fd 512 w cs w'" "length cs < k"
  shows "wc k os fd name w = printf os 1 (str ''%d %d %d %s'' @ [NL])
    [UInt (of_nat (count_list (concat cs) NL)), UInt (of_nat (card (word_starts (concat cs)))), UInt (of_nat (length (concat cs))),
     UStr (Some name)] w'"
  unfolding wc_def by (simp add: kdo_def wc_loop_reads [OF assms] wc_fold)

lemma drop_line: "NL \<in> set d \<Longrightarrow> length (tl (dropWhile (\<lambda>c. c \<noteq> NL) d)) < length d"
  using length_dropWhile_le [of "\<lambda>c. c \<noteq> NL" d] length_pos_if_in_set [of NL d] by (simp, linarith)

text \<open>The complete lines of some bytes, and what follows the last newline.\<close>

function lines_of :: "bytes \<Rightarrow> bytes list" where
  "lines_of d = (if NL \<in> set d then takeWhile (\<lambda>c. c \<noteq> NL) d # lines_of (tl (dropWhile (\<lambda>c. c \<noteq> NL) d)) else [])"
  by pat_completeness auto
termination by (relation "measure length") (simp_all only: drop_line in_measure wf_measure)

function rest_of :: "bytes \<Rightarrow> bytes" where
  "rest_of d = (if NL \<in> set d then rest_of (tl (dropWhile (\<lambda>c. c \<noteq> NL) d)) else d)"
  by pat_completeness auto
termination by (relation "measure length") (simp_all only: drop_line in_measure wf_measure)

declare lines_of.simps [simp del] rest_of.simps [simp del]

lemma lines_of_none [simp]: "NL \<notin> set d \<Longrightarrow> lines_of d = []" "NL \<notin> set d \<Longrightarrow> rest_of d = d"
  by (simp_all add: lines_of.simps [of d] rest_of.simps [of d])

lemma lines_of_some [simp]:
  assumes "NL \<notin> set l"
  shows "lines_of (l @ NL # r) = l # lines_of r" "rest_of (l @ NL # r) = rest_of r"
proof -
  have "takeWhile (\<lambda>c. c \<noteq> NL) (l @ NL # r) = l" "dropWhile (\<lambda>c. c \<noteq> NL) (l @ NL # r) = NL # r"
    using assms by (auto simp: takeWhile_append dropWhile_append)
  then show "lines_of (l @ NL # r) = l # lines_of r" "rest_of (l @ NL # r) = rest_of r"
    by (simp_all add: lines_of.simps [of "l @ NL # r"] rest_of.simps [of "l @ NL # r"])
qed

lemma line_cases:
  obtains "NL \<notin> set d" | l r where "d = l @ NL # r" "NL \<notin> set l"
  by (metis split_list_first)

lemma ustrchr_line: "0 \<notin> set l \<Longrightarrow> NL \<notin> set l \<Longrightarrow> ustrchr (l @ NL # r) NL = Some (NL # r)"
  by (induction l) (auto simp: NL_def)

lemma ustrchr_none: "0 \<notin> set l \<Longrightarrow> NL \<notin> set l \<Longrightarrow> ustrchr (l @ 0 # r) NL = None"
  by (induction l) auto

definition printed :: "bytes \<Rightarrow> bytes list \<Rightarrow> (int \<times> bytes) list" where
  "printed pattern xs = map (\<lambda>l. (1, l @ [NL])) (filter (grep_match pattern) xs)"

lemma grep_lines_law:
  assumes "0 \<notin> set r" "length r < k"
  shows "\<exists>pre'. grep_lines k feed_os pattern (pre @ r @ 0 # junk) (length pre) w =
      Ok (length pre', pre' @ rest_of r @ 0 # junk) (w\<lparr>fd_out := fd_out w @ printed pattern (lines_of r)\<rparr>) \<and>
    length pre' + length (rest_of r) = length pre + length r"
  using assms
proof (induction k arbitrary: pre r w)
  case (Suc k)
  show ?case
  proof (cases rule: line_cases [of r])
    case 1
    then show ?thesis using Suc.prems(1) by (auto simp: ustrchr_none printed_def kret_def)
  next
    case (2 l r')
    have z: "0 \<notin> set l" "0 \<notin> set r'" using Suc.prems(1) 2(1) by auto
    let ?buf = "pre @ r @ 0 # junk" and ?q = "length pre + length l"
    have c: "ustrchr (drop (length pre) ?buf) NL = Some (NL # r' @ 0 # junk)" using 2 z ustrchr_line [of l] by simp
    have q: "length ?buf - length (NL # r' @ 0 # junk) = ?q" using 2 by simp
    have b0: "?buf[?q := 0] = pre @ l @ 0 # r' @ 0 # junk" "(pre @ l @ 0 # r' @ 0 # junk)[?q := NL] = pre @ l @ NL # r' @ 0 # junk"
      using 2 by (simp_all add: list_update_append)
    have s: "cstr_at (pre @ l @ 0 # r' @ 0 # junk) (length pre) = l" using z by (simp add: cstr_at_def takeWhile_append)
    have t: "take (?q + 1 - length pre) (drop (length pre) (pre @ l @ NL # r' @ 0 # junk)) = l @ [NL]" by simp
    have st: "grep_lines (Suc k) feed_os pattern ?buf (length pre) w =
        (if grep_match pattern l then grep_lines k feed_os pattern ((pre @ l @ [NL]) @ r' @ 0 # junk) (length (pre @ l @ [NL])) (w\<lparr>fd_out := fd_out w @ [(1, l @ [NL])]\<rparr>)
         else grep_lines k feed_os pattern ((pre @ l @ [0]) @ r' @ 0 # junk) (length (pre @ l @ [0])) w)"
      unfolding grep_lines.simps c option.case Let_def q b0 s t by (simp add: feed_os_def kdo_def kop_defs)
    have len: "length r' < k" using Suc.prems(2) 2 by simp
    show ?thesis
    proof (cases "grep_match pattern l")
      case True
      then show ?thesis using Suc.IH [OF z(2) len, of "pre @ l @ [NL]" "w\<lparr>fd_out := fd_out w @ [(1, l @ [NL])]\<rparr>"] st 2
        by (auto simp: printed_def)
    next
      case False
      then show ?thesis using Suc.IH [OF z(2) len, of "pre @ l @ [0]" w] st 2 by (auto simp: printed_def)
    qed
  qed
qed simp

text \<open>The lines that \<^verbatim>\<open>grep\<close> looks at, when \<open>t\<close> is left over from the reads so far.\<close>

fun grep_sees :: "bytes \<Rightarrow> bytes list \<Rightarrow> bytes list" where
  "grep_sees t [] = []"
| "grep_sees t (c # cs) = (if NL \<in> set c then lines_of (t @ c) @ grep_sees (rest_of (t @ c)) cs else grep_sees [] cs)"

lemma rest_of_suffix: "NL \<notin> set (rest_of d) \<and> (\<exists>pre. d = pre @ rest_of d)"
proof (induction d rule: measure_induct_rule [of length])
  case (less d)
  show ?case
  proof (cases rule: line_cases [of d])
    case (2 l r)
    then obtain pre where "NL \<notin> set (rest_of r)" "r = pre @ rest_of r" using less [of r] by auto
    then show ?thesis using 2 by (metis append.assoc append_Cons lines_of_some(2))
  qed simp
qed

lemma rest_of_le: "length (rest_of d) \<le> length d" "NL \<notin> set (rest_of d)" "set (rest_of d) \<subseteq> set d"
proof -
  obtain pre where p: "d = pre @ rest_of d" "NL \<notin> set (rest_of d)" using rest_of_suffix by blast
  show "NL \<notin> set (rest_of d)" by (rule p(2))
  show "length (rest_of d) \<le> length d" using arg_cong [OF p(1), of length] by simp
  show "set (rest_of d) \<subseteq> set d" using arg_cong [OF p(1), of set] by auto
qed

lemma rest_of_append: "NL \<in> set c \<Longrightarrow> NL \<notin> set t \<Longrightarrow> rest_of (t @ c) = rest_of c"
proof -
  assume "NL \<in> set c" "NL \<notin> set t"
  then obtain l r where "c = l @ NL # r" "NL \<notin> set l" by (metis split_list_first)
  then show ?thesis using \<open>NL \<notin> set t\<close> lines_of_some(2) [of "t @ l" r] by simp
qed

lemma grep_loop_law:
  assumes "\<forall>c \<in> set cs. c \<noteq> [] \<and> 0 \<notin> set c \<and> length c \<le> 500" "0 \<notin> set t" "NL \<notin> set t" "length t \<le> 500" "length cs < k"
    and "length buf = 1024" "take (length t) buf = t" "fd_in w fd = cs"
  shows "runs (grep_loop k feed_os pattern fd (length t) buf) w (\<lambda>_ w'. fd_out w' = fd_out w @ printed pattern (grep_sees t cs))"
  using assms
proof (induction cs arbitrary: k t buf w)
  case Nil
  then obtain k' where "k = Suc k'" by (cases k) auto
  then show ?case using Nil by (simp add: feed_os_def feed_read_def runs_def kdo_def kret_def printed_def)
next
  case (Cons c cs)
  then obtain k' where k: "k = Suc k'" "length cs < k'" by (cases k) auto
  have c: "c \<noteq> []" "0 \<notin> set c" "length c \<le> 500" using Cons.prems(1) by auto
  define junk where "junk = drop (length t + length c + 1) buf"
  define w1 where "w1 = w\<lparr>fd_in := (fd_in w)(fd := cs)\<rparr>"
  have rd: "os_read feed_os fd (1024 - length t - 1) w = Ok (Some c) w1"
    using Cons.prems(4,8) c(3) by (simp add: feed_os_def feed_read_def w1_def)
  have buf: "(blit (length t) c buf)[length t + length c := 0] = [] @ (t @ c) @ 0 # junk"
  proof -
    have "length t + length c < length buf" using Cons.prems(4,6) c(3) by simp
    then have "drop (length t + length c) buf = buf ! (length t + length c) # junk"
      by (simp add: junk_def Cons_nth_drop_Suc [symmetric])
    then show ?thesis using Cons.prems(7) by (simp add: blit_def list_update_append)
  qed
  have jl: "length junk = 1024 - (length t + length c + 1)" using Cons.prems(6) by (simp add: junk_def)
  have "0 \<notin> set (t @ c)" "length (t @ c) < 1025" using c Cons.prems(2,4) by auto
  moreover have "fd_out w1 = fd_out w" by (simp add: w1_def)
  ultimately obtain pre where
    pre: "grep_lines 1025 feed_os pattern ([] @ (t @ c) @ 0 # junk) 0 w1 =
      Ok (length pre, pre @ rest_of (t @ c) @ 0 # junk) (w1\<lparr>fd_out := fd_out w @ printed pattern (lines_of (t @ c))\<rparr>)"
      "length pre + length (rest_of (t @ c)) = length t + length c"
    using grep_lines_law [of "t @ c" 1025 pattern "[]" junk w1] by auto
  let ?w2 = "w1\<lparr>fd_out := fd_out w @ printed pattern (lines_of (t @ c))\<rparr>" and ?b = "pre @ rest_of (t @ c) @ 0 # junk"
  have bl: "length ?b = 1024" using pre(2) jl c(3) Cons.prems(4) by simp
  have st: "grep_loop k feed_os pattern fd (length t) buf w =
      (if pre = [] then grep_loop k' feed_os pattern fd 0 ?b ?w2
       else grep_loop k' feed_os pattern fd (length (rest_of (t @ c))) (blit 0 (rest_of (t @ c)) ?b) ?w2)"
  proof -
    have "length t + length c - length pre = length (rest_of (t @ c))" "take (length (rest_of (t @ c))) (drop (length pre) ?b) = rest_of (t @ c)"
      using pre(2) by simp_all
    moreover have "length pre = 0 \<or> 0 < length t + length c" using pre(2) by linarith
    ultimately show ?thesis
      unfolding k(1) grep_loop.simps kdo_def rd outcome.case option.case Let_def buf if_not_P [OF c(1)] pre(1) prod.case by auto
  qed
  have in2: "fd_in ?w2 fd = cs" "fd_out ?w2 = fd_out w @ printed pattern (lines_of (t @ c))" by (simp_all add: w1_def)
  show ?case
  proof (cases "NL \<in> set c")
    case True
    have r: "rest_of (t @ c) = rest_of c" by (rule rest_of_append [OF True Cons.prems(3)])
    have "length (rest_of (t @ c)) < length (t @ c)"
    proof -
      obtain l u where "t @ c = l @ NL # u" "NL \<notin> set l" using True by (metis split_list_first set_append Un_iff)
      then show ?thesis using rest_of_le(1) [of u] by simp
    qed
    then have "pre \<noteq> []" using pre(2) by auto
    moreover have "runs (grep_loop k' feed_os pattern fd (length (rest_of (t @ c))) (blit 0 (rest_of (t @ c)) ?b)) ?w2
        (\<lambda>_ w'. fd_out w' = fd_out ?w2 @ printed pattern (grep_sees (rest_of (t @ c)) cs))"
    proof (rule Cons.IH [OF _ _ _ _ k(2) _ _ in2(1)])
      show "\<forall>c \<in> set cs. c \<noteq> [] \<and> 0 \<notin> set c \<and> length c \<le> 500" using Cons.prems(1) by simp
      show "0 \<notin> set (rest_of (t @ c))" using rest_of_le(3) [of c] c(2) r by auto
      show "length (rest_of (t @ c)) \<le> 500" using rest_of_le(1) [of c] c(3) r by simp
      show "length (blit 0 (rest_of (t @ c)) ?b) = 1024" using bl by (simp add: blit_def)
    qed (simp_all add: rest_of_le(2) blit_def)
    ultimately show ?thesis using True in2(2) st by (simp add: runs_def printed_def)
  next
    case False
    then have n: "NL \<notin> set (t @ c)" using Cons.prems(3) by simp
    then have "pre = []" using pre(2) by simp
    moreover have "runs (grep_loop k' feed_os pattern fd (length ([] :: bytes)) ?b) ?w2 (\<lambda>_ w'. fd_out w' = fd_out ?w2 @ printed pattern (grep_sees [] cs))"
      by (rule Cons.IH [OF _ _ _ _ k(2) bl _ in2(1)]) (use Cons.prems(1) in simp_all)
    ultimately show ?thesis using False in2(2) st by (simp add: runs_def printed_def lines_of_none(1) [OF n])
  qed
qed

lemma lines_of_append: "lines_of (a @ b) = lines_of a @ lines_of (rest_of a @ b)"
proof (induction a rule: measure_induct_rule [of length])
  case (less a)
  show ?case
  proof (cases rule: line_cases [of a])
    case (2 l r)
    then show ?thesis using less [of r] by simp
  qed simp
qed

lemma grep_sees_whole:
  "NL \<notin> set t \<Longrightarrow> \<forall>c \<in> set cs. NL \<in> set c \<Longrightarrow> grep_sees t cs = lines_of (t @ concat cs)"
proof (induction cs arbitrary: t)
  case (Cons c cs)
  then have "grep_sees (rest_of (t @ c)) cs = lines_of (rest_of (t @ c) @ concat cs)" by (intro Cons.IH) (auto simp: rest_of_le(2))
  then show ?case using Cons.prems lines_of_append [of "t @ c" "concat cs"] by simp
qed simp

text \<open>
  C40. What \<^verbatim>\<open>grep\<close> prints, on input that comes in reads of at most 500 bytes: it returns, and it has printed
  the matching ones among the lines it saw, in order. When every read contains a newline these are
  exactly the complete lines of the input.
\<close>

theorem grep_prints_matches:
  assumes "\<forall>c \<in> set cs. c \<noteq> [] \<and> 0 \<notin> set c \<and> length c \<le> 500" "length cs < k"
  shows "runs (grep k feed_os pattern fd) \<lparr>fd_in = (\<lambda>_. cs), fd_out = []\<rparr>
      (\<lambda>_ w. fd_out w = printed pattern (grep_sees [] cs)) \<and>
    ((\<forall>c \<in> set cs. NL \<in> set c) \<longrightarrow> grep_sees [] cs = lines_of (concat cs))"
proof -
  have "runs (grep_loop k feed_os pattern fd (length ([] :: bytes)) (replicate 1024 0)) \<lparr>fd_in = (\<lambda>_. cs), fd_out = []\<rparr>
      (\<lambda>_ w. fd_out w = fd_out \<lparr>fd_in = (\<lambda>_. cs), fd_out = []\<rparr> @ printed pattern (grep_sees [] cs))"
    by (rule grep_loop_law [OF assms(1) _ _ _ assms(2)]) simp_all
  then show ?thesis using grep_sees_whole [of "[]" cs] by (simp add: grep_def)
qed

text \<open>
  C41. \<^verbatim>\<open>grep\<close> loses a line that arrives in two reads: on \<^verbatim>\<open>hello\<close> and a newline, a line that matches the
  pattern \<^verbatim>\<open>hello\<close>, it prints nothing when the \<^verbatim>\<open>h\<close> arrives in a read of its own.
\<close>

theorem grep_loses_split_line:
  "grep_match (str ''hello'') (str ''hello'') \<and>
   runs (grep 3 feed_os (str ''hello'') 0) \<lparr>fd_in = (\<lambda>_. [str ''h'', str ''ello'' @ [NL]]), fd_out = []\<rparr> (\<lambda>_ w. fd_out w = [])"
proof
  have ne: "\<not> matchhere (str ''hello'') t" if "hd0 t \<noteq> 104" for t
    using that by (cases t) (auto simp: str_def matchhere.simps(2) hd0_def)
  have "\<not> grep_match (str ''hello'') (str ''ello'')"
    by (simp add: grep_match_def str_def hd0_def ne [unfolded str_def hd0_def, simplified])
  moreover have "grep_sees [] [str ''h'', str ''ello'' @ [NL]] = [str ''ello'']"
    using lines_of_some(1) [of "str ''ello''" "[]"] by (simp add: str_def NL_def)
  moreover have "runs (grep 3 feed_os (str ''hello'') 0) \<lparr>fd_in = (\<lambda>_. [str ''h'', str ''ello'' @ [NL]]), fd_out = []\<rparr>
      (\<lambda>_ w. fd_out w = printed (str ''hello'') (grep_sees [] [str ''h'', str ''ello'' @ [NL]]))"
    unfolding grep_def using grep_loop_law [of "[str ''h'', str ''ello'' @ [NL]]" "[]" 3 "replicate 1024 0"
      "\<lparr>fd_in = (\<lambda>_. [str ''h'', str ''ello'' @ [NL]]), fd_out = []\<rparr>" 0 "str ''hello''"]
    by (simp add: str_def NL_def)
  ultimately show "runs (grep 3 feed_os (str ''hello'') 0) \<lparr>fd_in = (\<lambda>_. [str ''h'', str ''ello'' @ [NL]]), fd_out = []\<rparr> (\<lambda>_ w. fd_out w = [])"
    by (simp add: printed_def)
  show "grep_match (str ''hello'') (str ''hello'')"
    by (simp add: grep_match_def str_def hd0_def matchhere.simps(2))
qed

theorem wc_counts_witness:
  "\<exists>w'. wc 3 feed_os 0 (str ''x'') \<lparr>fd_in = (\<lambda>_. [str ''ab'', str ''c d'' @ [NL]]), fd_out = []\<rparr> =
     printf feed_os 1 (str ''%d %d %d %s'' @ [NL])
       [UInt 1, UInt (of_nat (card (word_starts (str ''abc d'' @ [NL])))), UInt 6, UStr (Some (str ''x''))] w'"
proof -
  let ?w = "\<lparr>fd_in = (\<lambda>_. [str ''ab'', str ''c d'' @ [NL]]), fd_out = []\<rparr>"
  have "\<exists>w'. reads feed_os 0 512 ?w [str ''ab'', str ''c d'' @ [NL]] w'"
    by (intro exI, rule reads_more, simp add: feed_os_def feed_read_def str_def, simp add: str_def,
        rule reads_more, simp add: feed_os_def feed_read_def str_def, simp add: str_def,
        rule reads_end, simp add: feed_os_def feed_read_def)
  then obtain w' where "reads feed_os 0 512 ?w [str ''ab'', str ''c d'' @ [NL]] w'" ..
  from wc_counts [OF this, of 3 "str ''x''"] show ?thesis by (auto simp: str_def NL_def)
qed

theorem grep_prints_matches_witness:
  "runs (grep 3 feed_os (str ''b'') 0) \<lparr>fd_in = (\<lambda>_. [str ''ab'' @ [NL]]), fd_out = []\<rparr>
     (\<lambda>_ w. fd_out w = printed (str ''b'') (grep_sees [] [str ''ab'' @ [NL]]))"
  using grep_prints_matches [of "[str ''ab'' @ [NL]]" 3 "str ''b''" 0] by (simp add: str_def NL_def)

end
