(* ===== verification/Spec2Isabelle.thy ===== *)
theory Spec2Isabelle
  imports Log_Spec Buddy_Spec Kalloc Console Keyboard Fs Inode Vm File Lifecycle Exec Sysfile Trap Pipe Pagetable Klib Userland
begin

text \<open>
  A verification of the kernel, file system and support code of rexv6 (a descendant of xv6 for
  x86), translated from the C and C++ sources under \<^verbatim>\<open>src/\<close>.

  \<^descr>[Prelude] the outcome type of kernel routines, the combinators in which they are written, the
  total-correctness predicate \<open>runs\<close>, and byte-level encodings.

  \<^descr>[Spinlock] \<^verbatim>\<open>kern/locking/spinlock.c\<close> on a multiprocessor, with the interleaving model.

  \<^descr>[Memory] memory and the state of the allocators.
\<close>

end
